(* ===== verification/Prelude.thy ===== *)
theory Prelude
  imports Complex_Main "HOL-Library.Word" "HOL-Library.Monad_Syntax"
begin

text \<open>
  Shared vocabulary of the development: reading and writing C arrays, where an index out of
  bounds has no defined result, the configuration constants of \<^verbatim>\<open>param.h\<close> and \<^verbatim>\<open>bfs.h\<close>, and
  the doubly linked chains of array indices that the kernel threads through its static tables.

  A C computation that may have no defined result has an \<open>option\<close> type: \<open>None\<close> stands for an
  access out of bounds, a read of an uninitialised variable or a loop that does not end.
\<close>

named_theorems param_defs \<open>configuration constants of the kernel\<close>
named_theorems shape_simps \<open>array and record shapes kept by every update\<close>

section \<open>Configuration constants\<close>

text \<open>The constants of \<^verbatim>\<open>param.h\<close> and \<^verbatim>\<open>bfs.h\<close> that the modelled code uses.\<close>

definition NPROC :: nat where
  [param_defs]: "NPROC = 64"

definition MAX_SKIPLIST_LEVEL :: nat where
  [param_defs]: "MAX_SKIPLIST_LEVEL = 4"

definition BFS_DEFAULT_QUANTUM :: int where
  [param_defs]: "BFS_DEFAULT_QUANTUM = 50"

definition BFS_NICE_FIRST_LEVEL :: int where
  [param_defs]: "BFS_NICE_FIRST_LEVEL = - 20"

definition BFS_NICE_LAST_LEVEL :: int where
  [param_defs]: "BFS_NICE_LAST_LEVEL = 19"

definition CHANCE :: rat where
  [param_defs]: "CHANCE = 1 / 4"

definition SEED :: "32 word" where
  [param_defs]: "SEED = 62301983"

lemma MAX_SKIPLIST_LEVEL_pos [simp]: "0 < MAX_SKIPLIST_LEVEL"
  by (simp add: param_defs)

lemma NPROC_pos [simp]: "0 < NPROC"
  by (simp add: param_defs)

section \<open>C arrays\<close>

text \<open>\<open>aref xs i\<close> is \<^verbatim>\<open>xs[i]\<close> and \<open>aset xs i v\<close> is \<^verbatim>\<open>xs[i] = v\<close>, for a signed index.\<close>

definition aref :: "'a list \<Rightarrow> int \<Rightarrow> 'a option" where
  "aref xs i = (if 0 \<le> i \<and> i < int (length xs) then Some (xs ! nat i) else None)"

definition aset :: "'a list \<Rightarrow> int \<Rightarrow> 'a \<Rightarrow> 'a list option" where
  "aset xs i v = (if 0 \<le> i \<and> i < int (length xs) then Some (xs[nat i := v]) else None)"

lemma aref_int [simp]: "i < length xs \<Longrightarrow> aref xs (int i) = Some (xs ! i)"
  by (simp add: aref_def)

lemma aset_int [simp]: "i < length xs \<Longrightarrow> aset xs (int i) v = Some (xs[i := v])"
  by (simp add: aset_def)

lemma aref_neg [simp]: "i < 0 \<Longrightarrow> aref xs i = None"
  by (simp add: aref_def)

section \<open>Chains of indices\<close>

text \<open>
  \<open>linked f g a ys\<close>: following the forward links \<open>f\<close> from \<open>a\<close> visits exactly \<open>ys\<close> and stops at
  the null index -1, and the backward links \<open>g\<close> undo every forward step.
\<close>

fun linked :: "(nat \<Rightarrow> int) \<Rightarrow> (nat \<Rightarrow> int) \<Rightarrow> nat \<Rightarrow> nat list \<Rightarrow> bool" where
  "linked f g a [] \<longleftrightarrow> f a = -1"
| "linked f g a (b # bs) \<longleftrightarrow> f a = int b \<and> g b = int a \<and> linked f g b bs"

lemma linked_cong:
  "\<lbrakk>\<And>x. x \<in> set (a # ys) \<Longrightarrow> f x = f' x; \<And>x. x \<in> set ys \<Longrightarrow> g x = g' x\<rbrakk>
    \<Longrightarrow> linked f g a ys = linked f' g' a ys"
  by (induction ys arbitrary: a) auto

lemma linked_suffix: "linked f g a (us @ b # ws) \<Longrightarrow> linked f g b ws"
  by (induction us arbitrary: a) auto

lemma linked_suffix':
  "linked f g a ys \<Longrightarrow> a # ys = us @ b # ws \<Longrightarrow> linked f g b ws"
  by (cases us) (auto dest: linked_suffix)

lemma linked_next:
  "linked f g a (us @ ws) \<Longrightarrow> f (last (a # us)) = (case ws of [] \<Rightarrow> -1 | w # _ \<Rightarrow> int w)"
  by (induction us arbitrary: a) (auto split: list.splits)

lemma linked_prev: "linked f g a (us @ d # ws) \<Longrightarrow> g d = int (last (a # us))"
  by (induction us arbitrary: a) auto

text \<open>Splicing a node in after \<open>last (a # us)\<close>, as the link loops of the kernel do.\<close>

lemma linked_insert:
  assumes "linked f g a (us @ ws)" and "distinct (a # us @ ws)" and "n \<notin> set (a # us @ ws)"
    and "\<And>x. x \<in> set (a # us @ ws) \<Longrightarrow> x \<noteq> last (a # us) \<Longrightarrow> f' x = f x"
    and "f' (last (a # us)) = int n"
    and "f' n = (case ws of [] \<Rightarrow> -1 | w # _ \<Rightarrow> int w)"
    and "g' n = int (last (a # us))"
    and "\<And>x. x \<in> set us \<Longrightarrow> g' x = g x"
    and "\<And>w ws'. ws = w # ws' \<Longrightarrow> g' w = int n \<and> (\<forall>x\<in>set ws'. g' x = g x)"
  shows "linked f' g' a (us @ n # ws)"
  using assms
proof (induction us arbitrary: a)
  case Nil
  show ?case
  proof (cases ws)
    case Nil
    with Nil.prems show ?thesis by simp
  next
    case (Cons w ws')
    have eq: "linked f' g' w ws' = linked f g w ws'"
      using Nil.prems(2,4,9) Cons by (intro linked_cong) auto
    show ?thesis using Nil.prems Cons eq by simp
  qed
next
  case (Cons u us)
  have last: "last (a # u # us) = last (u # us)" by simp
  have mem: "last (u # us) \<in> set (u # us)" by (rule last_in_set) simp
  then have ne: "a \<noteq> last (u # us)" using Cons.prems(2) by auto
  have "linked f' g' u (us @ n # ws)"
    by (rule Cons.IH) (use Cons.prems last in auto)
  moreover have "f' a = int u" "g' u = int a"
    using Cons.prems(1,4,8) ne last by auto
  ultimately show ?case by simp
qed

text \<open>Taking a node out, as the unlink loops do.\<close>

lemma linked_delete:
  assumes "linked f g a (us @ d # ws)" and "distinct (a # us @ d # ws)"
    and "\<And>x. x \<in> set (a # us @ ws) \<Longrightarrow> x \<noteq> last (a # us) \<Longrightarrow> f' x = f x"
    and "f' (last (a # us)) = (case ws of [] \<Rightarrow> -1 | w # _ \<Rightarrow> int w)"
    and "\<And>x. x \<in> set us \<Longrightarrow> g' x = g x"
    and "\<And>w ws'. ws = w # ws' \<Longrightarrow> g' w = int (last (a # us)) \<and> (\<forall>x\<in>set ws'. g' x = g x)"
  shows "linked f' g' a (us @ ws)"
  using assms
proof (induction us arbitrary: a)
  case Nil
  show ?case
  proof (cases ws)
    case Nil
    with Nil.prems show ?thesis by simp
  next
    case (Cons w ws')
    have eq: "linked f' g' w ws' = linked f g w ws'"
      using Nil.prems(2,3,6) Cons by (intro linked_cong) auto
    show ?thesis using Nil.prems Cons eq by simp
  qed
next
  case (Cons u us)
  have last: "last (a # u # us) = last (u # us)" by simp
  have "last (u # us) \<in> set (u # us)" by (rule last_in_set) simp
  then have ne: "a \<noteq> last (u # us)" using Cons.prems(2) by auto
  have "linked f' g' u (us @ ws)"
    by (rule Cons.IH) (use Cons.prems last in auto)
  moreover have "f' a = int u" "g' u = int a"
    using Cons.prems(1,3,5) ne last by auto
  ultimately show ?case by simp
qed

section \<open>Lists\<close>

lemma last_Cons_filter_mem: "last (a # filter P xs) \<in> set (a # filter P xs)"
  by (rule last_in_set) simp

lemma sorted_takeWhile_less:
  fixes f :: "'a \<Rightarrow> 'b::linorder"
  assumes "sorted (map f xs)"
  shows "takeWhile (\<lambda>x. f x < v) xs = filter (\<lambda>x. f x < v) xs"
  using assms
proof (induction xs)
  case Nil
  then show ?case by simp
next
  case (Cons x xs)
  then show ?case
    by (cases "f x < v") (force intro!: filter_False [symmetric])+
qed

lemma sorted_dropWhile_less:
  fixes f :: "'a \<Rightarrow> 'b::linorder"
  assumes "sorted (map f xs)"
  shows "dropWhile (\<lambda>x. f x < v) xs = filter (\<lambda>x. \<not> f x < v) xs"
  using assms
proof (induction xs)
  case Nil
  then show ?case by simp
next
  case (Cons x xs)
  then show ?case
    by (cases "f x < v") (force intro!: filter_True [symmetric])+
qed

lemma find_upt: "List.find P [0..<n] = Some i \<longleftrightarrow> i < n \<and> P i \<and> (\<forall>j<i. \<not> P j)"
  by (auto simp: find_Some_iff nth_append)

lemma find_upt_None: "List.find P [0..<n] = None \<longleftrightarrow> (\<forall>i<n. \<not> P i)"
  by (auto simp: find_None_iff)

end
