(* ===== verification/SkipList.thy ===== *)
theory SkipList
  imports Prelude
begin

unbundle bit_operations_syntax

text \<open>
  The skip list that orders the runnable processes by virtual deadline: the structures of
  \<^verbatim>\<open>defs.h\<close> and the functions \<^verbatim>\<open>initSkipList\<close>, \<^verbatim>\<open>random\<close>, \<^verbatim>\<open>slUpLevel\<close>, \<^verbatim>\<open>slFindFreeNode\<close>,
  \<^verbatim>\<open>slInsert\<close>, \<^verbatim>\<open>slSearch\<close>, \<^verbatim>\<open>slDelete\<close> and \<^verbatim>\<open>printSkipList\<close> of \<^verbatim>\<open>proc.c\<close>. A link is an array index of
  \<^verbatim>\<open>nodeList\<close>; node 0 is the sentinel, -1 is the null link. The functions return \<open>None\<close> where the
  C code would follow a link out of \<^verbatim>\<open>nodeList\<close>, use an uninitialised slot of
  \<^verbatim>\<open>backNodesToUpdate\<close> or loop for ever; the refinement theorems of the theory
  \<^verbatim>\<open>ReadyQueue\<close> give every operation a result on a well-formed list, so that none of
  these happens there. Two kinds of read are kept apart. The arguments of a \<^verbatim>\<open>dbgprintf\<close> are
  evaluated although its flag is 0, and three of them index \<^verbatim>\<open>nodeList\<close> with a link that can be
  the null link -1: \<open>dbg_read\<close> says so where the code does it. And \<open>printSkipList\<close>, which is
  called only with a debug flag set, reports the index of the first node it reads outside the
  array.
\<close>

section \<open>Data\<close>

record SkipNode =
  sn_valid :: int
  sn_value :: int
  sn_pid :: int
  sn_forward :: "int list"
  sn_backward :: "int list"
  sn_maxlevel :: int

record SkipList =
  sl_nodeList :: "SkipNode list"
  sl_level :: int

text \<open>
  With \<^verbatim>\<open>BFS_PRINT\<close> set, every successful insertion and removal prints one line; the lines are
  kept as events, newest last.
\<close>

datatype bfs_event = Inserted int int | Removed int int

text \<open>The globals \<^verbatim>\<open>sl\<close> and \<^verbatim>\<open>seed\<close> of \<^verbatim>\<open>proc.c\<close>, with the printed lines.\<close>

record bfs =
  bfs_sl :: SkipList
  bfs_seed :: "32 word"
  bfs_out :: "bfs_event list"

text \<open>Static storage: everything is zero except \<^verbatim>\<open>sl.level\<close>, which is -1 until the list is set up.\<close>

definition zero_node :: SkipNode where
  "zero_node = \<lparr>sn_valid = 0, sn_value = 0, sn_pid = 0,
     sn_forward = replicate MAX_SKIPLIST_LEVEL 0, sn_backward = replicate MAX_SKIPLIST_LEVEL 0,
     sn_maxlevel = 0\<rparr>"

definition static_sl :: SkipList where
  "static_sl = \<lparr>sl_nodeList = replicate (NPROC + 1) zero_node, sl_level = -1\<rparr>"

definition static_bfs :: bfs where
  "static_bfs = \<lparr>bfs_sl = static_sl, bfs_seed = SEED, bfs_out = []\<rparr>"

section \<open>Reading and writing nodes\<close>

definition node :: "SkipList \<Rightarrow> int \<Rightarrow> SkipNode option" where
  "node sl i = aref (sl_nodeList sl) i"

definition set_node :: "SkipList \<Rightarrow> int \<Rightarrow> SkipNode \<Rightarrow> SkipList option" where
  "set_node sl i n = do {
     ns \<leftarrow> aset (sl_nodeList sl) i n;
     Some (sl\<lparr>sl_nodeList := ns\<rparr>)
   }"

definition get_forward :: "SkipList \<Rightarrow> int \<Rightarrow> nat \<Rightarrow> int option" where
  "get_forward sl i l = do { n \<leftarrow> node sl i; aref (sn_forward n) (int l) }"

definition get_backward :: "SkipList \<Rightarrow> int \<Rightarrow> nat \<Rightarrow> int option" where
  "get_backward sl i l = do { n \<leftarrow> node sl i; aref (sn_backward n) (int l) }"

definition set_forward :: "SkipList \<Rightarrow> int \<Rightarrow> nat \<Rightarrow> int \<Rightarrow> SkipList option" where
  "set_forward sl i l v = do {
     n \<leftarrow> node sl i;
     fs \<leftarrow> aset (sn_forward n) (int l) v;
     set_node sl i (n\<lparr>sn_forward := fs\<rparr>)
   }"

definition set_backward :: "SkipList \<Rightarrow> int \<Rightarrow> nat \<Rightarrow> int \<Rightarrow> SkipList option" where
  "set_backward sl i l v = do {
     n \<leftarrow> node sl i;
     bs \<leftarrow> aset (sn_backward n) (int l) v;
     set_node sl i (n\<lparr>sn_backward := bs\<rparr>)
   }"

section \<open>Operations\<close>

definition initSkipList :: "SkipList \<Rightarrow> SkipList" where
  "initSkipList sl =
     (let nulls = replicate MAX_SKIPLIST_LEVEL (-1);
          init_head = (\<lambda>h. h\<lparr>sn_valid := 1, sn_value := -1, sn_pid := -1,
             sn_maxlevel := int MAX_SKIPLIST_LEVEL, sn_forward := nulls, sn_backward := nulls\<rparr>);
          init_node = (\<lambda>n. n\<lparr>sn_valid := 0, sn_value := -1, sn_pid := -1,
             sn_forward := nulls, sn_backward := nulls\<rparr>)
      in sl\<lparr>sl_level := 0,
            sl_nodeList := (case sl_nodeList sl of [] \<Rightarrow> []
                            | h # ns \<Rightarrow> init_head h # map init_node ns)\<rparr>)"

text \<open>\<^verbatim>\<open>random(max)\<close> returns the remainder and leaves the new state in \<^verbatim>\<open>seed\<close>.\<close>

definition next_seed :: "32 word \<Rightarrow> 32 word" where
  "next_seed seed =
     (let s1 = seed XOR push_bit 17 seed;
          s2 = s1 XOR drop_bit 7 s1
      in s2 XOR push_bit 5 s2)"

definition random :: "32 word \<Rightarrow> 32 word \<Rightarrow> 32 word \<times> 32 word" where
  "random m seed = (let seed' = next_seed seed in (seed' mod m, seed'))"

text \<open>The loop of \<^verbatim>\<open>slUpLevel\<close>: the dice is thrown before the bound on the level is looked at.\<close>

function slUpLevel_loop :: "rat \<Rightarrow> nat \<Rightarrow> 32 word \<Rightarrow> nat \<times> 32 word" where
  "slUpLevel_loop p lev seed =
     (let (r, seed') = random 100 seed
      in if of_nat (unat r) / 100 < p \<and> lev < MAX_SKIPLIST_LEVEL - 1
         then slUpLevel_loop p (lev + 1) seed' else (lev, seed'))"
  by pat_completeness auto
termination
  by (relation "measure (\<lambda>(p, lev, seed). MAX_SKIPLIST_LEVEL - lev)") auto

declare slUpLevel_loop.simps [simp del]

definition slUpLevel :: "rat \<Rightarrow> 32 word \<Rightarrow> nat \<times> 32 word" where
  "slUpLevel p seed = slUpLevel_loop p 0 seed"

function slFindFreeNode_loop :: "SkipList \<Rightarrow> nat \<Rightarrow> int option" where
  "slFindFreeNode_loop sl i =
     (if i < NPROC + 1
      then do {
        n \<leftarrow> node sl (int i);
        if sn_valid n \<noteq> 1 then Some (int i)
        else if i = NPROC then Some (-1)
        else slFindFreeNode_loop sl (i + 1)
      }
      else Some (int i))"
  by pat_completeness auto
termination
  by (relation "measure (\<lambda>(sl, i). NPROC + 1 - i)") auto

declare slFindFreeNode_loop.simps [simp del]

definition slFindFreeNode :: "SkipList \<Rightarrow> int option" where
  "slFindFreeNode sl = slFindFreeNode_loop sl 1"

text \<open>
  The argument \<^verbatim>\<open>sl.nodeList[i].value\<close> or \<^verbatim>\<open>.pid\<close> of a \<^verbatim>\<open>dbgprintf\<close> whose flag is 0: the
  element is read and the value discarded. With the null link -1 it is a word of the 48 bytes in
  front of the array, outside it but in mapped kernel memory, so that the read has no effect; any
  other index outside the array is an error.
\<close>

definition dbg_read :: "SkipList \<Rightarrow> int \<Rightarrow> unit option" where
  "dbg_read sl i = (if i = -1 then Some () else map_option (\<lambda>_. ()) (node sl i))"

text \<open>
  The inner loop of step 1 of \<^verbatim>\<open>slInsert\<close>: move right on one level while the next node is valid
  and has a smaller value.
\<close>

partial_function (option) slAdvance :: "SkipList \<Rightarrow> int \<Rightarrow> nat \<Rightarrow> int \<Rightarrow> int option" where
  [code]: "slAdvance sl v l cur = do {
     f \<leftarrow> get_forward sl cur l;
     if f = -1 then Some cur
     else do {
       m \<leftarrow> node sl f;
       if sn_valid m \<noteq> 0 \<and> sn_value m < v then slAdvance sl v l f else Some cur
     }
   }"

text \<open>
  Step 1 of \<^verbatim>\<open>slInsert\<close>: from level \<open>l\<close> down to 0, remember the rightmost node before the value.
  The four slots of \<^verbatim>\<open>backNodesIdxToUpdate\<close> start uninitialised.
\<close>

fun slInsert_path ::
    "SkipList \<Rightarrow> int \<Rightarrow> nat \<Rightarrow> int \<Rightarrow> int option list \<Rightarrow> int option list option" where
  "slInsert_path sl v l cur backs = do {
     cur \<leftarrow> slAdvance sl v l cur;
     backs \<leftarrow> aset backs (int l) (Some cur);
     (case l of 0 \<Rightarrow> Some backs | Suc k \<Rightarrow> slInsert_path sl v k cur backs)
   }"

declare slInsert_path.simps [simp del]

text \<open>Step 2: a level above the current one starts at the sentinel.\<close>

fun slInsert_raise :: "nat list \<Rightarrow> int option list \<Rightarrow> int option list option" where
  "slInsert_raise [] backs = Some backs"
| "slInsert_raise (l # ls) backs = do {
     backs \<leftarrow> aset backs (int l) (Some 0);
     slInsert_raise ls backs
   }"

text \<open>Step 5: splice the new node in on every level up to its own.\<close>

definition slInsert_link ::
    "int option list \<Rightarrow> int \<Rightarrow> nat \<Rightarrow> SkipList \<Rightarrow> SkipList option" where
  "slInsert_link backs new l sl = do {
     slot \<leftarrow> aref backs (int l);
     back \<leftarrow> slot;
     f \<leftarrow> get_forward sl back l;
     sl \<leftarrow> (if f \<noteq> -1
            then do {
              front \<leftarrow> node sl f;
              if sn_valid front = 1
              then do { sl \<leftarrow> set_forward sl new l f; set_backward sl f l new }
              else set_forward sl new l (-1)
            }
            else set_forward sl new l (-1));
     sl \<leftarrow> set_backward sl new l back;
     sl \<leftarrow> set_forward sl back l new;
     f \<leftarrow> get_forward sl new l;
     _ \<leftarrow> dbg_read sl f;
     b \<leftarrow> get_backward sl new l;
     _ \<leftarrow> dbg_read sl b;
     Some sl
   }"

fun slInsert_links ::
    "nat list \<Rightarrow> int option list \<Rightarrow> int \<Rightarrow> SkipList \<Rightarrow> SkipList option" where
  "slInsert_links [] backs new sl = Some sl"
| "slInsert_links (l # ls) backs new sl = do {
     sl \<leftarrow> slInsert_link backs new l sl;
     slInsert_links ls backs new sl
   }"

definition slInsert :: "int \<Rightarrow> int \<Rightarrow> rat \<Rightarrow> bfs \<Rightarrow> (int \<times> bfs) option" where
  "slInsert v pid p b =
     (let sl = bfs_sl b in
      if sl_level sl = -1 then Some (-1, b)
      else do {
        backs \<leftarrow> slInsert_path sl v (nat (sl_level sl)) 0 (replicate 4 None);
        let (newLevel, seed) = slUpLevel p (bfs_seed b);
        (backs, sl) \<leftarrow>
          (if int newLevel > sl_level sl
           then do {
             backs \<leftarrow> slInsert_raise [nat (sl_level sl + 1)..<newLevel + 1] backs;
             Some (backs, sl\<lparr>sl_level := int newLevel\<rparr>)
           }
           else Some (backs, sl));
        newNodeIdx \<leftarrow> slFindFreeNode sl;
        if newNodeIdx = -1 then Some (-1, b\<lparr>bfs_sl := sl, bfs_seed := seed\<rparr>)
        else do {
          newNode \<leftarrow> node sl newNodeIdx;
          sl \<leftarrow> set_node sl newNodeIdx (newNode\<lparr>sn_value := v, sn_pid := pid, sn_valid := 1,
                  sn_maxlevel := int newLevel\<rparr>);
          sl \<leftarrow> slInsert_links [0..<newLevel + 1] backs newNodeIdx sl;
          Some (0, b\<lparr>bfs_sl := sl, bfs_seed := seed,
                     bfs_out := bfs_out b @ [Inserted pid (int newLevel)]\<rparr>)
        }
      })"

text \<open>
  \<^verbatim>\<open>slSearch\<close> returns a node pointer: the index of the node, or \<open>None\<close> for the null pointer. Its
  inner loop moves like the one of \<^verbatim>\<open>slInsert\<close>; after each move the debug line reads the node
  behind the one it moved to.
\<close>

partial_function (option) slSearch_right :: "SkipList \<Rightarrow> int \<Rightarrow> nat \<Rightarrow> int \<Rightarrow> int option" where
  [code]: "slSearch_right sl v l cur = do {
     f \<leftarrow> get_forward sl cur l;
     if f = -1 then Some cur
     else do {
       m \<leftarrow> node sl f;
       if sn_valid m \<noteq> 0 \<and> sn_value m < v
       then do {
         g \<leftarrow> get_forward sl f l;
         _ \<leftarrow> dbg_read sl g;
         slSearch_right sl v l f
       }
       else Some cur
     }
   }"

fun slSearch_down :: "SkipList \<Rightarrow> int \<Rightarrow> nat \<Rightarrow> int \<Rightarrow> int option" where
  "slSearch_down sl v l cur = do {
     cur \<leftarrow> slSearch_right sl v l cur;
     (case l of 0 \<Rightarrow> Some cur | Suc k \<Rightarrow> slSearch_down sl v k cur)
   }"

declare slSearch_down.simps [simp del]

partial_function (option) slSearch_bottom ::
    "SkipList \<Rightarrow> int \<Rightarrow> int \<Rightarrow> int \<Rightarrow> int option option" where
  [code]: "slSearch_bottom sl v pid cur = do {
     f \<leftarrow> get_forward sl cur 0;
     if f = -1 then Some None
     else do {
       m \<leftarrow> node sl f;
       if sn_valid m \<noteq> 0 \<and> sn_value m = v
       then do {
         g \<leftarrow> get_forward sl f 0;
         _ \<leftarrow> dbg_read sl g;
         if sn_pid m = pid then Some (Some f) else slSearch_bottom sl v pid f
       }
       else Some None
     }
   }"

definition slSearch :: "int \<Rightarrow> int \<Rightarrow> SkipList \<Rightarrow> int option option" where
  "slSearch v pid sl =
     (if sl_level sl = -1 then Some None
      else do {
        cur \<leftarrow> slSearch_down sl v (nat (sl_level sl)) 0;
        slSearch_bottom sl v pid cur
      })"

text \<open>Step 2 of \<^verbatim>\<open>slDelete\<close>, one level.\<close>

definition slDelete_unlink :: "int \<Rightarrow> nat \<Rightarrow> SkipList \<Rightarrow> SkipList option" where
  "slDelete_unlink d l sl = do {
     back \<leftarrow> get_backward sl d l;
     f \<leftarrow> get_forward sl d l;
     sl \<leftarrow> (if f \<noteq> -1
            then do { sl \<leftarrow> set_forward sl back l f; set_backward sl f l back }
            else set_forward sl back l (-1));
     sl \<leftarrow> set_forward sl d l (-1);
     set_backward sl d l (-1)
   }"

fun slDelete_unlinks :: "nat list \<Rightarrow> int \<Rightarrow> SkipList \<Rightarrow> SkipList option" where
  "slDelete_unlinks [] d sl = Some sl"
| "slDelete_unlinks (l # ls) d sl = do {
     sl \<leftarrow> slDelete_unlink d l sl;
     slDelete_unlinks ls d sl
   }"

definition slDelete :: "int \<Rightarrow> int \<Rightarrow> bfs \<Rightarrow> (int option \<times> bfs) option" where
  "slDelete v pid b =
     (let sl = bfs_sl b in
      if sl_level sl = -1 then Some (None, b)
      else do {
        found \<leftarrow> slSearch v pid sl;
        (case found of
           None \<Rightarrow> Some (None, b)
         | Some d \<Rightarrow> do {
             n \<leftarrow> node sl d;
             sl \<leftarrow> slDelete_unlinks (rev [0..<nat (sn_maxlevel n + 1)]) d sl;
             n \<leftarrow> node sl d;
             sl \<leftarrow> set_node sl d (n\<lparr>sn_valid := 0\<rparr>);
             Some (Some d, b\<lparr>bfs_sl := sl,
               bfs_out := bfs_out b @ [Removed (sn_pid n) (sn_maxlevel n)]\<rparr>)
           })
      })"

text \<open>
  \<^verbatim>\<open>printSkipList\<close> is only called with \<^verbatim>\<open>SCHEDULER_DBG_LINES\<close> set. Its loop reads the node behind
  a link without comparing the link with -1. The result is \<open>Inr\<close> of the printed rows, a row being
  the triples pid, value, index, or \<open>Inl i\<close> when \<open>i\<close> is the first index outside \<^verbatim>\<open>nodeList\<close> at
  which a node is read; it is \<open>None\<close> only for a loop that does not end or a level that does not
  exist.
\<close>

type_synonym print_row = "(int \<times> int \<times> int) list"

partial_function (option) printSkipList_level ::
    "SkipList \<Rightarrow> nat \<Rightarrow> int \<Rightarrow> print_row \<Rightarrow> (int + print_row) option" where
  [code]: "printSkipList_level sl l cur out =
     (case node sl cur of
        None \<Rightarrow> Some (Inl cur)
      | Some n \<Rightarrow>
          if sn_valid n = 1 \<and> sn_value n \<noteq> 0
          then do {
            f \<leftarrow> get_forward sl cur l;
            printSkipList_level sl l f (out @ [(sn_pid n, sn_value n, cur)])
          }
          else Some (Inr out))"

fun printSkipList_levels ::
    "nat list \<Rightarrow> SkipList \<Rightarrow> (int + (nat \<times> print_row) list) option" where
  "printSkipList_levels [] sl = Some (Inr [])"
| "printSkipList_levels (l # ls) sl = do {
     f \<leftarrow> get_forward sl 0 l;
     row \<leftarrow> printSkipList_level sl l f [];
     (case row of
        Inl i \<Rightarrow> Some (Inl i)
      | Inr row \<Rightarrow> do {
          rows \<leftarrow> printSkipList_levels ls sl;
          Some (map_sum id (\<lambda>rows. (l, row) # rows) rows)
        })
   }"

definition printSkipList :: "SkipList \<Rightarrow> (int + (nat \<times> print_row) list) option" where
  "printSkipList sl =
     (if sl_level sl = -1 then Some (Inr [])
      else printSkipList_levels (rev [0..<nat (sl_level sl + 1)]) sl)"

end
