(* ===== verification/SkipListCorrect.thy ===== *)
theory SkipListCorrect
  imports SkipList
begin

text \<open>
  Correctness of the skip list. \<open>sl_rep sl xs\<close> says that the links of \<open>sl\<close> thread the nodes \<open>xs\<close>,
  sorted by value, and on every level \<open>l\<close> exactly those of \<open>xs\<close> whose \<^verbatim>\<open>maxlevel\<close> reaches \<open>l\<close>. Every
  operation is shown to return (no access out of bounds, no endless loop) and to implement an
  operation on the sorted list of (deadline, pid) entries.
\<close>

declare upt_Suc [simp del]

section \<open>Views of the nodes\<close>

definition fw :: "SkipList \<Rightarrow> nat \<Rightarrow> nat \<Rightarrow> int" where
  "fw sl l x = sn_forward (sl_nodeList sl ! x) ! l"

definition bw :: "SkipList \<Rightarrow> nat \<Rightarrow> nat \<Rightarrow> int" where
  "bw sl l x = sn_backward (sl_nodeList sl ! x) ! l"

definition vl :: "SkipList \<Rightarrow> nat \<Rightarrow> int" where
  "vl sl x = sn_value (sl_nodeList sl ! x)"

definition vd :: "SkipList \<Rightarrow> nat \<Rightarrow> int" where
  "vd sl x = sn_valid (sl_nodeList sl ! x)"

definition pd :: "SkipList \<Rightarrow> nat \<Rightarrow> int" where
  "pd sl x = sn_pid (sl_nodeList sl ! x)"

definition ml :: "SkipList \<Rightarrow> nat \<Rightarrow> int" where
  "ml sl x = sn_maxlevel (sl_nodeList sl ! x)"

text \<open>The sizes of the static arrays.\<close>

definition sl_shape :: "SkipList \<Rightarrow> bool" where
  "sl_shape sl \<longleftrightarrow> length (sl_nodeList sl) = NPROC + 1 \<and>
     (\<forall>n\<in>set (sl_nodeList sl). length (sn_forward n) = MAX_SKIPLIST_LEVEL \<and>
        length (sn_backward n) = MAX_SKIPLIST_LEVEL)"

text \<open>Two lists that agree on everything but links.\<close>

definition same_nodes :: "SkipList \<Rightarrow> SkipList \<Rightarrow> bool" where
  "same_nodes sl sl' \<longleftrightarrow> vl sl' = vl sl \<and> vd sl' = vd sl \<and> pd sl' = pd sl \<and> ml sl' = ml sl
     \<and> sl_level sl' = sl_level sl"

lemma same_nodes_refl [simp]: "same_nodes sl sl"
  by (simp add: same_nodes_def)

lemma same_nodes_trans [trans]: "same_nodes a b \<Longrightarrow> same_nodes b c \<Longrightarrow> same_nodes a c"
  by (simp add: same_nodes_def)

lemma sl_shape_nodes:
  assumes "sl_shape sl" and "x < NPROC + 1"
  shows "x < length (sl_nodeList sl)"
    and "length (sn_forward (sl_nodeList sl ! x)) = MAX_SKIPLIST_LEVEL"
    and "length (sn_backward (sl_nodeList sl ! x)) = MAX_SKIPLIST_LEVEL"
  using assms by (auto simp: sl_shape_def)

text \<open>Reads and writes of a well-shaped list, on indices in range.\<close>

lemma node_in:
  "sl_shape sl \<Longrightarrow> x < NPROC + 1 \<Longrightarrow> node sl (int x) = Some (sl_nodeList sl ! x)"
  by (simp add: node_def sl_shape_nodes)

lemma get_forward_in:
  "sl_shape sl \<Longrightarrow> x < NPROC + 1 \<Longrightarrow> l < MAX_SKIPLIST_LEVEL \<Longrightarrow>
    get_forward sl (int x) l = Some (fw sl l x)"
  by (simp add: get_forward_def node_in sl_shape_nodes fw_def)

lemma get_backward_in:
  "sl_shape sl \<Longrightarrow> x < NPROC + 1 \<Longrightarrow> l < MAX_SKIPLIST_LEVEL \<Longrightarrow>
    get_backward sl (int x) l = Some (bw sl l x)"
  by (simp add: get_backward_def node_in sl_shape_nodes bw_def)

definition up_forward :: "SkipList \<Rightarrow> nat \<Rightarrow> nat \<Rightarrow> int \<Rightarrow> SkipList" where
  "up_forward sl x l v = sl\<lparr>sl_nodeList := (sl_nodeList sl)
     [x := (sl_nodeList sl ! x)\<lparr>sn_forward := (sn_forward (sl_nodeList sl ! x))[l := v]\<rparr>]\<rparr>"

definition up_backward :: "SkipList \<Rightarrow> nat \<Rightarrow> nat \<Rightarrow> int \<Rightarrow> SkipList" where
  "up_backward sl x l v = sl\<lparr>sl_nodeList := (sl_nodeList sl)
     [x := (sl_nodeList sl ! x)\<lparr>sn_backward := (sn_backward (sl_nodeList sl ! x))[l := v]\<rparr>]\<rparr>"

lemma set_forward_in:
  "sl_shape sl \<Longrightarrow> x < NPROC + 1 \<Longrightarrow> l < MAX_SKIPLIST_LEVEL \<Longrightarrow>
    set_forward sl (int x) l v = Some (up_forward sl x l v)"
  by (simp add: set_forward_def node_in sl_shape_nodes set_node_def up_forward_def)

lemma set_backward_in:
  "sl_shape sl \<Longrightarrow> x < NPROC + 1 \<Longrightarrow> l < MAX_SKIPLIST_LEVEL \<Longrightarrow>
    set_backward sl (int x) l v = Some (up_backward sl x l v)"
  by (simp add: set_backward_def node_in sl_shape_nodes set_node_def up_backward_def)

lemma sl_shape_update:
  assumes "sl_shape sl" and "length (sn_forward n) = MAX_SKIPLIST_LEVEL"
    and "length (sn_backward n) = MAX_SKIPLIST_LEVEL"
  shows "sl_shape (sl\<lparr>sl_nodeList := (sl_nodeList sl)[x := n]\<rparr>)"
  using assms set_update_subset_insert [of "sl_nodeList sl" x n]
  by (fastforce simp: sl_shape_def)

lemma sl_shape_up_forward [shape_simps]:
  "sl_shape sl \<Longrightarrow> x < NPROC + 1 \<Longrightarrow> sl_shape (up_forward sl x l v)"
  unfolding up_forward_def by (rule sl_shape_update) (simp_all add: sl_shape_nodes)

lemma sl_shape_up_backward [shape_simps]:
  "sl_shape sl \<Longrightarrow> x < NPROC + 1 \<Longrightarrow> sl_shape (up_backward sl x l v)"
  unfolding up_backward_def by (rule sl_shape_update) (simp_all add: sl_shape_nodes)

lemma up_forward_views:
  assumes "sl_shape sl" and "x < NPROC + 1" and "l < MAX_SKIPLIST_LEVEL"
  shows "fw (up_forward sl x l v) = (fw sl)(l := (fw sl l)(x := v))"
    and "bw (up_forward sl x l v) = bw sl"
    and "same_nodes sl (up_forward sl x l v)"
  using sl_shape_nodes [OF assms(1,2)] assms(3)
  by (auto simp: up_forward_def fw_def bw_def vl_def vd_def pd_def ml_def same_nodes_def
      nth_list_update fun_eq_iff)

lemma up_backward_views:
  assumes "sl_shape sl" and "x < NPROC + 1" and "l < MAX_SKIPLIST_LEVEL"
  shows "bw (up_backward sl x l v) = (bw sl)(l := (bw sl l)(x := v))"
    and "fw (up_backward sl x l v) = fw sl"
    and "same_nodes sl (up_backward sl x l v)"
  using sl_shape_nodes [OF assms(1,2)] assms(3)
  by (auto simp: up_backward_def fw_def bw_def vl_def vd_def pd_def ml_def same_nodes_def
      nth_list_update fun_eq_iff)

lemmas link_simps = get_forward_in get_backward_in set_forward_in set_backward_in node_in
  up_forward_views(1,2) up_backward_views(1,2) shape_simps

section \<open>The representation invariant\<close>

definition sl_rep :: "SkipList \<Rightarrow> nat list \<Rightarrow> bool" where
  "sl_rep sl xs \<longleftrightarrow> sl_shape sl \<and> 0 \<le> sl_level sl \<and> sl_level sl < int MAX_SKIPLIST_LEVEL \<and>
     vd sl 0 = 1 \<and> distinct xs \<and>
     set xs = set (filter (\<lambda>x. vd sl x = 1) [1..<NPROC + 1]) \<and>
     (\<forall>x\<in>set [1..<NPROC + 1]. vd sl x = 0 \<or> vd sl x = 1) \<and>
     (\<forall>x\<in>set xs. 0 \<le> ml sl x \<and> ml sl x \<le> sl_level sl) \<and>
     sorted (map (vl sl) xs) \<and>
     (\<forall>l\<in>set [0..<MAX_SKIPLIST_LEVEL].
        linked (fw sl l) (bw sl l) 0 (filter (\<lambda>x. int l \<le> ml sl x) xs))"

lemma sl_repD:
  assumes "sl_rep sl xs"
  shows "sl_shape sl" and "0 \<le> sl_level sl" and "sl_level sl < int MAX_SKIPLIST_LEVEL"
    and "vd sl 0 = 1" and "distinct xs"
    and "\<And>x. x \<in> set xs \<Longrightarrow> 1 \<le> x \<and> x < NPROC + 1 \<and> vd sl x = 1"
    and "\<And>x. x \<in> set xs \<Longrightarrow> 0 \<le> ml sl x \<and> ml sl x \<le> sl_level sl"
    and "sorted (map (vl sl) xs)"
    and "\<And>l. l < MAX_SKIPLIST_LEVEL \<Longrightarrow>
           linked (fw sl l) (bw sl l) 0 (filter (\<lambda>x. int l \<le> ml sl x) xs)"
    and "\<And>x. 1 \<le> x \<Longrightarrow> x < NPROC + 1 \<Longrightarrow> x \<in> set xs \<longleftrightarrow> vd sl x = 1"
  using assms unfolding sl_rep_def by (auto)

text \<open>The (value, pid) entries that a list of nodes holds.\<close>

definition entries_of :: "SkipList \<Rightarrow> nat list \<Rightarrow> (int \<times> int) list" where
  "entries_of sl xs = map (\<lambda>x. (vl sl x, pd sl x)) xs"

section \<open>Walking one level\<close>

lemma slAdvance_linked:
  assumes "sl_shape sl" and "l < MAX_SKIPLIST_LEVEL" and "a < NPROC + 1"
    and "linked (fw sl l) (bw sl l) a ys"
    and "\<And>y. y \<in> set ys \<Longrightarrow> y < NPROC + 1 \<and> vd sl y = 1"
  shows "slAdvance sl v l (int a) = Some (int (last (a # takeWhile (\<lambda>y. vl sl y < v) ys)))"
  using assms(3-5)
proof (induction ys arbitrary: a)
  case Nil
  then show ?case
    using assms(1,2) by (subst slAdvance.simps) (simp add: link_simps)
next
  case (Cons y ys)
  have y: "y < NPROC + 1" "vd sl y = 1" using Cons.prems(3) by auto
  have IH: "slAdvance sl v l (int y) = Some (int (last (y # takeWhile (\<lambda>y. vl sl y < v) ys)))"
    using Cons.prems by (intro Cons.IH) auto
  have read: "get_forward sl (int a) l = Some (int y)" "node sl (int y) = Some (sl_nodeList sl ! y)"
    using assms(1,2) Cons.prems(1,2) y by (simp_all add: link_simps)
  show ?case
    using y IH by (subst slAdvance.simps) (simp add: read vd_def vl_def)
qed

text \<open>A link of a level is null or leads to a node, so that the debug lines may read behind it.\<close>

lemma dbg_read_null: "dbg_read sl (-1) = Some ()"
  by (simp add: dbg_read_def)

lemma dbg_read_in: "sl_shape sl \<Longrightarrow> x < NPROC + 1 \<Longrightarrow> dbg_read sl (int x) = Some ()"
  by (simp add: dbg_read_def node_in)

lemmas dbg_simps = dbg_read_null dbg_read_in

lemma dbg_read_next:
  assumes "sl_shape sl" and "linked (fw sl l) (bw sl l) a ys"
    and "\<And>y. y \<in> set ys \<Longrightarrow> y < NPROC + 1 \<and> vd sl y = 1"
  shows "dbg_read sl (fw sl l a) = Some ()"
  using assms by (cases ys) (auto simp: dbg_simps)

lemma slSearch_right_linked:
  assumes "sl_shape sl" and "l < MAX_SKIPLIST_LEVEL" and "a < NPROC + 1"
    and "linked (fw sl l) (bw sl l) a ys"
    and "\<And>y. y \<in> set ys \<Longrightarrow> y < NPROC + 1 \<and> vd sl y = 1"
  shows "slSearch_right sl v l (int a) = Some (int (last (a # takeWhile (\<lambda>y. vl sl y < v) ys)))"
  using assms(3-5)
proof (induction ys arbitrary: a)
  case Nil
  then show ?case
    using assms(1,2) by (subst slSearch_right.simps) (simp add: link_simps)
next
  case (Cons y ys)
  have y: "y < NPROC + 1" "vd sl y = 1" using Cons.prems(3) by auto
  have IH: "slSearch_right sl v l (int y) = Some (int (last (y # takeWhile (\<lambda>y. vl sl y < v) ys)))"
    using Cons.prems by (intro Cons.IH) auto
  have read: "get_forward sl (int a) l = Some (int y)" "node sl (int y) = Some (sl_nodeList sl ! y)"
    "get_forward sl (int y) l = Some (fw sl l y)"
    using assms(1,2) Cons.prems(1,2) y by (simp_all add: link_simps)
  have dbg: "dbg_read sl (fw sl l y) = Some ()"
    using Cons.prems by (intro dbg_read_next [OF assms(1)]) auto
  show ?case
    using y IH by (subst slSearch_right.simps) (simp add: read dbg vd_def vl_def)
qed

lemma slSearch_bottom_linked:
  assumes "sl_shape sl" and "a < NPROC + 1"
    and "linked (fw sl 0) (bw sl 0) a ys"
    and "\<And>y. y \<in> set ys \<Longrightarrow> y < NPROC + 1 \<and> vd sl y = 1"
  shows "slSearch_bottom sl v pid (int a) =
     Some (map_option int (List.find (\<lambda>y. pd sl y = pid) (takeWhile (\<lambda>y. vl sl y = v) ys)))"
  using assms(2-4)
proof (induction ys arbitrary: a)
  case Nil
  then show ?case
    using assms(1) by (subst slSearch_bottom.simps) (simp add: link_simps)
next
  case (Cons y ys)
  have y: "y < NPROC + 1" "vd sl y = 1" using Cons.prems(3) by auto
  have IH: "slSearch_bottom sl v pid (int y) = Some (map_option int
      (List.find (\<lambda>y. pd sl y = pid) (takeWhile (\<lambda>y. vl sl y = v) ys)))"
    using Cons.prems by (intro Cons.IH) auto
  have read: "get_forward sl (int a) 0 = Some (int y)" "node sl (int y) = Some (sl_nodeList sl ! y)"
    "get_forward sl (int y) 0 = Some (fw sl 0 y)"
    using assms(1) Cons.prems(1,2) y by (simp_all add: link_simps)
  have dbg: "dbg_read sl (fw sl 0 y) = Some ()"
    using Cons.prems by (intro dbg_read_next [OF assms(1)]) auto
  show ?case
    using y IH by (subst slSearch_bottom.simps) (simp add: read dbg vd_def vl_def pd_def)
qed

section \<open>Descending the levels\<close>

text \<open>\<open>pred_at sl xs v l\<close>: the rightmost node of level \<open>l\<close> (or the sentinel) with a value below \<open>v\<close>.\<close>

definition below :: "SkipList \<Rightarrow> int \<Rightarrow> nat list \<Rightarrow> nat list" where
  "below sl v xs = takeWhile (\<lambda>x. vl sl x < v) xs"

definition on_level :: "SkipList \<Rightarrow> nat \<Rightarrow> nat list \<Rightarrow> nat list" where
  "on_level sl l xs = filter (\<lambda>x. int l \<le> ml sl x) xs"

definition pred_at :: "SkipList \<Rightarrow> nat list \<Rightarrow> int \<Rightarrow> nat \<Rightarrow> nat" where
  "pred_at sl xs v l = last (0 # on_level sl l (below sl v xs))"

lemma on_level_below:
  assumes "sorted (map (vl sl) xs)"
  shows "on_level sl l (below sl v xs) = takeWhile (\<lambda>x. vl sl x < v) (on_level sl l xs)"
proof -
  have "sorted (map (vl sl) (filter (\<lambda>x. int l \<le> ml sl x) xs))"
    using assms by (rule sorted_filter)
  then show ?thesis
    using assms unfolding on_level_def below_def
    by (simp add: sorted_takeWhile_less conj_commute)
qed

lemma takeWhile_from:
  assumes "a # takeWhile P ys = us @ b # ws"
  shows "takeWhile P (ws @ dropWhile P ys) = ws" and "a # ys = us @ b # ws @ dropWhile P ys"
proof -
  have "set ws \<subseteq> set (takeWhile P ys)"
    using assms by (cases us) auto
  then have all: "\<And>w. w \<in> set ws \<Longrightarrow> P w"
    by (blast dest: set_takeWhileD)
  have "takeWhile P (dropWhile P ys) = []"
    by (induction ys) auto
  with all show "takeWhile P (ws @ dropWhile P ys) = ws"
    by simp
  have "a # ys = (a # takeWhile P ys) @ dropWhile P ys" by simp
  then show "a # ys = us @ b # ws @ dropWhile P ys" using assms by simp
qed

lemma pred_at_mem:
  assumes "l \<le> k"
  shows "pred_at sl xs v k \<in> set (0 # on_level sl l (below sl v xs))"
proof -
  have "pred_at sl xs v k \<in> set (0 # on_level sl k (below sl v xs))"
    unfolding pred_at_def by (rule last_in_set) simp
  moreover have "set (on_level sl k ys) \<subseteq> set (on_level sl l ys)" for ys
    using assms by (auto simp: on_level_def)
  ultimately show ?thesis by auto
qed

lemma below_subset: "set (below sl v xs) \<subseteq> set xs"
  unfolding below_def by (blast dest: set_takeWhileD)

lemma pred_at_in:
  assumes "sl_rep sl xs"
  shows "pred_at sl xs v l < NPROC + 1"
  using pred_at_mem [of l l sl xs v] below_subset [of sl v xs] sl_repD(6) [OF assms]
  by (auto simp: on_level_def)

text \<open>Any loop that moves right on a level while the value is below \<open>v\<close> ends at \<open>pred_at\<close>.\<close>

lemma walk_level:
  assumes rep: "sl_rep sl xs" and l: "l < MAX_SKIPLIST_LEVEL"
    and a: "a \<in> set (0 # on_level sl l (below sl v xs))"
    and walk: "\<And>ys. a < NPROC + 1 \<Longrightarrow> linked (fw sl l) (bw sl l) a ys \<Longrightarrow>
      (\<And>y. y \<in> set ys \<Longrightarrow> y < NPROC + 1 \<and> vd sl y = 1) \<Longrightarrow>
      r = Some (int (last (a # takeWhile (\<lambda>y. vl sl y < v) ys)))"
  shows "r = Some (int (pred_at sl xs v l))"
proof -
  note D = sl_repD [OF rep]
  let ?P = "\<lambda>x. vl sl x < v" and ?ys = "on_level sl l xs"
  have tw: "on_level sl l (below sl v xs) = takeWhile ?P ?ys"
    using D(8) by (rule on_level_below)
  from a obtain us ws where us: "0 # takeWhile ?P ?ys = us @ a # ws"
    unfolding tw by (meson split_list)
  note split = takeWhile_from [OF us]
  have bound: "y < NPROC + 1 \<and> vd sl y = 1" if "y \<in> set ?ys" for y
    using D(6) that by (auto simp: on_level_def)
  have mem: "a \<in> set (0 # ?ys)" "set (ws @ dropWhile ?P ?ys) \<subseteq> set (0 # ?ys)"
    using split(2) by auto
  have "linked (fw sl l) (bw sl l) a (ws @ dropWhile ?P ?ys)"
    by (rule linked_suffix' [OF D(9) [OF l]]) (use split(2) in \<open>simp add: on_level_def\<close>)
  moreover have "y < NPROC + 1 \<and> vd sl y = 1" if "y \<in> set (ws @ dropWhile ?P ?ys)" for y
    using that mem(2) bound D(4) by auto
  moreover have "a < NPROC + 1" using mem(1) bound by auto
  ultimately have "r = Some (int (last (a # takeWhile ?P (ws @ dropWhile ?P ?ys))))"
    by (intro walk) auto
  also have "last (a # takeWhile ?P (ws @ dropWhile ?P ?ys)) = last (us @ a # ws)"
    using split(1) by simp
  also have "\<dots> = pred_at sl xs v l"
    using us tw by (simp add: pred_at_def)
  finally show ?thesis .
qed

lemma slAdvance_level:
  assumes "sl_rep sl xs" and "l < MAX_SKIPLIST_LEVEL"
    and "a \<in> set (0 # on_level sl l (below sl v xs))"
  shows "slAdvance sl v l (int a) = Some (int (pred_at sl xs v l))"
  by (rule walk_level [OF assms]) (rule slAdvance_linked [OF sl_repD(1) [OF assms(1)] assms(2)])

lemma slSearch_right_level:
  assumes "sl_rep sl xs" and "l < MAX_SKIPLIST_LEVEL"
    and "a \<in> set (0 # on_level sl l (below sl v xs))"
  shows "slSearch_right sl v l (int a) = Some (int (pred_at sl xs v l))"
  by (rule walk_level [OF assms]) (rule slSearch_right_linked [OF sl_repD(1) [OF assms(1)] assms(2)])

lemma slSearch_down_level:
  assumes rep: "sl_rep sl xs" and "l < MAX_SKIPLIST_LEVEL"
    and "a \<in> set (0 # on_level sl l (below sl v xs))"
  shows "slSearch_down sl v l (int a) = Some (int (pred_at sl xs v 0))"
  using assms(2,3)
proof (induction l arbitrary: a)
  case 0
  then show ?case
    by (subst slSearch_down.simps) (simp add: slSearch_right_level [OF rep])
next
  case (Suc l)
  then have "slSearch_down sl v l (int (pred_at sl xs v (Suc l))) = Some (int (pred_at sl xs v 0))"
    by (intro Suc.IH pred_at_mem) auto
  with Suc.prems show ?case
    by (subst slSearch_down.simps) (simp add: slSearch_right_level [OF rep])
qed

lemma slInsert_path_level:
  assumes rep: "sl_rep sl xs" and "l < MAX_SKIPLIST_LEVEL" and "length backs = MAX_SKIPLIST_LEVEL"
    and "a \<in> set (0 # on_level sl l (below sl v xs))"
  shows "\<exists>backs'. slInsert_path sl v l (int a) backs = Some backs' \<and>
    length backs' = MAX_SKIPLIST_LEVEL \<and>
    (\<forall>i<MAX_SKIPLIST_LEVEL. backs' ! i =
       (if i \<le> l then Some (int (pred_at sl xs v i)) else backs ! i))"
  using assms(2-4)
proof (induction l arbitrary: a backs)
  case 0
  then show ?case
    by (subst slInsert_path.simps)
       (auto simp: slAdvance_level [OF rep] aset_def nth_list_update)
next
  case (Suc l)
  let ?backs = "backs[Suc l := Some (int (pred_at sl xs v (Suc l)))]"
  obtain backs' where backs':
    "slInsert_path sl v l (int (pred_at sl xs v (Suc l))) ?backs = Some backs'"
    "length backs' = MAX_SKIPLIST_LEVEL"
    "\<forall>i<MAX_SKIPLIST_LEVEL. backs' ! i =
       (if i \<le> l then Some (int (pred_at sl xs v i)) else ?backs ! i)"
    using Suc.IH [of ?backs "pred_at sl xs v (Suc l)"] Suc.prems pred_at_mem by auto
  have "slInsert_path sl v (Suc l) (int a) backs = Some backs'"
    using Suc.prems backs'(1) aset_int [of "Suc l" backs]
    by (subst slInsert_path.simps) (simp add: slAdvance_level [OF rep])
  with backs'(2,3) Suc.prems show ?case
    by (auto simp: nth_list_update le_Suc_eq)
qed

lemma on_level_0:
  assumes "sl_rep sl xs" and "set ys \<subseteq> set xs"
  shows "on_level sl 0 ys = ys"
  using sl_repD(7) [OF assms(1)] assms(2) by (auto simp: on_level_def filter_id_conv)

section \<open>Search\<close>

lemma find_sorted:
  fixes f :: "'a \<Rightarrow> 'b::linorder"
  assumes "sorted (map f xs)"
  shows "List.find Q (takeWhile (\<lambda>x. f x = v) (dropWhile (\<lambda>x. f x < v) xs))
    = List.find (\<lambda>x. f x = v \<and> Q x) xs"
  using assms
proof (induction xs)
  case Nil
  then show ?case by simp
next
  case (Cons x xs)
  consider "f x < v" | "f x = v" | "v < f x" by fastforce
  then show ?case
  proof cases
    case 1
    with Cons show ?thesis by auto
  next
    case 2
    have "takeWhile (\<lambda>x. f x = v) xs = takeWhile (\<lambda>x. f x = v) (dropWhile (\<lambda>x. f x < v) xs)"
      using Cons.prems 2 by (cases xs) auto
    with 2 Cons show ?thesis by simp
  next
    case 3
    have "List.find (\<lambda>x. f x = v \<and> Q x) xs = None"
      using Cons.prems 3 by (auto simp: find_None_iff)
    with 3 show ?thesis by auto
  qed
qed

lemma slSearch_rep:
  assumes rep: "sl_rep sl xs"
  shows "slSearch v pid sl
    = Some (map_option int (List.find (\<lambda>x. vl sl x = v \<and> pd sl x = pid) xs))"
proof -
  note D = sl_repD [OF rep]
  have lev: "sl_level sl \<noteq> -1" "nat (sl_level sl) < MAX_SKIPLIST_LEVEL"
    using D(2,3) by auto
  have down: "slSearch_down sl v (nat (sl_level sl)) 0 = Some (int (pred_at sl xs v 0))"
    using slSearch_down_level [OF rep lev(2), of 0 v] by simp
  let ?a = "pred_at sl xs v 0" and ?rest = "dropWhile (\<lambda>x. vl sl x < v) xs"
  have whole: "0 # xs = (0 # below sl v xs) @ ?rest"
    by (simp add: below_def)
  have a: "?a = last (0 # below sl v xs)"
    using on_level_0 [OF rep below_subset] by (simp add: pred_at_def)
  then have "0 # below sl v xs = butlast (0 # below sl v xs) @ [?a]"
    by (metis append_butlast_last_id list.distinct(1))
  with whole have "0 # xs = butlast (0 # below sl v xs) @ ?a # ?rest"
    by (metis append.assoc append_Cons append_Nil)
  then have "linked (fw sl 0) (bw sl 0) ?a ?rest"
    using linked_suffix' [OF D(9) [of 0]] on_level_0 [OF rep, of xs] by (simp add: on_level_def)
  then have "slSearch_bottom sl v pid (int ?a) = Some (map_option int
      (List.find (\<lambda>y. pd sl y = pid) (takeWhile (\<lambda>y. vl sl y = v) ?rest)))"
    using D(1,6) pred_at_in [OF rep]
    by (intro slSearch_bottom_linked) (auto dest: set_dropWhileD)
  with lev down show ?thesis
    by (simp add: slSearch_def find_sorted [OF D(8)])
qed

section \<open>Insertion\<close>

lemma slUpLevel_loop_bound:
  "lev < MAX_SKIPLIST_LEVEL \<Longrightarrow> fst (slUpLevel_loop p lev seed) < MAX_SKIPLIST_LEVEL"
proof (induction p lev seed rule: slUpLevel_loop.induct)
  case (1 p lev seed)
  show ?case
    using 1 by (subst slUpLevel_loop.simps) (auto split: prod.splits)
qed

lemma slUpLevel_bound: "fst (slUpLevel p seed) < MAX_SKIPLIST_LEVEL"
  unfolding slUpLevel_def by (rule slUpLevel_loop_bound) simp

lemma slFindFreeNode_loop_find:
  assumes "sl_shape sl" and "i < NPROC + 1"
  shows "slFindFreeNode_loop sl i =
    Some (case List.find (\<lambda>x. vd sl x \<noteq> 1) [i..<NPROC + 1] of Some n \<Rightarrow> int n | None \<Rightarrow> -1)"
  using assms
proof (induction sl i rule: slFindFreeNode_loop.induct)
  case (1 sl i)
  have read: "node sl (int i) = Some (sl_nodeList sl ! i)"
    using 1 by (simp add: node_in)
  have upt: "[i..<NPROC + 1] = i # [i + 1..<NPROC + 1]"
    using "1.prems" by (simp add: upt_conv_Cons)
  show ?case
  proof (cases "vd sl i = 1 \<and> i < NPROC")
    case True
    then have IH: "slFindFreeNode_loop sl (i + 1) = Some (case List.find (\<lambda>x. vd sl x \<noteq> 1)
        [i + 1..<NPROC + 1] of Some n \<Rightarrow> int n | None \<Rightarrow> -1)"
      by (intro "1.IH" [OF "1.prems"(2) read]) (use True "1.prems" in \<open>auto simp: vd_def\<close>)
    show ?thesis
      using True "1.prems" read IH unfolding upt
      by (subst slFindFreeNode_loop.simps) (simp add: vd_def)
  next
    case False
    then show ?thesis
      using "1.prems" read unfolding upt
      by (subst slFindFreeNode_loop.simps) (auto simp: vd_def)
  qed
qed

lemma sl_rep_nodes: "sl_rep sl xs \<Longrightarrow> set xs \<subseteq> {1..<NPROC + 1}"
  using sl_repD(6) [of sl xs] by fastforce

lemma slFindFreeNode_free:
  assumes rep: "sl_rep sl xs" and len: "length xs < NPROC"
  obtains n where "slFindFreeNode sl = Some (int n)" and "1 \<le> n" and "n < NPROC + 1"
    and "n \<notin> set xs"
proof -
  note D = sl_repD [OF rep]
  have "card (set xs) < card {1..<NPROC + 1}"
    using len D(5) by (simp add: distinct_card)
  then have "\<not> {1..<NPROC + 1} \<subseteq> set xs"
    using card_mono [of "set xs" "{1..<NPROC + 1}"] by auto
  then have "List.find (\<lambda>x. vd sl x \<noteq> 1) [1..<NPROC + 1] \<noteq> None"
    using D(10) unfolding find_None_iff by (fastforce)
  then obtain n where n: "List.find (\<lambda>x. vd sl x \<noteq> 1) [1..<NPROC + 1] = Some n" by auto
  then have "n \<in> set [1..<NPROC + 1]" "vd sl n \<noteq> 1"
    by (auto simp: find_Some_iff intro: nth_mem)
  then show ?thesis
    using that [of n] n slFindFreeNode_loop_find [OF D(1), of 1] D(6) [of n]
    by (auto simp: slFindFreeNode_def)
qed

lemma slFindFreeNode_full:
  assumes rep: "sl_rep sl xs" and len: "length xs = NPROC"
  shows "slFindFreeNode sl = Some (-1)"
proof -
  note D = sl_repD [OF rep]
  have "set xs = {1..<NPROC + 1}"
    using sl_rep_nodes [OF rep] D(5) len by (intro card_subset_eq) (auto simp: distinct_card)
  then have "List.find (\<lambda>x. vd sl x \<noteq> 1) [1..<NPROC + 1] = None"
    using D(6) by (auto simp: find_None_iff)
  then show ?thesis
    using slFindFreeNode_loop_find [OF D(1), of 1] by (simp add: slFindFreeNode_def)
qed

lemma sl_rep_length:
  assumes rep: "sl_rep sl xs"
  shows "length xs \<le> NPROC"
  using card_mono [OF _ sl_rep_nodes [OF rep]] sl_repD(5) [OF rep] by (simp add: distinct_card)

text \<open>One round of the link loop splices the new node in on its level and touches no other level.\<close>

lemma same_nodes_up_forward:
  "same_nodes sl0 sl \<Longrightarrow> sl_shape sl \<Longrightarrow> x < NPROC + 1 \<Longrightarrow> l < MAX_SKIPLIST_LEVEL \<Longrightarrow>
    same_nodes sl0 (up_forward sl x l v)"
  by (blast intro: same_nodes_trans up_forward_views(3))

lemma same_nodes_up_backward:
  "same_nodes sl0 sl \<Longrightarrow> sl_shape sl \<Longrightarrow> x < NPROC + 1 \<Longrightarrow> l < MAX_SKIPLIST_LEVEL \<Longrightarrow>
    same_nodes sl0 (up_backward sl x l v)"
  by (blast intro: same_nodes_trans up_backward_views(3))

lemmas up_same_nodes = same_nodes_up_forward same_nodes_up_backward

lemma slInsert_link_level:
  assumes sh: "sl_shape sl" and l: "l < MAX_SKIPLIST_LEVEL" and n: "n < NPROC + 1"
    and slot: "aref backs (int l) = Some (Some (int (last (0 # us))))"
    and lk: "linked (fw sl l) (bw sl l) 0 (us @ ws)"
    and dist: "distinct (0 # us @ ws)" and fresh: "n \<notin> set (0 # us @ ws)"
    and bound: "\<And>x. x \<in> set (us @ ws) \<Longrightarrow> x < NPROC + 1 \<and> vd sl x = 1"
  shows "\<exists>sl'. slInsert_link backs (int n) l sl = Some sl' \<and> sl_shape sl' \<and> same_nodes sl sl' \<and>
    linked (fw sl' l) (bw sl' l) 0 (us @ n # ws) \<and>
    (\<forall>k. k \<noteq> l \<longrightarrow> fw sl' k = fw sl k \<and> bw sl' k = bw sl k)"
proof -
  let ?p = "last (0 # us)"
  have "?p \<in> set (0 # us)" by (rule last_in_set) simp
  then have p: "?p < NPROC + 1" "?p \<noteq> n" "?p \<notin> set ws"
    using bound fresh dist by (auto simp del: last.simps)
  have f: "fw sl l ?p = (case ws of [] \<Rightarrow> -1 | w # _ \<Rightarrow> int w)"
    using lk by (rule linked_next)
  have ins: "linked f' g' 0 (us @ n # ws)"
    if "f' = (fw sl l)(n := (case ws of [] \<Rightarrow> -1 | w # _ \<Rightarrow> int w), ?p := int n)"
      and "g' = (case ws of [] \<Rightarrow> bw sl l | w # _ \<Rightarrow> (bw sl l)(w := int n))(n := int ?p)" for f' g'
    using that p fresh dist by (intro linked_insert [OF lk dist fresh]) (auto split: list.splits)
  show ?thesis
  proof (cases ws)
    case Nil
    let ?sl' = "up_forward (up_backward (up_forward sl n l (-1)) n l (int ?p)) ?p l (int n)"
    have "slInsert_link backs (int n) l sl = Some ?sl'"
      using sh l n p f slot Nil by (simp add: slInsert_link_def link_simps dbg_simps)
    moreover have "linked (fw ?sl' l) (bw ?sl' l) 0 (us @ n # ws)"
      using sh l n p Nil by (intro ins) (simp_all add: link_simps)
    ultimately show ?thesis
      using sh l n p by (intro exI [of _ ?sl']) (simp add: link_simps up_same_nodes)
  next
    case (Cons w ws')
    have w: "w < NPROC + 1" "vd sl w = 1" using bound Cons by auto
    let ?sl' = "up_forward (up_backward (up_backward (up_forward sl n l (int w)) w l (int n))
                  n l (int ?p)) ?p l (int n)"
    have "slInsert_link backs (int n) l sl = Some ?sl'"
      using sh l n p f slot Cons w
      by (simp add: slInsert_link_def link_simps dbg_simps vd_def)
    moreover have "linked (fw ?sl' l) (bw ?sl' l) 0 (us @ n # ws)"
      using sh l n p w Cons by (intro ins) (simp_all add: link_simps)
    ultimately show ?thesis
      using sh l n p w by (intro exI [of _ ?sl']) (simp add: link_simps up_same_nodes)
  qed
qed

lemma slInsert_links_levels:
  assumes "sl_shape sl" and n: "n < NPROC + 1" and "distinct ls"
    and "\<And>l. l \<in> set ls \<Longrightarrow> l < MAX_SKIPLIST_LEVEL \<and>
      aref backs (int l) = Some (Some (int (last (0 # us l)))) \<and>
      linked (fw sl l) (bw sl l) 0 (us l @ ws l) \<and>
      distinct (0 # us l @ ws l) \<and> n \<notin> set (0 # us l @ ws l) \<and>
      (\<forall>x\<in>set (us l @ ws l). x < NPROC + 1 \<and> vd sl x = 1)"
  shows "\<exists>sl'. slInsert_links ls backs (int n) sl = Some sl' \<and> sl_shape sl' \<and> same_nodes sl sl' \<and>
    (\<forall>l\<in>set ls. linked (fw sl' l) (bw sl' l) 0 (us l @ n # ws l)) \<and>
    (\<forall>k. k \<notin> set ls \<longrightarrow> fw sl' k = fw sl k \<and> bw sl' k = bw sl k)"
  using assms(1,3,4)
proof (induction ls arbitrary: sl)
  case Nil
  then show ?case by simp
next
  case (Cons l ls)
  obtain sl1 where sl1: "slInsert_link backs (int n) l sl = Some sl1" "sl_shape sl1"
      "same_nodes sl sl1" "linked (fw sl1 l) (bw sl1 l) 0 (us l @ n # ws l)"
      "\<forall>k. k \<noteq> l \<longrightarrow> fw sl1 k = fw sl k \<and> bw sl1 k = bw sl k"
    using slInsert_link_level [of sl l n backs "us l" "ws l"] Cons.prems n by auto
  have vd: "vd sl1 = vd sl" using sl1(3) by (simp add: same_nodes_def)
  have "\<exists>sl'. slInsert_links ls backs (int n) sl1 = Some sl' \<and> sl_shape sl' \<and> same_nodes sl1 sl' \<and>
    (\<forall>l\<in>set ls. linked (fw sl' l) (bw sl' l) 0 (us l @ n # ws l)) \<and>
    (\<forall>k. k \<notin> set ls \<longrightarrow> fw sl' k = fw sl1 k \<and> bw sl' k = bw sl1 k)"
  proof (rule Cons.IH [OF sl1(2)])
    show "distinct ls" using Cons.prems(2) by simp
    fix k assume k: "k \<in> set ls"
    with Cons.prems(2) sl1(5) have "fw sl1 k = fw sl k" "bw sl1 k = bw sl k" by auto
    then show "k < MAX_SKIPLIST_LEVEL \<and>
      aref backs (int k) = Some (Some (int (last (0 # us k)))) \<and>
      linked (fw sl1 k) (bw sl1 k) 0 (us k @ ws k) \<and>
      distinct (0 # us k @ ws k) \<and> n \<notin> set (0 # us k @ ws k) \<and>
      (\<forall>x\<in>set (us k @ ws k). x < NPROC + 1 \<and> vd sl1 x = 1)"
      using Cons.prems(3) [of k] k vd by simp
  qed
  then obtain sl' where "slInsert_links ls backs (int n) sl1 = Some sl'" "sl_shape sl'"
      "same_nodes sl1 sl'" "\<forall>l\<in>set ls. linked (fw sl' l) (bw sl' l) 0 (us l @ n # ws l)"
      "\<forall>k. k \<notin> set ls \<longrightarrow> fw sl' k = fw sl1 k \<and> bw sl' k = bw sl1 k"
    by blast
  then show ?case
    using sl1 Cons.prems(2) same_nodes_trans [of sl sl1 sl'] by (intro exI [of _ sl']) auto
qed

lemma slInsert_raise_spec:
  assumes "length backs = MAX_SKIPLIST_LEVEL" and "\<forall>l\<in>set ls. l < MAX_SKIPLIST_LEVEL"
  shows "\<exists>backs'. slInsert_raise ls backs = Some backs' \<and> length backs' = MAX_SKIPLIST_LEVEL \<and>
    (\<forall>i<MAX_SKIPLIST_LEVEL. backs' ! i = (if i \<in> set ls then Some 0 else backs ! i))"
  using assms
proof (induction ls arbitrary: backs)
  case Nil
  then show ?case by simp
next
  case (Cons l ls)
  have "length (backs[l := Some 0]) = MAX_SKIPLIST_LEVEL" "\<forall>l\<in>set ls. l < MAX_SKIPLIST_LEVEL"
    using Cons.prems by auto
  from Cons.IH [OF this] obtain backs' where "slInsert_raise ls (backs[l := Some 0]) = Some backs'"
      "length backs' = MAX_SKIPLIST_LEVEL"
      "\<forall>i<MAX_SKIPLIST_LEVEL. backs' ! i = (if i \<in> set ls then Some 0 else backs[l := Some 0] ! i)"
    by blast
  with Cons.prems show ?case
    by (intro exI [of _ backs']) (auto simp: nth_list_update)
qed

text \<open>Raising the level of the whole list changes no link.\<close>

lemma level_views [simp]:
  "fw (sl\<lparr>sl_level := k\<rparr>) = fw sl" "bw (sl\<lparr>sl_level := k\<rparr>) = bw sl"
  "vl (sl\<lparr>sl_level := k\<rparr>) = vl sl" "vd (sl\<lparr>sl_level := k\<rparr>) = vd sl"
  "pd (sl\<lparr>sl_level := k\<rparr>) = pd sl" "ml (sl\<lparr>sl_level := k\<rparr>) = ml sl"
  "sl_shape (sl\<lparr>sl_level := k\<rparr>) = sl_shape sl"
  by (auto simp: fun_eq_iff fw_def bw_def vl_def vd_def pd_def ml_def sl_shape_def)

lemma sl_rep_raise:
  "sl_rep sl xs \<Longrightarrow> sl_level sl \<le> k \<Longrightarrow> k < int MAX_SKIPLIST_LEVEL \<Longrightarrow>
    sl_rep (sl\<lparr>sl_level := k\<rparr>) xs"
  unfolding sl_rep_def by fastforce

lemma on_level_above:
  assumes "sl_rep sl xs" and "sl_level sl < int l" and "set ys \<subseteq> set xs"
  shows "on_level sl l ys = []"
  using sl_repD(7) [OF assms(1)] assms(2,3) by (fastforce simp: on_level_def filter_empty_conv)

lemma pred_at_above:
  "sl_rep sl xs \<Longrightarrow> sl_level sl < int l \<Longrightarrow> pred_at sl xs v l = 0"
  by (simp add: pred_at_def on_level_above [OF _ _ below_subset])

text \<open>Filling in the fields of a free node.\<close>

lemma fill_views:
  assumes "sl_shape sl" and "n < NPROC + 1"
    and "sl' = sl\<lparr>sl_nodeList := (sl_nodeList sl)[n := (sl_nodeList sl ! n)
            \<lparr>sn_value := v, sn_pid := pid, sn_valid := u, sn_maxlevel := k\<rparr>]\<rparr>"
  shows "sl_shape sl'" "fw sl' = fw sl" "bw sl' = bw sl" "vl sl' = (vl sl)(n := v)"
    "vd sl' = (vd sl)(n := u)" "pd sl' = (pd sl)(n := pid)" "ml sl' = (ml sl)(n := k)"
    "sl_level sl' = sl_level sl"
proof -
  show "sl_shape sl'"
    unfolding assms(3)
    by (rule sl_shape_update [OF assms(1)]) (use sl_shape_nodes [OF assms(1,2)] in simp_all)
qed (use sl_shape_nodes [OF assms(1,2)] assms(3) in
    \<open>auto simp: fun_eq_iff fw_def bw_def vl_def vd_def pd_def ml_def nth_list_update\<close>)

text \<open>Steps 1 and 2 of \<^verbatim>\<open>slInsert\<close> collect the predecessors on all levels up to \<open>k\<close>.\<close>

lemma slInsert_preds:
  assumes rep: "sl_rep sl xs" and k: "k < MAX_SKIPLIST_LEVEL"
  obtains backs backs' where
    "slInsert_path sl v (nat (sl_level sl)) 0 (replicate 4 None) = Some backs"
    "int k > sl_level sl \<Longrightarrow> slInsert_raise [nat (sl_level sl + 1)..<k + 1] backs = Some backs'"
    "\<not> int k > sl_level sl \<Longrightarrow> backs' = backs"
    "\<And>l. l \<le> k \<Longrightarrow> aref backs' (int l) = Some (Some (int (pred_at sl xs v l)))"
proof -
  note D = sl_repD [OF rep]
  have lev: "nat (sl_level sl) < MAX_SKIPLIST_LEVEL"
    and len4: "length (replicate 4 (None :: int option)) = MAX_SKIPLIST_LEVEL"
    using D(2,3) by (auto simp: param_defs)
  obtain backs where path: "slInsert_path sl v (nat (sl_level sl)) 0 (replicate 4 None) = Some backs"
      and len: "length backs = MAX_SKIPLIST_LEVEL"
      and slots: "\<forall>i<MAX_SKIPLIST_LEVEL. int i \<le> sl_level sl \<longrightarrow>
                    backs ! i = Some (int (pred_at sl xs v i))"
    using slInsert_path_level [OF rep lev len4, of 0 v] D(2) by (auto simp: le_nat_iff)
  show ?thesis
  proof (cases "int k > sl_level sl")
    case True
    let ?ls = "[nat (sl_level sl + 1)..<k + 1]"
    obtain backs' where "slInsert_raise ?ls backs = Some backs'"
        "length backs' = MAX_SKIPLIST_LEVEL"
        "\<forall>i<MAX_SKIPLIST_LEVEL. backs' ! i = (if i \<in> set ?ls then Some 0 else backs ! i)"
      using slInsert_raise_spec [OF len, of ?ls] k by auto
    moreover from this have "aref backs' (int l) = Some (Some (int (pred_at sl xs v l)))"
      if "l \<le> k" for l
      using that k slots pred_at_above [OF rep, of l v] by auto
    ultimately show ?thesis using that [OF path] True by simp
  next
    case False
    then show ?thesis using that [OF path, of backs] slots len k by simp
  qed
qed

text \<open>Step 5 with the predecessors at hand.\<close>

lemma slInsert_links_rep:
  assumes rep: "sl_rep sl xs" and k: "k < MAX_SKIPLIST_LEVEL"
    and n: "1 \<le> n" "n < NPROC + 1" "n \<notin> set xs"
    and slots: "\<And>l. l \<le> k \<Longrightarrow> aref backs (int l) = Some (Some (int (pred_at sl xs v l)))"
    and sl2: "sl_shape sl2" "fw sl2 = fw sl" "bw sl2 = bw sl" "vd sl2 = (vd sl)(n := 1)"
  shows "\<exists>sl'. slInsert_links [0..<k + 1] backs (int n) sl2 = Some sl' \<and> sl_shape sl' \<and>
    same_nodes sl2 sl' \<and>
    (\<forall>l\<in>set [0..<k + 1]. linked (fw sl' l) (bw sl' l) 0
       (on_level sl l (below sl v xs) @ n # on_level sl l (dropWhile (\<lambda>x. vl sl x < v) xs))) \<and>
    (\<forall>l. l \<notin> set [0..<k + 1] \<longrightarrow> fw sl' l = fw sl2 l \<and> bw sl' l = bw sl2 l)"
proof (rule slInsert_links_levels [OF sl2(1) n(2)])
  note D = sl_repD [OF rep]
  let ?pre = "below sl v xs" and ?post = "dropWhile (\<lambda>x. vl sl x < v) xs"
  have part: "on_level sl l ?pre @ on_level sl l ?post = on_level sl l xs" for l
    unfolding on_level_def below_def filter_append [symmetric] by simp
  fix l assume "l \<in> set [0..<k + 1]"
  then have l: "l \<le> k" "l < MAX_SKIPLIST_LEVEL" using k by auto
  have "distinct (0 # on_level sl l xs)" "n \<notin> set (0 # on_level sl l xs)"
    using D(5,6) n by (auto simp: on_level_def)
  moreover have "\<forall>x\<in>set (on_level sl l xs). x < NPROC + 1 \<and> vd sl2 x = 1"
    using D(6) by (auto simp: sl2 on_level_def)
  moreover have "linked (fw sl2 l) (bw sl2 l) 0 (on_level sl l xs)"
    using D(9) [OF l(2)] by (simp add: sl2 on_level_def)
  ultimately show "l < MAX_SKIPLIST_LEVEL \<and>
    aref backs (int l) = Some (Some (int (last (0 # on_level sl l ?pre)))) \<and>
    linked (fw sl2 l) (bw sl2 l) 0 (on_level sl l ?pre @ on_level sl l ?post) \<and>
    distinct (0 # on_level sl l ?pre @ on_level sl l ?post) \<and>
    n \<notin> set (0 # on_level sl l ?pre @ on_level sl l ?post) \<and>
    (\<forall>x\<in>set (on_level sl l ?pre @ on_level sl l ?post). x < NPROC + 1 \<and> vd sl2 x = 1)"
    using l slots [OF l(1)] unfolding part pred_at_def by blast
qed simp

lemma sorted_splice:
  fixes f :: "'a \<Rightarrow> 'b::linorder"
  assumes "sorted (map f xs)" and "n \<notin> set xs"
  shows "sorted (map (f(n := v)) (takeWhile (\<lambda>x. f x < v) xs @ n # dropWhile (\<lambda>x. f x < v) xs))"
proof -
  let ?pre = "takeWhile (\<lambda>x. f x < v) xs" and ?post = "dropWhile (\<lambda>x. f x < v) xs"
  have "set ?pre \<union> set ?post = set xs" by (metis set_append takeWhile_dropWhile_id)
  then have keep: "map (f(n := v)) ?pre = map f ?pre" "map (f(n := v)) ?post = map f ?post"
    using assms(2) by auto
  have bounds: "\<forall>x\<in>set ?pre. f x \<le> v" "\<forall>x\<in>set ?post. v \<le> f x"
    using assms(1) by (auto simp: sorted_dropWhile_less dest!: set_takeWhileD)
  have "sorted (map f ?pre @ map f ?post)"
    using assms(1) by (metis map_append takeWhile_dropWhile_id)
  then have "sorted (map f ?pre @ v # map f ?post)"
    using bounds by (simp add: sorted_append)
  then show ?thesis
    unfolding map_append list.map keep by simp
qed

text \<open>The invariant of the list with one more node.\<close>

lemma sl_rep_insert:
  assumes rep: "sl_rep sl xs" and n: "1 \<le> n" "n < NPROC + 1" "n \<notin> set xs"
    and sh: "sl_shape sl'" and lev: "sl_level sl' = sl_level sl" "int k \<le> sl_level sl"
    and nodes: "vl sl' = (vl sl)(n := v)" "vd sl' = (vd sl)(n := 1)" "ml sl' = (ml sl)(n := int k)"
    and low: "\<And>l. l \<le> k \<Longrightarrow> linked (fw sl' l) (bw sl' l) 0
       (on_level sl l (below sl v xs) @ n # on_level sl l (dropWhile (\<lambda>x. vl sl x < v) xs))"
    and high: "\<And>l. k < l \<Longrightarrow> fw sl' l = fw sl l \<and> bw sl' l = bw sl l"
  shows "sl_rep sl' (below sl v xs @ n # dropWhile (\<lambda>x. vl sl x < v) xs)"
proof -
  note D = sl_repD [OF rep]
  let ?pre = "below sl v xs" and ?post = "dropWhile (\<lambda>x. vl sl x < v) xs"
  have xs: "xs = ?pre @ ?post" by (simp add: below_def)
  then have set_xs: "set ?pre \<union> set ?post = set xs" by (metis set_append)
  have "distinct (?pre @ ?post)" using D(5) xs by simp
  then have dist: "distinct (?pre @ n # ?post)" using n(3) set_xs by auto
  have sorted: "sorted (map (vl sl') (?pre @ n # ?post))"
    unfolding nodes(1) below_def using D(8) n(3) by (rule sorted_splice)
  have sub: "set ?pre \<subseteq> set xs" "set ?post \<subseteq> set xs" and n_ml: "ml sl' n = int k"
    using set_xs by (auto simp: nodes)
  have lk: "linked (fw sl' l) (bw sl' l) 0 (filter (\<lambda>x. int l \<le> ml sl' x) (?pre @ n # ?post))"
    if "l < MAX_SKIPLIST_LEVEL" for l
  proof -
    have same: "filter (\<lambda>x. int l \<le> ml sl' x) ys = on_level sl l ys" if "set ys \<subseteq> set xs" for ys
      using that n(3) by (auto simp: on_level_def nodes intro!: filter_cong)
    have "filter (\<lambda>x. int l \<le> ml sl' x) (?pre @ n # ?post)
        = on_level sl l ?pre @ (if l \<le> k then [n] else []) @ on_level sl l ?post"
      using n_ml by (simp add: same [OF sub(1)] same [OF sub(2)])
    moreover have "on_level sl l ?pre @ on_level sl l ?post = on_level sl l xs"
      unfolding on_level_def filter_append [symmetric] xs [symmetric] ..
    ultimately show ?thesis
      using low [of l] high [of l] D(9) [OF that] by (cases "l \<le> k") (simp_all add: on_level_def)
  qed
  have "set (?pre @ n # ?post) = insert n (set xs)" using set_xs by auto
  also have "\<dots> = set (filter (\<lambda>x. vd sl' x = 1) [1..<NPROC + 1])"
    using n D(6,10) by (auto simp: nodes)
  finally show ?thesis
    using rep dist sorted lk sh lev n set_xs unfolding sl_rep_def by (auto simp: nodes)
qed

text \<open>Steps 4 and 5 together.\<close>

lemma slInsert_splice:
  assumes rep: "sl_rep sl xs" and k: "int k \<le> sl_level sl"
    and n: "1 \<le> n" "n < NPROC + 1" "n \<notin> set xs"
    and slots: "\<And>l. l \<le> k \<Longrightarrow> aref backs (int l) = Some (Some (int (pred_at sl xs v l)))"
  obtains sl2 sl' where "node sl (int n) = Some (sl_nodeList sl ! n)"
    and "set_node sl (int n) ((sl_nodeList sl ! n)\<lparr>sn_value := v, sn_pid := pid, sn_valid := 1,
           sn_maxlevel := int k\<rparr>) = Some sl2"
    and "slInsert_links [0..<k + 1] backs (int n) sl2 = Some sl'"
    and "sl_rep sl' (below sl v xs @ n # dropWhile (\<lambda>x. vl sl x < v) xs)"
    and "vl sl' = (vl sl)(n := v)" and "pd sl' = (pd sl)(n := pid)"
proof -
  note D = sl_repD [OF rep]
  have k4: "k < MAX_SKIPLIST_LEVEL" using k D(3) by simp
  define sl2 where "sl2 = sl\<lparr>sl_nodeList := (sl_nodeList sl)[n := (sl_nodeList sl ! n)
            \<lparr>sn_value := v, sn_pid := pid, sn_valid := 1, sn_maxlevel := int k\<rparr>]\<rparr>"
  note F = fill_views [OF D(1) n(2) sl2_def]
  obtain sl' where links: "slInsert_links [0..<k + 1] backs (int n) sl2 = Some sl'"
      and sl': "sl_shape sl'" "same_nodes sl2 sl'"
      "\<And>l. l \<le> k \<Longrightarrow> linked (fw sl' l) (bw sl' l) 0 (on_level sl l (below sl v xs) @
         n # on_level sl l (dropWhile (\<lambda>x. vl sl x < v) xs))"
      "\<And>l. k < l \<Longrightarrow> fw sl' l = fw sl l \<and> bw sl' l = bw sl l"
    using slInsert_links_rep [OF rep k4 n slots F(1,2,3,5)] by (auto simp: F)
  have N: "vl sl' = (vl sl)(n := v)" "vd sl' = (vd sl)(n := 1)" "ml sl' = (ml sl)(n := int k)"
      "pd sl' = (pd sl)(n := pid)" "sl_level sl' = sl_level sl"
    using sl'(2) F by (auto simp: same_nodes_def)
  have rep': "sl_rep sl' (below sl v xs @ n # dropWhile (\<lambda>x. vl sl x < v) xs)"
    using sl_rep_insert [OF rep n sl'(1) N(5) k N(1,2,3) sl'(3,4)] .
  show ?thesis
    by (rule that [OF _ _ links rep' N(1,4)])
       (use D(1) n(2) sl_shape_nodes [OF D(1) n(2)] in
          \<open>simp_all add: node_in set_node_def sl2_def\<close>)
qed

text \<open>
  The whole insertion: a free node \<open>n\<close> takes the entry and stands, on every level it reaches,
  between the nodes with a smaller value and the others.
\<close>

lemma slInsert_rep:
  assumes rep: "sl_rep (bfs_sl b) xs" and len: "length xs < NPROC"
  obtains n b' where "slInsert v pid p b = Some (0, b')" and "n \<notin> set xs"
    and "sl_rep (bfs_sl b') (below (bfs_sl b) v xs @ n # dropWhile (\<lambda>x. vl (bfs_sl b) x < v) xs)"
    and "vl (bfs_sl b') = (vl (bfs_sl b))(n := v)" and "pd (bfs_sl b') = (pd (bfs_sl b))(n := pid)"
    and "bfs_out b' = bfs_out b @ [Inserted pid (int (fst (slUpLevel p (bfs_seed b))))]"
    and "bfs_seed b' = snd (slUpLevel p (bfs_seed b))"
proof -
  define sl where "sl = bfs_sl b"
  note rep = rep [folded sl_def]
  obtain k seed where up: "slUpLevel p (bfs_seed b) = (k, seed)" by fastforce
  have k: "k < MAX_SKIPLIST_LEVEL" using slUpLevel_bound [of p "bfs_seed b"] up by simp
  obtain backs backs' where
    path: "slInsert_path sl v (nat (sl_level sl)) 0 (replicate 4 None) = Some backs" and
    raise: "int k > sl_level sl \<Longrightarrow> slInsert_raise [nat (sl_level sl + 1)..<k + 1] backs = Some backs'"
      "\<not> int k > sl_level sl \<Longrightarrow> backs' = backs" and
    slots: "\<And>l. l \<le> k \<Longrightarrow> aref backs' (int l) = Some (Some (int (pred_at sl xs v l)))"
    using slInsert_preds [OF rep k] by blast
  define sl1 where "sl1 = sl\<lparr>sl_level := max (sl_level sl) (int k)\<rparr>"
  have rep1: "sl_rep sl1 xs"
    unfolding sl1_def using sl_repD(3) [OF rep] k by (intro sl_rep_raise [OF rep]) auto
  have views: "vl sl1 = vl sl" "pd sl1 = pd sl" "below sl1 v xs = below sl v xs"
      "pred_at sl1 xs v = pred_at sl xs v" "int k \<le> sl_level sl1"
    by (simp_all add: fun_eq_iff pred_at_def below_def on_level_def sl1_def)
  obtain n where n: "slFindFreeNode sl1 = Some (int n)" "1 \<le> n" "n < NPROC + 1" "n \<notin> set xs"
    using slFindFreeNode_free [OF rep1 len] by blast
  obtain sl2 sl' where steps: "node sl1 (int n) = Some (sl_nodeList sl1 ! n)"
      "set_node sl1 (int n) ((sl_nodeList sl1 ! n)\<lparr>sn_value := v, sn_pid := pid, sn_valid := 1,
           sn_maxlevel := int k\<rparr>) = Some sl2"
      "slInsert_links [0..<k + 1] backs' (int n) sl2 = Some sl'"
    and sl': "sl_rep sl' (below sl v xs @ n # dropWhile (\<lambda>x. vl sl x < v) xs)"
      "vl sl' = (vl sl)(n := v)" "pd sl' = (pd sl)(n := pid)"
    using slInsert_splice [OF rep1 views(5) n(2-4), of backs' v pid] slots
    unfolding views by blast
  have "slInsert v pid p b = Some (0, b\<lparr>bfs_sl := sl', bfs_seed := seed,
          bfs_out := bfs_out b @ [Inserted pid (int k)]\<rparr>)"
    using sl_repD(2) [OF rep] path raise up n(1) steps unfolding slInsert_def sl_def [symmetric]
    by (cases "int k > sl_level sl") (simp_all add: sl1_def max_def)
  then show ?thesis
    using that n(4) sl' up by (simp add: sl_def)
qed

text \<open>A full list refuses the entry and keeps its nodes.\<close>

lemma slInsert_full:
  assumes rep: "sl_rep (bfs_sl b) xs" and len: "length xs = NPROC"
  obtains b' where "slInsert v pid p b = Some (-1, b')" and "sl_rep (bfs_sl b') xs"
    and "vl (bfs_sl b') = vl (bfs_sl b)" and "pd (bfs_sl b') = pd (bfs_sl b)"
    and "bfs_out b' = bfs_out b"
proof -
  define sl where "sl = bfs_sl b"
  note rep = rep [folded sl_def]
  obtain k seed where up: "slUpLevel p (bfs_seed b) = (k, seed)" by fastforce
  have k: "k < MAX_SKIPLIST_LEVEL" using slUpLevel_bound [of p "bfs_seed b"] up by simp
  obtain backs backs' where
    path: "slInsert_path sl v (nat (sl_level sl)) 0 (replicate 4 None) = Some backs" and
    raise: "int k > sl_level sl \<Longrightarrow> slInsert_raise [nat (sl_level sl + 1)..<k + 1] backs = Some backs'"
    using slInsert_preds [OF rep k] by blast
  define sl1 where "sl1 = sl\<lparr>sl_level := max (sl_level sl) (int k)\<rparr>"
  have rep1: "sl_rep sl1 xs"
    unfolding sl1_def using sl_repD(3) [OF rep] k by (intro sl_rep_raise [OF rep]) auto
  have "slInsert v pid p b = Some (-1, b\<lparr>bfs_sl := sl1, bfs_seed := seed\<rparr>)"
    using sl_repD(2) [OF rep] path raise up slFindFreeNode_full [OF rep1 len]
    unfolding slInsert_def sl_def [symmetric]
    by (cases "int k > sl_level sl") (simp_all add: sl1_def max_def)
  then show ?thesis
    using that rep1 by (simp add: sl1_def sl_def)
qed

section \<open>Deletion\<close>

lemma slDelete_unlink_level:
  assumes sh: "sl_shape sl" and l: "l < MAX_SKIPLIST_LEVEL"
    and lk: "linked (fw sl l) (bw sl l) 0 (us @ d # ws)"
    and dist: "distinct (0 # us @ d # ws)"
    and bound: "\<And>x. x \<in> set (us @ d # ws) \<Longrightarrow> x < NPROC + 1"
  shows "\<exists>sl'. slDelete_unlink (int d) l sl = Some sl' \<and> sl_shape sl' \<and> same_nodes sl sl' \<and>
    linked (fw sl' l) (bw sl' l) 0 (us @ ws) \<and>
    (\<forall>k. k \<noteq> l \<longrightarrow> fw sl' k = fw sl k \<and> bw sl' k = bw sl k)"
proof -
  let ?p = "last (0 # us)"
  have "?p \<in> set (0 # us)" by (rule last_in_set) simp
  then have p: "?p < NPROC + 1" "?p \<noteq> d" "?p \<notin> set ws"
    using bound dist by (auto simp del: last.simps)
  have d: "d < NPROC + 1" "d \<noteq> 0" "d \<notin> set us" "d \<notin> set ws" using bound dist by auto
  have f: "fw sl l d = (case ws of [] \<Rightarrow> -1 | w # _ \<Rightarrow> int w)"
    using linked_suffix [OF lk] by (cases ws) auto
  have b: "bw sl l d = int ?p" using lk by (rule linked_prev)
  have del: "linked f' g' 0 (us @ ws)"
    if "f' = (fw sl l)(?p := (case ws of [] \<Rightarrow> -1 | w # _ \<Rightarrow> int w), d := -1)"
      and "g' = (case ws of [] \<Rightarrow> bw sl l | w # _ \<Rightarrow> (bw sl l)(w := int ?p))(d := -1)" for f' g'
    using that p d dist by (intro linked_delete [OF lk dist]) (auto split: list.splits)
  show ?thesis
  proof (cases ws)
    case Nil
    let ?sl' = "up_backward (up_forward (up_forward sl ?p l (-1)) d l (-1)) d l (-1)"
    have "slDelete_unlink (int d) l sl = Some ?sl'"
      using sh l d p f b Nil by (simp add: slDelete_unlink_def link_simps)
    moreover have "linked (fw ?sl' l) (bw ?sl' l) 0 (us @ ws)"
      using sh l d p Nil by (intro del) (simp_all add: link_simps)
    ultimately show ?thesis
      using sh l d p by (intro exI [of _ ?sl']) (simp add: link_simps up_same_nodes)
  next
    case (Cons w ws')
    have w: "w < NPROC + 1" using bound Cons by auto
    let ?sl' = "up_backward (up_forward (up_backward (up_forward sl ?p l (int w)) w l (int ?p))
                  d l (-1)) d l (-1)"
    have "slDelete_unlink (int d) l sl = Some ?sl'"
      using sh l d p f b Cons w by (simp add: slDelete_unlink_def link_simps)
    moreover have "linked (fw ?sl' l) (bw ?sl' l) 0 (us @ ws)"
      using sh l d p w Cons by (intro del) (simp_all add: link_simps)
    ultimately show ?thesis
      using sh l d p w by (intro exI [of _ ?sl']) (simp add: link_simps up_same_nodes)
  qed
qed

lemma slDelete_unlinks_levels:
  assumes "sl_shape sl" and "distinct ls"
    and "\<And>l. l \<in> set ls \<Longrightarrow> l < MAX_SKIPLIST_LEVEL \<and>
      linked (fw sl l) (bw sl l) 0 (us l @ d # ws l) \<and>
      distinct (0 # us l @ d # ws l) \<and> (\<forall>x\<in>set (us l @ d # ws l). x < NPROC + 1)"
  shows "\<exists>sl'. slDelete_unlinks ls (int d) sl = Some sl' \<and> sl_shape sl' \<and> same_nodes sl sl' \<and>
    (\<forall>l\<in>set ls. linked (fw sl' l) (bw sl' l) 0 (us l @ ws l)) \<and>
    (\<forall>k. k \<notin> set ls \<longrightarrow> fw sl' k = fw sl k \<and> bw sl' k = bw sl k)"
  using assms
proof (induction ls arbitrary: sl)
  case Nil
  then show ?case by simp
next
  case (Cons l ls)
  obtain sl1 where sl1: "slDelete_unlink (int d) l sl = Some sl1" "sl_shape sl1"
      "same_nodes sl sl1" "linked (fw sl1 l) (bw sl1 l) 0 (us l @ ws l)"
      "\<forall>k. k \<noteq> l \<longrightarrow> fw sl1 k = fw sl k \<and> bw sl1 k = bw sl k"
    using slDelete_unlink_level [of sl l "us l" d "ws l"] Cons.prems by auto
  have "\<exists>sl'. slDelete_unlinks ls (int d) sl1 = Some sl' \<and> sl_shape sl' \<and> same_nodes sl1 sl' \<and>
    (\<forall>l\<in>set ls. linked (fw sl' l) (bw sl' l) 0 (us l @ ws l)) \<and>
    (\<forall>k. k \<notin> set ls \<longrightarrow> fw sl' k = fw sl1 k \<and> bw sl' k = bw sl1 k)"
  proof (rule Cons.IH [OF sl1(2)])
    show "distinct ls" using Cons.prems(2) by simp
    fix k assume k: "k \<in> set ls"
    with Cons.prems(2) sl1(5) have "fw sl1 k = fw sl k" "bw sl1 k = bw sl k" by auto
    then show "k < MAX_SKIPLIST_LEVEL \<and> linked (fw sl1 k) (bw sl1 k) 0 (us k @ d # ws k) \<and>
      distinct (0 # us k @ d # ws k) \<and> (\<forall>x\<in>set (us k @ d # ws k). x < NPROC + 1)"
      using Cons.prems(3) [of k] k by simp
  qed
  then obtain sl' where "slDelete_unlinks ls (int d) sl1 = Some sl'" "sl_shape sl'"
      "same_nodes sl1 sl'" "\<forall>l\<in>set ls. linked (fw sl' l) (bw sl' l) 0 (us l @ ws l)"
      "\<forall>k. k \<notin> set ls \<longrightarrow> fw sl' k = fw sl1 k \<and> bw sl' k = bw sl1 k"
    by blast
  then show ?case
    using sl1 Cons.prems(2) same_nodes_trans [of sl sl1 sl'] by (intro exI [of _ sl']) auto
qed

text \<open>The invariant of the list with one node less.\<close>

lemma sl_rep_delete:
  assumes rep: "sl_rep sl (us @ d # ws)" and sh: "sl_shape sl'" and lev: "sl_level sl' = sl_level sl"
    and nodes: "vl sl' = vl sl" "vd sl' = (vd sl)(d := 0)" "ml sl' = ml sl"
    and low: "\<And>l. l \<le> nat (ml sl d) \<Longrightarrow> linked (fw sl' l) (bw sl' l) 0
       (on_level sl l us @ on_level sl l ws)"
    and high: "\<And>l. nat (ml sl d) < l \<Longrightarrow> fw sl' l = fw sl l \<and> bw sl' l = bw sl l"
  shows "sl_rep sl' (us @ ws)"
proof -
  note D = sl_repD [OF rep]
  have d: "1 \<le> d" "d < NPROC + 1" "0 \<le> ml sl d" using D(6,7) by auto
  have lk: "linked (fw sl' l) (bw sl' l) 0 (filter (\<lambda>x. int l \<le> ml sl' x) (us @ ws))"
    if "l < MAX_SKIPLIST_LEVEL" for l
    using low [of l] high [of l] D(9) [OF that] d(3)
    by (cases "l \<le> nat (ml sl d)") (auto simp: nodes on_level_def le_nat_iff)
  have "x \<in> set (us @ ws) \<longleftrightarrow> x \<in> set (us @ d # ws) \<and> x \<noteq> d" for x
    using D(5) by auto
  then have "set (us @ ws) = set (filter (\<lambda>x. vd sl' x = 1) [1..<NPROC + 1])"
    using D(6,10) by (auto simp: nodes)
  then show ?thesis
    using rep sh lev d lk unfolding sl_rep_def by (auto simp: nodes sorted_append)
qed

lemma slDelete_unlinks_rep:
  assumes rep: "sl_rep sl (us @ d # ws)"
  obtains sl' where "slDelete_unlinks (rev [0..<nat (ml sl d + 1)]) (int d) sl = Some sl'"
    and "sl_shape sl'" and "same_nodes sl sl'"
    and "\<And>l. l \<le> nat (ml sl d) \<Longrightarrow>
           linked (fw sl' l) (bw sl' l) 0 (on_level sl l us @ on_level sl l ws)"
    and "\<And>l. nat (ml sl d) < l \<Longrightarrow> fw sl' l = fw sl l \<and> bw sl' l = bw sl l"
proof -
  note D = sl_repD [OF rep]
  have d: "0 \<le> ml sl d" "ml sl d < int MAX_SKIPLIST_LEVEL" "0 < d"
    using D(3) D(6) [of d] D(7) [of d] by auto
  let ?ls = "rev [0..<nat (ml sl d + 1)]"
  have mem: "l \<in> set ?ls \<longleftrightarrow> l \<le> nat (ml sl d)" for l using d by auto
  have "\<exists>sl'. slDelete_unlinks ?ls (int d) sl = Some sl' \<and> sl_shape sl' \<and> same_nodes sl sl' \<and>
      (\<forall>l\<in>set ?ls. linked (fw sl' l) (bw sl' l) 0 (on_level sl l us @ on_level sl l ws)) \<and>
      (\<forall>k. k \<notin> set ?ls \<longrightarrow> fw sl' k = fw sl k \<and> bw sl' k = bw sl k)"
  proof (rule slDelete_unlinks_levels [OF D(1)])
    fix l assume "l \<in> set ?ls"
    then have l: "int l \<le> ml sl d" "l < MAX_SKIPLIST_LEVEL" using mem d by (auto simp: le_nat_iff)
    then have "on_level sl l us @ d # on_level sl l ws = on_level sl l (us @ d # ws)"
      by (simp add: on_level_def)
    then show "l < MAX_SKIPLIST_LEVEL \<and>
      linked (fw sl l) (bw sl l) 0 (on_level sl l us @ d # on_level sl l ws) \<and>
      distinct (0 # on_level sl l us @ d # on_level sl l ws) \<and>
      (\<forall>x\<in>set (on_level sl l us @ d # on_level sl l ws). x < NPROC + 1)"
      using D(5,6) D(9) [OF l(2)] l d(3) by (auto simp: on_level_def)
  qed simp
  then show ?thesis
    using that unfolding Ball_def mem by (metis linorder_not_le)
qed

lemma slDelete_rep:
  assumes rep: "sl_rep (bfs_sl b) (us @ d # ws)"
    and found: "slSearch v pid (bfs_sl b) = Some (Some (int d))"
  obtains b' where "slDelete v pid b = Some (Some (int d), b')" and "sl_rep (bfs_sl b') (us @ ws)"
    and "vl (bfs_sl b') = vl (bfs_sl b)" and "pd (bfs_sl b') = pd (bfs_sl b)"
    and "vd (bfs_sl b') = (vd (bfs_sl b))(d := 0)"
    and "bfs_out b' = bfs_out b @ [Removed (pd (bfs_sl b) d) (ml (bfs_sl b) d)]"
    and "bfs_seed b' = bfs_seed b"
proof -
  define sl where "sl = bfs_sl b"
  note rep = rep [folded sl_def] and found = found [folded sl_def]
  note D = sl_repD [OF rep]
  have d: "d < NPROC + 1" using D(6) by auto
  obtain sl1 where unl: "slDelete_unlinks (rev [0..<nat (ml sl d + 1)]) (int d) sl = Some sl1"
      and sl1: "sl_shape sl1" "same_nodes sl sl1"
      "\<And>l. l \<le> nat (ml sl d) \<Longrightarrow> linked (fw sl1 l) (bw sl1 l) 0 (on_level sl l us @ on_level sl l ws)"
      "\<And>l. nat (ml sl d) < l \<Longrightarrow> fw sl1 l = fw sl l \<and> bw sl1 l = bw sl l"
    using slDelete_unlinks_rep [OF rep] by blast
  define sl2 where "sl2 = sl1\<lparr>sl_nodeList := (sl_nodeList sl1)[d := (sl_nodeList sl1 ! d)
            \<lparr>sn_value := vl sl1 d, sn_pid := pd sl1 d, sn_valid := 0, sn_maxlevel := ml sl1 d\<rparr>]\<rparr>"
  note F = fill_views [OF sl1(1) d sl2_def]
  have N: "vl sl2 = vl sl" "vd sl2 = (vd sl)(d := 0)" "ml sl2 = ml sl" "pd sl2 = pd sl"
      "sl_level sl2 = sl_level sl"
    using sl1(2) F by (auto simp: same_nodes_def)
  have "sl_rep sl2 (us @ ws)"
    by (rule sl_rep_delete [OF rep F(1) N(5,1,2,3)]) (use sl1(3,4) in \<open>simp_all add: F\<close>)
  moreover have "node sl (int d) = Some (sl_nodeList sl ! d)"
      "node sl1 (int d) = Some (sl_nodeList sl1 ! d)"
      "set_node sl1 (int d) ((sl_nodeList sl1 ! d)\<lparr>sn_valid := 0\<rparr>) = Some sl2"
    using D(1) sl1(1) d sl_shape_nodes [OF sl1(1) d]
    by (simp_all add: node_in set_node_def sl2_def vl_def pd_def ml_def)
  then have "slDelete v pid b = Some (Some (int d), b\<lparr>bfs_sl := sl2,
      bfs_out := bfs_out b @ [Removed (pd sl d) (ml sl d)]\<rparr>)"
    using D(2) found unl sl1(2) unfolding slDelete_def sl_def [symmetric]
    by (auto simp: ml_def pd_def same_nodes_def fun_eq_iff)
  ultimately show ?thesis
    using that N by (simp add: sl_def)
qed

end
