(* ===== verification/ReadyQueue.thy ===== *)
theory ReadyQueue
  imports SkipListCorrect
begin

text \<open>
  What the scheduler relies on. \<open>ready_queue\<close> is the contract of a queue of (deadline, pid)
  entries, stated against a sorted list of entries; the lemmas a client needs are proved once from
  the contract. The skip list is shown to fulfil it. The theorems on the skip list operations
  themselves follow, stated over the abstraction \<open>entries\<close>.
\<close>

section \<open>The specification: a sorted list of entries\<close>

text \<open>A new entry goes in front of the entries with the same deadline.\<close>

definition entry_insert :: "int \<times> int \<Rightarrow> (int \<times> int) list \<Rightarrow> (int \<times> int) list" where
  "entry_insert e es = takeWhile (\<lambda>x. fst x < fst e) es @ e # dropWhile (\<lambda>x. fst x < fst e) es"

lemma set_entry_insert [simp]: "set (entry_insert e es) = insert e (set es)"
proof -
  have "set (takeWhile (\<lambda>x. fst x < fst e) es) \<union> set (dropWhile (\<lambda>x. fst x < fst e) es) = set es"
    by (metis set_append takeWhile_dropWhile_id)
  then show ?thesis by (auto simp: entry_insert_def)
qed

lemma length_entry_insert [simp]: "length (entry_insert e es) = Suc (length es)"
proof -
  have "length (takeWhile (\<lambda>x. fst x < fst e) es @ dropWhile (\<lambda>x. fst x < fst e) es) = length es"
    by simp
  then show ?thesis by (simp add: entry_insert_def del: takeWhile_dropWhile_id)
qed

lemma distinct_entry_insert [simp]:
  "distinct (entry_insert e es) \<longleftrightarrow> distinct es \<and> e \<notin> set es"
proof -
  define us ws where "us = takeWhile (\<lambda>x. fst x < fst e) es" and "ws = dropWhile (\<lambda>x. fst x < fst e) es"
  then have "es = us @ ws" by simp
  then show ?thesis
    unfolding entry_insert_def us_def [symmetric] ws_def [symmetric] by auto
qed

lemma remove1_entry_insert:
  assumes "e \<notin> set es"
  shows "remove1 e (entry_insert e es) = es"
proof -
  have "e \<notin> set (takeWhile (\<lambda>x. fst x < fst e) es)"
    using set_takeWhileD by fastforce
  then show ?thesis by (simp add: entry_insert_def remove1_append)
qed

section \<open>The contract\<close>

locale ready_queue =
  fixes inv :: "'q \<Rightarrow> bool"
    and content :: "'q \<Rightarrow> (int \<times> int) list"
    and insert_q :: "int \<Rightarrow> int \<Rightarrow> 'q \<Rightarrow> (int \<times> 'q) option"
    and search_q :: "int \<Rightarrow> int \<Rightarrow> 'q \<Rightarrow> 'n option option"
    and delete_q :: "int \<Rightarrow> int \<Rightarrow> 'q \<Rightarrow> ('n option \<times> 'q) option"
    and first_q :: "'q \<Rightarrow> (int \<times> int) option"
    and capacity :: nat
  assumes content_sorted: "inv q \<Longrightarrow> sorted (map fst (content q))"
    and insert_room: "inv q \<Longrightarrow> length (content q) < capacity \<Longrightarrow>
      \<exists>q'. insert_q v p q = Some (0, q') \<and> inv q' \<and> content q' = entry_insert (v, p) (content q)"
    and insert_full: "inv q \<Longrightarrow> length (content q) = capacity \<Longrightarrow>
      \<exists>q'. insert_q v p q = Some (-1, q') \<and> inv q' \<and> content q' = content q"
    and search_total: "inv q \<Longrightarrow>
      \<exists>r. search_q v p q = Some r \<and> (r \<noteq> None \<longleftrightarrow> (v, p) \<in> set (content q))"
    and delete_member: "inv q \<Longrightarrow> (v, p) \<in> set (content q) \<Longrightarrow>
      \<exists>n q'. delete_q v p q = Some (Some n, q') \<and> inv q' \<and> content q' = remove1 (v, p) (content q)"
    and delete_absent: "inv q \<Longrightarrow> (v, p) \<notin> set (content q) \<Longrightarrow> delete_q v p q = Some (None, q)"
    and first_head: "inv q \<Longrightarrow> first_q q = (case content q of [] \<Rightarrow> None | e # _ \<Rightarrow> Some e)"
    and content_capacity: "inv q \<Longrightarrow> length (content q) \<le> capacity"
begin

text \<open>Enter an entry unless it is there already.\<close>

lemma enter:
  assumes "inv q" and "distinct (content q)"
    and "(v, p) \<notin> set (content q) \<Longrightarrow> length (content q) < capacity"
  shows "\<exists>q'. (do { r \<leftarrow> search_q v p q;
                    if r = None then do { (_, q') \<leftarrow> insert_q v p q; Some q' } else Some q })
      = Some q' \<and> inv q' \<and> distinct (content q') \<and>
      set (content q') = insert (v, p) (set (content q))"
proof (cases "(v, p) \<in> set (content q)")
  case True
  then show ?thesis
    using search_total [OF assms(1), of v p] assms(1,2) by (auto simp: insert_absorb)
next
  case False
  then obtain q' where "insert_q v p q = Some (0, q')" "inv q'"
      "content q' = entry_insert (v, p) (content q)"
    using insert_room [OF assms(1), of v p] assms(3) by auto
  then show ?thesis
    using False search_total [OF assms(1), of v p] assms(1,2) by auto
qed

text \<open>Take an entry out if it is there.\<close>

lemma leave:
  assumes "inv q" and "distinct (content q)"
  shows "\<exists>q'. (do { r \<leftarrow> search_q v p q;
                    if r \<noteq> None then do { (_, q') \<leftarrow> delete_q v p q; Some q' } else Some q })
      = Some q' \<and> inv q' \<and> distinct (content q') \<and>
      set (content q') = set (content q) - {(v, p)}"
proof (cases "(v, p) \<in> set (content q)")
  case True
  then obtain n q' where "delete_q v p q = Some (Some n, q')" "inv q'"
      "content q' = remove1 (v, p) (content q)"
    using delete_member [OF assms(1), of v p] by auto
  then show ?thesis
    using True search_total [OF assms(1), of v p] assms by auto
next
  case False
  then show ?thesis
    using search_total [OF assms(1), of v p] assms by auto
qed

text \<open>The first entry has the least deadline.\<close>

lemma first_least:
  assumes "inv q" and "first_q q = Some (v, p)"
  shows "(v, p) \<in> set (content q)" and "e \<in> set (content q) \<Longrightarrow> v \<le> fst e"
  using content_sorted [OF assms(1)] first_head [OF assms(1)] assms(2)
  by (auto split: list.splits)

lemma first_none: "inv q \<Longrightarrow> first_q q = None \<longleftrightarrow> content q = []"
  using first_head by (auto split: list.splits)

end

section \<open>The abstraction of the skip list\<close>

fun sl_chain :: "nat \<Rightarrow> SkipList \<Rightarrow> int \<Rightarrow> nat list" where
  "sl_chain 0 sl cur = []"
| "sl_chain (Suc k) sl cur =
     (case get_forward sl cur 0 of
        None \<Rightarrow> []
      | Some f \<Rightarrow> if f < 0 then [] else nat f # sl_chain k sl f)"

definition sl_nodes :: "SkipList \<Rightarrow> nat list" where
  "sl_nodes sl = sl_chain NPROC sl 0"

definition entries :: "SkipList \<Rightarrow> (int \<times> int) list" where
  "entries sl = entries_of sl (sl_nodes sl)"

definition sl_inv :: "SkipList \<Rightarrow> bool" where
  "sl_inv sl \<longleftrightarrow> sl_rep sl (sl_nodes sl)"

lemma sl_chain_linked:
  assumes "sl_shape sl" and "linked (fw sl 0) (bw sl 0) a ys" and "a < NPROC + 1"
    and "\<And>y. y \<in> set ys \<Longrightarrow> y < NPROC + 1" and "length ys \<le> k"
  shows "sl_chain k sl (int a) = ys"
  using assms(2-5)
proof (induction ys arbitrary: a k)
  case Nil
  then show ?case
    using assms(1) by (cases k) (simp_all add: get_forward_in)
next
  case (Cons y ys)
  then obtain k' where k: "k = Suc k'" by (cases k) auto
  have "sl_chain k' sl (int y) = ys" using Cons.prems k by (intro Cons.IH) auto
  moreover have "get_forward sl (int a) 0 = Some (int y)"
    using assms(1) Cons.prems(1,2) by (simp add: get_forward_in)
  ultimately show ?case by (simp add: k)
qed

lemma sl_nodes_rep:
  assumes "sl_rep sl xs"
  shows "sl_nodes sl = xs"
proof -
  note D = sl_repD [OF assms]
  have "linked (fw sl 0) (bw sl 0) 0 xs"
    using D(9) [of 0] on_level_0 [OF assms subset_refl] by (simp add: on_level_def)
  then have "sl_chain NPROC sl (int 0) = xs"
    using D(6) by (intro sl_chain_linked [OF D(1) _ _ _ sl_rep_length [OF assms]]) auto
  then show ?thesis by (simp add: sl_nodes_def)
qed

lemma sl_rep_inv: "sl_rep sl xs \<Longrightarrow> sl_inv sl \<and> entries sl = entries_of sl xs"
  by (simp add: sl_inv_def entries_def sl_nodes_rep)

lemma sl_invE:
  assumes "sl_inv sl"
  obtains xs where "sl_rep sl xs" and "entries sl = entries_of sl xs"
  using assms sl_rep_inv unfolding sl_inv_def by blast

lemma entries_of_cong:
  "(\<And>x. x \<in> set xs \<Longrightarrow> vl sl' x = vl sl x \<and> pd sl' x = pd sl x) \<Longrightarrow>
    entries_of sl' xs = entries_of sl xs"
  by (simp add: entries_of_def)

lemma entries_of_below:
  "takeWhile (\<lambda>x. fst x < v) (entries_of sl xs) = entries_of sl (below sl v xs)"
  "dropWhile (\<lambda>x. fst x < v) (entries_of sl xs) = entries_of sl (dropWhile (\<lambda>x. vl sl x < v) xs)"
  by (simp_all add: entries_of_def below_def takeWhile_map dropWhile_map comp_def)

lemma member_entries_of:
  "(v, pid) \<in> set (entries_of sl xs) \<longleftrightarrow> (\<exists>x\<in>set xs. vl sl x = v \<and> pd sl x = pid)"
  by (auto simp: entries_of_def)

text \<open>The entry the head's level-0 link leads to.\<close>

definition sl_first :: "SkipList \<Rightarrow> (int \<times> int) option" where
  "sl_first sl = do {
     f \<leftarrow> get_forward sl 0 0;
     if f > 0 then do { n \<leftarrow> node sl f; Some (sn_value n, sn_pid n) } else None }"

lemma sl_first_entries:
  assumes "sl_inv sl"
  shows "sl_first sl = (case entries sl of [] \<Rightarrow> None | e # _ \<Rightarrow> Some e)"
proof -
  obtain xs where rep: "sl_rep sl xs" and es: "entries sl = entries_of sl xs"
    using assms by (rule sl_invE)
  note D = sl_repD [OF rep]
  have lk: "linked (fw sl 0) (bw sl 0) 0 xs"
    using D(9) [of 0] on_level_0 [OF rep subset_refl] by (simp add: on_level_def)
  have read: "get_forward sl 0 0 = Some (fw sl 0 0)"
    using get_forward_in [OF D(1), of 0 0] by simp
  show ?thesis
  proof (cases xs)
    case Nil
    then show ?thesis using lk read es by (simp add: sl_first_def entries_of_def)
  next
    case (Cons x ys)
    then have "node sl (int x) = Some (sl_nodeList sl ! x)" "1 \<le> x"
      using D(6) [of x] node_in [OF D(1), of x] by auto
    then show ?thesis
      using lk read es Cons by (simp add: sl_first_def entries_of_def vl_def pd_def)
  qed
qed

text \<open>The node behind it, and the null link of an empty list.\<close>

lemma first_node:
  assumes "sl_inv sl"
  shows "entries sl = [] \<Longrightarrow> get_forward sl 0 0 = Some (-1)"
    and "entries sl = e # es \<Longrightarrow> \<exists>x n. get_forward sl 0 0 = Some (int x) \<and> 1 \<le> x \<and> x < NPROC + 1 \<and>
      node sl (int x) = Some n \<and> sn_valid n = 1 \<and> e = (sn_value n, sn_pid n)"
proof -
  obtain xs where rep: "sl_rep sl xs" and es: "entries sl = entries_of sl xs"
    using assms by (rule sl_invE)
  note D = sl_repD [OF rep]
  have lk: "linked (fw sl 0) (bw sl 0) 0 xs"
    using D(9) [of 0] on_level_0 [OF rep subset_refl] by (simp add: on_level_def)
  have read: "get_forward sl 0 0 = Some (fw sl 0 0)"
    using get_forward_in [OF D(1), of 0 0] by simp
  show "get_forward sl 0 0 = Some (-1)" if "entries sl = []"
    using that lk read es by (simp add: entries_of_def)
  assume "entries sl = e # es"
  then obtain x ys where "xs = x # ys" "e = (vl sl x, pd sl x)" using es by (auto simp: entries_of_def)
  then show "\<exists>x n. get_forward sl 0 0 = Some (int x) \<and> 1 \<le> x \<and> x < NPROC + 1 \<and>
      node sl (int x) = Some n \<and> sn_valid n = 1 \<and> e = (sn_value n, sn_pid n)"
    using lk read D(6) [of x] node_in [OF D(1), of x] by (auto simp: vd_def vl_def pd_def)
qed

lemma entries_sorted:
  assumes "sl_inv sl"
  shows "sorted (map fst (entries sl))"
proof -
  obtain xs where "sl_rep sl xs" and "entries sl = entries_of sl xs"
    using assms by (rule sl_invE)
  then show ?thesis
    using sl_repD(8) by (simp add: entries_of_def comp_def)
qed

lemma entries_length: "sl_inv sl \<Longrightarrow> length (entries sl) \<le> NPROC"
  using sl_rep_length by (auto simp: entries_of_def elim: sl_invE)

lemma slInsert_room:
  assumes inv: "sl_inv (bfs_sl b)" and len: "length (entries (bfs_sl b)) < NPROC"
  obtains b' where "slInsert v pid p b = Some (0, b')" and "sl_inv (bfs_sl b')"
    and "entries (bfs_sl b') = entry_insert (v, pid) (entries (bfs_sl b))"
    and "bfs_out b' = bfs_out b @ [Inserted pid (int (fst (slUpLevel p (bfs_seed b))))]"
    and "bfs_seed b' = snd (slUpLevel p (bfs_seed b))"
proof -
  obtain xs where rep: "sl_rep (bfs_sl b) xs"
    and es: "entries (bfs_sl b) = entries_of (bfs_sl b) xs"
    using inv by (rule sl_invE)
  have "length xs < NPROC" using len es by (simp add: entries_of_def)
  from slInsert_rep [OF rep this, of v pid p] obtain n b' where
    b': "slInsert v pid p b = Some (0, b')" "n \<notin> set xs"
      "sl_rep (bfs_sl b') (below (bfs_sl b) v xs @ n # dropWhile (\<lambda>x. vl (bfs_sl b) x < v) xs)"
      "vl (bfs_sl b') = (vl (bfs_sl b))(n := v)" "pd (bfs_sl b') = (pd (bfs_sl b))(n := pid)"
      "bfs_out b' = bfs_out b @ [Inserted pid (int (fst (slUpLevel p (bfs_seed b))))]"
      "bfs_seed b' = snd (slUpLevel p (bfs_seed b))"
    by metis
  have keep: "entries_of (bfs_sl b') ys = entries_of (bfs_sl b) ys" if "set ys \<subseteq> set xs" for ys
    using that b'(2,4,5) by (intro entries_of_cong) auto
  have "set (dropWhile (\<lambda>x. vl (bfs_sl b) x < v) xs) \<subseteq> set xs"
    using set_dropWhileD by fastforce
  note keep = keep [OF this] keep [OF below_subset]
  have new: "entries_of (bfs_sl b') (ys @ n # zs)
      = entries_of (bfs_sl b') ys @ (v, pid) # entries_of (bfs_sl b') zs" for ys zs
    using b'(4,5) by (simp add: entries_of_def)
  have "entries (bfs_sl b') = entry_insert (v, pid) (entries (bfs_sl b))"
    using sl_rep_inv [OF b'(3)] by (simp add: es entry_insert_def entries_of_below new keep)
  then show ?thesis using that b' sl_rep_inv [OF b'(3)] by blast
qed

lemma slInsert_no_room:
  assumes inv: "sl_inv (bfs_sl b)" and len: "length (entries (bfs_sl b)) = NPROC"
  obtains b' where "slInsert v pid p b = Some (-1, b')" and "sl_inv (bfs_sl b')"
    and "entries (bfs_sl b') = entries (bfs_sl b)" and "bfs_out b' = bfs_out b"
proof -
  obtain xs where rep: "sl_rep (bfs_sl b) xs"
    and es: "entries (bfs_sl b) = entries_of (bfs_sl b) xs"
    using inv by (rule sl_invE)
  have "length xs = NPROC" using len es by (simp add: entries_of_def)
  from slInsert_full [OF rep this, of v pid p] obtain b' where
    b': "slInsert v pid p b = Some (-1, b')" "sl_rep (bfs_sl b') xs"
      "vl (bfs_sl b') = vl (bfs_sl b)" "pd (bfs_sl b') = pd (bfs_sl b)" "bfs_out b' = bfs_out b"
    by metis
  then show ?thesis
    using that sl_rep_inv [OF b'(2)] es by (simp add: entries_of_def)
qed

lemma slSearch_entries:
  assumes "sl_inv sl"
  obtains r where "slSearch v pid sl = Some r" and "r \<noteq> None \<longleftrightarrow> (v, pid) \<in> set (entries sl)"
    and "\<And>n. r = Some n \<Longrightarrow> \<exists>x. n = int x \<and> x \<in> set (sl_nodes sl) \<and> vl sl x = v \<and> pd sl x = pid"
proof -
  obtain xs where rep: "sl_rep sl xs" and es: "entries sl = entries_of sl xs"
    using assms by (rule sl_invE)
  let ?r = "List.find (\<lambda>x. vl sl x = v \<and> pd sl x = pid) xs"
  have "?r = None \<longleftrightarrow> (v, pid) \<notin> set (entries sl)"
    by (auto simp: find_None_iff es member_entries_of)
  moreover have "\<exists>x. n = int x \<and> x \<in> set (sl_nodes sl) \<and> vl sl x = v \<and> pd sl x = pid"
    if r: "map_option int ?r = Some n" for n
  proof -
    obtain x where "?r = Some x" "n = int x" using r by auto
    then show ?thesis using sl_nodes_rep [OF rep] by (auto simp: find_Some_iff)
  qed
  ultimately show ?thesis
    by (intro that [OF slSearch_rep [OF rep, of v pid]]) auto
qed

lemma find_split:
  "List.find P xs = Some d \<Longrightarrow> \<exists>us ws. xs = us @ d # ws \<and> P d \<and> (\<forall>u\<in>set us. \<not> P u)"
proof (induction xs)
  case (Cons x xs)
  show ?case
  proof (cases "P x")
    case True
    then have "x # xs = [] @ d # xs \<and> P d" using Cons.prems by simp
    then show ?thesis by (metis empty_iff list.set(1))
  next
    case False
    then obtain us ws where "xs = us @ d # ws \<and> P d \<and> (\<forall>u\<in>set us. \<not> P u)"
      using Cons by auto
    then have "x # xs = (x # us) @ d # ws \<and> P d \<and> (\<forall>u\<in>set (x # us). \<not> P u)"
      using False by simp
    then show ?thesis by blast
  qed
qed simp

text \<open>
  \<open>takes_out v pid n b b'\<close>: \<open>n\<close> is a node of \<open>b\<close> that held the entry, it is free in \<open>b'\<close>, and the line
  printed says which process left which level.
\<close>

definition takes_out :: "int \<Rightarrow> int \<Rightarrow> int \<Rightarrow> bfs \<Rightarrow> bfs \<Rightarrow> bool" where
  "takes_out v pid n b b' \<longleftrightarrow>
     (case (node (bfs_sl b) n, node (bfs_sl b') n) of
        (Some m, Some m') \<Rightarrow>
          sn_valid m = 1 \<and> sn_value m = v \<and> sn_pid m = pid \<and> sn_valid m' = 0 \<and>
          bfs_out b' = bfs_out b @ [Removed pid (sn_maxlevel m)]
      | _ \<Rightarrow> False)"

lemma slDelete_rep_takes_out:
  assumes "sl_rep (bfs_sl b) (us @ d # ws)" and "sl_rep (bfs_sl b') xs"
    and "vl (bfs_sl b) d = v \<and> pd (bfs_sl b) d = pid"
    and "vd (bfs_sl b') = (vd (bfs_sl b))(d := 0)"
    and "bfs_out b' = bfs_out b @ [Removed (pd (bfs_sl b) d) (ml (bfs_sl b) d)]"
  shows "takes_out v pid (int d) b b'"
proof -
  have d: "d < NPROC + 1" "vd (bfs_sl b) d = 1" using sl_repD(6) [OF assms(1)] by auto
  note nodes = node_in [OF sl_repD(1) [OF assms(1)] d(1)] node_in [OF sl_repD(1) [OF assms(2)] d(1)]
  show ?thesis
    using d(2) assms(3,5) fun_cong [OF assms(4), of d]
    by (simp add: takes_out_def nodes vl_def vd_def pd_def ml_def)
qed

lemma slDelete_member:
  assumes inv: "sl_inv (bfs_sl b)" and mem: "(v, pid) \<in> set (entries (bfs_sl b))"
  obtains n b' where "slDelete v pid b = Some (Some n, b')" and "sl_inv (bfs_sl b')"
    and "entries (bfs_sl b') = remove1 (v, pid) (entries (bfs_sl b))"
    and "bfs_seed b' = bfs_seed b" and "pd (bfs_sl b') = pd (bfs_sl b)"
    and "takes_out v pid n b b'"
proof -
  obtain xs where rep: "sl_rep (bfs_sl b) xs"
    and es: "entries (bfs_sl b) = entries_of (bfs_sl b) xs"
    using inv by (rule sl_invE)
  let ?P = "\<lambda>x. vl (bfs_sl b) x = v \<and> pd (bfs_sl b) x = pid"
  have "List.find ?P xs \<noteq> None"
    using mem by (auto simp: find_None_iff es member_entries_of)
  then obtain d where d: "List.find ?P xs = Some d" by auto
  then obtain us ws where xs: "xs = us @ d # ws" "?P d" "\<forall>u\<in>set us. \<not> ?P u"
    using find_split [OF d] by blast
  have "slSearch v pid (bfs_sl b) = Some (Some (int d))"
    using slSearch_rep [OF rep, of v pid] d by simp
  from slDelete_rep [OF rep [unfolded xs(1)] this] obtain b' where
    b': "slDelete v pid b = Some (Some (int d), b')" "sl_rep (bfs_sl b') (us @ ws)"
      "vl (bfs_sl b') = vl (bfs_sl b)" "pd (bfs_sl b') = pd (bfs_sl b)" "bfs_seed b' = bfs_seed b"
      "vd (bfs_sl b') = (vd (bfs_sl b))(d := 0)"
      "bfs_out b' = bfs_out b @ [Removed (pd (bfs_sl b) d) (ml (bfs_sl b) d)]"
    by metis
  have "takes_out v pid (int d) b b'"
    by (rule slDelete_rep_takes_out [OF rep [unfolded xs(1)] b'(2) xs(2) b'(6,7)])
  moreover have "(v, pid) \<notin> set (entries_of (bfs_sl b) us)"
    using xs(3) by (simp add: member_entries_of)
  then have "entries_of (bfs_sl b) (us @ ws) = remove1 (v, pid) (entries_of (bfs_sl b) xs)"
    using xs(1,2) by (simp add: entries_of_def remove1_append)
  moreover have "entries (bfs_sl b') = entries_of (bfs_sl b) (us @ ws)"
    using sl_rep_inv [OF b'(2)] b'(3,4) by (simp add: entries_of_def)
  ultimately show ?thesis
    using that [OF b'(1)] sl_rep_inv [OF b'(2)] es b'(4,5) by simp
qed

lemma slDelete_absent:
  assumes "sl_inv (bfs_sl b)" and "(v, pid) \<notin> set (entries (bfs_sl b))"
  shows "slDelete v pid b = Some (None, b)"
proof -
  obtain r where "slSearch v pid (bfs_sl b) = Some r"
    and "r \<noteq> None \<longleftrightarrow> (v, pid) \<in> set (entries (bfs_sl b))"
    using slSearch_entries [OF assms(1), of v pid] by metis
  then show ?thesis using assms(2) by (simp add: slDelete_def Let_def)
qed

lemma initSkipList_views:
  assumes "length (sl_nodeList sl) = NPROC + 1"
  shows "sl_shape (initSkipList sl)" and "sl_level (initSkipList sl) = 0"
    and "vd (initSkipList sl) 0 = 1" and "\<And>x. 1 \<le> x \<Longrightarrow> x < NPROC + 1 \<Longrightarrow> vd (initSkipList sl) x = 0"
    and "\<And>l. l < MAX_SKIPLIST_LEVEL \<Longrightarrow> fw (initSkipList sl) l 0 = -1"
proof -
  obtain h ns where ns: "sl_nodeList sl = h # ns" "length ns = NPROC"
    using assms by (cases "sl_nodeList sl") auto
  then show "sl_shape (initSkipList sl)" "sl_level (initSkipList sl) = 0"
    "vd (initSkipList sl) 0 = 1" "\<And>l. l < MAX_SKIPLIST_LEVEL \<Longrightarrow> fw (initSkipList sl) l 0 = -1"
    by (auto simp: initSkipList_def Let_def sl_shape_def vd_def fw_def)
  show "vd (initSkipList sl) x = 0" if "1 \<le> x" "x < NPROC + 1" for x
    using that ns by (simp add: initSkipList_def Let_def vd_def nth_Cons split: nat.split)
qed

lemma initSkipList_rep:
  assumes "length (sl_nodeList sl) = NPROC + 1"
  shows "sl_rep (initSkipList sl) []"
proof -
  note V = initSkipList_views [OF assms]
  have "filter (\<lambda>x. vd (initSkipList sl) x = 1) [1..<NPROC + 1] = []"
    using V(4) by (auto simp: filter_empty_conv)
  then show ?thesis
    unfolding sl_rep_def using V by auto
qed

section \<open>The skip list fulfils the contract\<close>

interpretation bfs_queue: ready_queue
  "\<lambda>b. sl_inv (bfs_sl b)" "\<lambda>b. entries (bfs_sl b)" "\<lambda>v pid. slInsert v pid CHANCE"
  "\<lambda>v pid b. slSearch v pid (bfs_sl b)" slDelete "\<lambda>b. sl_first (bfs_sl b)" NPROC
proof (unfold_locales, goal_cases)
  case (1 b)
  then show ?case by (rule entries_sorted)
next
  case (2 b v p)
  then show ?case by (metis slInsert_room)
next
  case (3 b v p)
  then show ?case by (metis slInsert_no_room)
next
  case (4 b v p)
  then show ?case by (metis slSearch_entries)
next
  case (5 b v p)
  then show ?case by (metis slDelete_member)
next
  case (6 b v p)
  then show ?case by (rule slDelete_absent)
next
  case (7 b)
  then show ?case by (rule sl_first_entries)
next
  case (8 b)
  then show ?case by (rule entries_length)
qed

section \<open>The dice\<close>










section \<open>Properties\<close>

text \<open>C2: On a well-formed skip list with a free node, \<^verbatim>\<open>slInsert\<close> returns 0, keeps the list well formed
  and adds exactly the entry (value, pid), in front of the entries whose deadline is not smaller:
  the four-level list of array links implements insertion into a sorted list.\<close>

theorem slInsert_refines_sorted_insert:
  assumes "sl_inv (bfs_sl b)" and "length (entries (bfs_sl b)) < NPROC"
  shows "\<exists>b'. slInsert v pid p b = Some (0, b') \<and> sl_inv (bfs_sl b') \<and>
    entries (bfs_sl b') = entry_insert (v, pid) (entries (bfs_sl b)) \<and>
    sorted (map fst (entries (bfs_sl b')))"
  using slInsert_room [OF assms, of v pid p] entries_sorted by metis

lemma static_rep: "sl_rep (initSkipList static_sl) []"
  by (rule initSkipList_rep) (simp add: static_sl_def)

lemmas static_inv = sl_rep_inv [OF static_rep]

definition started_bfs :: bfs where
  "started_bfs = static_bfs\<lparr>bfs_sl := initSkipList static_sl\<rparr>"

lemma started_inv: "sl_inv (bfs_sl started_bfs)" "entries (bfs_sl started_bfs) = []"
  using static_inv by (simp_all add: started_bfs_def entries_of_def)

definition three_bfs :: bfs where
  "three_bfs = the (do { (_, b) \<leftarrow> slInsert 1050 1 CHANCE started_bfs;
                         (_, b) \<leftarrow> slInsert 1100 2 CHANCE b;
                         (_, b) \<leftarrow> slInsert 1050 3 CHANCE b; Some b })"

lemma three_inv: "sl_inv (bfs_sl three_bfs)" 
  "entries (bfs_sl three_bfs) = [(1050, 3), (1050, 1), (1100, 2)]"
proof -
  obtain b1 where b1: "slInsert 1050 1 CHANCE started_bfs = Some (0, b1)" "sl_inv (bfs_sl b1)"
      "entries (bfs_sl b1) = [(1050, 1)]"
    using slInsert_room [OF started_inv(1), of 1050 1 CHANCE] started_inv(2)
    by (auto simp: entry_insert_def NPROC_def)
  obtain b2 where b2: "slInsert 1100 2 CHANCE b1 = Some (0, b2)" "sl_inv (bfs_sl b2)"
      "entries (bfs_sl b2) = [(1050, 1), (1100, 2)]"
    using slInsert_room [OF b1(2), of 1100 2 CHANCE] b1(3) by (auto simp: entry_insert_def NPROC_def)
  obtain b3 where b3: "slInsert 1050 3 CHANCE b2 = Some (0, b3)" "sl_inv (bfs_sl b3)"
      "entries (bfs_sl b3) = [(1050, 3), (1050, 1), (1100, 2)]"
    using slInsert_room [OF b2(2), of 1050 3 CHANCE] b2(3) by (auto simp: entry_insert_def NPROC_def)
  have "three_bfs = b3" by (simp add: three_bfs_def b1(1) b2(1) b3(1))
  then show "sl_inv (bfs_sl three_bfs)" 
    "entries (bfs_sl three_bfs) = [(1050, 3), (1050, 1), (1100, 2)]"
    using b3 by simp_all
qed

theorem slInsert_refines_sorted_insert_witness:
  "\<exists>b'. slInsert 1075 4 CHANCE three_bfs = Some (0, b') \<and>
    entries (bfs_sl b') = [(1050, 3), (1050, 1), (1075, 4), (1100, 2)]"
  using slInsert_refines_sorted_insert [OF three_inv(1), of 1075 4 CHANCE] three_inv(2)
  by (auto simp: entry_insert_def NPROC_def)

text \<open>C3: \<^verbatim>\<open>slDelete\<close> of an entry that is in the list returns a node that held it and is free now,
  prints its removal, keeps the list well formed and removes exactly one occurrence of the entry;
  of an entry that is not in the list it returns the null pointer and changes nothing.\<close>

theorem slDelete_refines_remove:
  assumes "sl_inv (bfs_sl b)"
  shows "\<exists>r b'. slDelete v pid b = Some (r, b') \<and> sl_inv (bfs_sl b') \<and>
    entries (bfs_sl b') = remove1 (v, pid) (entries (bfs_sl b)) \<and>
    (r = None \<longleftrightarrow> (v, pid) \<notin> set (entries (bfs_sl b))) \<and>
    bfs_seed b' = bfs_seed b \<and> (r = None \<longrightarrow> b' = b) \<and>
    (\<forall>n. r = Some n \<longrightarrow> takes_out v pid n b b')"
proof (cases "(v, pid) \<in> set (entries (bfs_sl b))")
  case True
  obtain n b' where "slDelete v pid b = Some (Some n, b')" "sl_inv (bfs_sl b')"
      "entries (bfs_sl b') = remove1 (v, pid) (entries (bfs_sl b))" "bfs_seed b' = bfs_seed b"
      "takes_out v pid n b b'"
    using slDelete_member [OF assms True] .
  then show ?thesis using True by (intro exI [of _ "Some n"] exI [of _ b']) simp
next
  case False
  then show ?thesis using slDelete_absent [OF assms False] assms by (simp add: remove1_idem)
qed

theorem slDelete_refines_remove_witness:
  "\<exists>r b'. slDelete 1050 1 three_bfs = Some (Some r, b') \<and>
     entries (bfs_sl b') = [(1050, 3), (1100, 2)] \<and> takes_out 1050 1 r three_bfs b'"
  using slDelete_refines_remove [OF three_inv(1), of 1050 1] three_inv(2) by auto

text \<open>C15: \<^verbatim>\<open>slSearch\<close> on a well-formed list always returns, with the null pointer exactly when no
  entry has that deadline and pid, and otherwise with a valid node that holds them.\<close>

theorem slSearch_finds_entry:
  assumes "sl_inv sl"
  shows "\<exists>r. slSearch v pid sl = Some r \<and> (r = None \<longleftrightarrow> (v, pid) \<notin> set (entries sl)) \<and>
    (\<forall>n. r = Some n \<longrightarrow> (\<exists>m. node sl n = Some m \<and> sn_valid m = 1 \<and> sn_value m = v \<and> sn_pid m = pid))"
proof -
  obtain r where r: "slSearch v pid sl = Some r" "r \<noteq> None \<longleftrightarrow> (v, pid) \<in> set (entries sl)"
    and n: "\<And>n. r = Some n \<Longrightarrow> \<exists>x. n = int x \<and> x \<in> set (sl_nodes sl) \<and> vl sl x = v \<and> pd sl x = pid"
    using slSearch_entries [OF assms, of v pid] by metis
  have rep: "sl_rep sl (sl_nodes sl)" using assms by (simp add: sl_inv_def)
  have "\<exists>m. node sl n = Some m \<and> sn_valid m = 1 \<and> sn_value m = v \<and> sn_pid m = pid"
    if found: "r = Some n" for n
  proof -
    obtain x where x: "n = int x" "x \<in> set (sl_nodes sl)" "vl sl x = v" "pd sl x = pid"
      using n [OF found] by blast
    have "x < NPROC + 1" "vd sl x = 1" using sl_repD(6) [OF rep x(2)] by auto
    then show ?thesis
      using node_in [OF sl_repD(1) [OF rep], of x] x by (simp add: vd_def vl_def pd_def)
  qed
  moreover have "r = None \<longleftrightarrow> (v, pid) \<notin> set (entries sl)" using r(2) by blast
  ultimately show ?thesis using r(1) by metis
qed

theorem slSearch_finds_entry_witness:
  "slSearch 1100 1 (bfs_sl three_bfs) = Some None \<and>
   (\<exists>n. slSearch 1100 2 (bfs_sl three_bfs) = Some (Some n))"
  using slSearch_finds_entry [OF three_inv(1), of 1100 1]
    slSearch_finds_entry [OF three_inv(1), of 1100 2] three_inv(2) by auto

text \<open>C16: Inserting an entry and deleting it again gives back the entries there were.\<close>

theorem slInsert_slDelete_roundtrip:
  assumes "sl_inv (bfs_sl b)" and "length (entries (bfs_sl b)) < NPROC"
    and "(v, pid) \<notin> set (entries (bfs_sl b))"
  shows "\<exists>b1 n b2. slInsert v pid p b = Some (0, b1) \<and> slDelete v pid b1 = Some (Some n, b2) \<and>
    sl_inv (bfs_sl b2) \<and> entries (bfs_sl b2) = entries (bfs_sl b)"
proof -
  obtain b1 where b1: "slInsert v pid p b = Some (0, b1)" "sl_inv (bfs_sl b1)"
      "entries (bfs_sl b1) = entry_insert (v, pid) (entries (bfs_sl b))"
    using slInsert_room [OF assms(1,2), of v pid p] by metis
  have "(v, pid) \<in> set (entries (bfs_sl b1))" by (simp add: b1(3))
  then show ?thesis
    using b1 slDelete_member [OF b1(2), of v pid] remove1_entry_insert [OF assms(3)] by metis
qed

theorem slInsert_slDelete_roundtrip_witness:
  "\<exists>b1 n b2. slInsert 1050 9 CHANCE three_bfs = Some (0, b1) \<and> slDelete 1050 9 b1 = Some (Some n, b2) \<and>
    entries (bfs_sl b2) = [(1050, 3), (1050, 1), (1100, 2)]"
proof -
  have "length (entries (bfs_sl three_bfs)) < NPROC" "(1050, 9) \<notin> set (entries (bfs_sl three_bfs))"
    by (simp_all add: three_inv(2) NPROC_def)
  from slInsert_slDelete_roundtrip [OF three_inv(1) this, of CHANCE] show ?thesis
    unfolding three_inv(2) by blast
qed

text \<open>C17: When all \<^verbatim>\<open>NPROC\<close> nodes are taken, \<^verbatim>\<open>slInsert\<close> returns -1 and the entries stay as they were,
  although the level of the list and the seed may have moved; before \<^verbatim>\<open>initSkipList\<close> has run it
  returns -1 and touches nothing.\<close>

theorem slInsert_rejects:
  "(sl_inv (bfs_sl b) \<and> length (entries (bfs_sl b)) = NPROC \<longrightarrow>
     (\<exists>b'. slInsert v pid p b = Some (-1, b') \<and> sl_inv (bfs_sl b') \<and>
           entries (bfs_sl b') = entries (bfs_sl b) \<and> bfs_out b' = bfs_out b)) \<and>
   slInsert v pid p static_bfs = Some (-1, static_bfs)"
proof -
  have "slInsert v pid p static_bfs = Some (-1, static_bfs)"
    by (simp add: slInsert_def static_bfs_def static_sl_def)
  then show ?thesis using slInsert_no_room by metis
qed

fun fill_bfs :: "nat \<Rightarrow> bfs" where
  "fill_bfs 0 = started_bfs"
| "fill_bfs (Suc n) = snd (the (slInsert (int n) (int n + 1) CHANCE (fill_bfs n)))"

lemma fill_bfs_inv:
  "n \<le> NPROC \<Longrightarrow> sl_inv (bfs_sl (fill_bfs n)) \<and> length (entries (bfs_sl (fill_bfs n))) = n"
proof (induction n)
  case 0
  then show ?case by (simp add: started_inv)
next
  case (Suc n)
  then have "sl_inv (bfs_sl (fill_bfs n))" "length (entries (bfs_sl (fill_bfs n))) = n" "n < NPROC"
    by simp_all
  then show ?case
    using slInsert_room [of "fill_bfs n" "int n" "int n + 1" CHANCE]
    by (metis fill_bfs.simps(2) length_entry_insert option.sel snd_conv)
qed

theorem slInsert_rejects_witness:
  "\<exists>b'. slInsert 7 7 CHANCE (fill_bfs NPROC) = Some (-1, b') \<and>
     length (entries (bfs_sl b')) = NPROC"
  using slInsert_rejects [of "fill_bfs NPROC" 7 7 CHANCE] fill_bfs_inv [of NPROC] by auto

text \<open>C18: \<^verbatim>\<open>initSkipList\<close> makes every list of the static size well formed and empty, whatever it held
  before, and gives the sentinel's level-0 link its null value.\<close>

theorem initSkipList_empties:
  assumes "length (sl_nodeList sl) = NPROC + 1"
  shows "sl_inv (initSkipList sl) \<and> entries (initSkipList sl) = [] \<and> sl_first (initSkipList sl) = None"
proof -
  have "sl_inv (initSkipList sl)" "entries (initSkipList sl) = []"
    using sl_rep_inv [OF initSkipList_rep [OF assms]] by (simp_all add: entries_of_def)
  then show ?thesis by (simp add: sl_first_entries)
qed

theorem initSkipList_empties_witness: "entries (initSkipList (bfs_sl three_bfs)) = []"
proof -
  have "length (sl_nodeList (bfs_sl three_bfs)) = NPROC + 1"
    using three_inv(1) sl_repD(1) by (auto simp: sl_inv_def sl_shape_def)
  from initSkipList_empties [OF this] show ?thesis by simp
qed


lemma printSkipList_level_outside:
  assumes "sl_shape sl" and "l < MAX_SKIPLIST_LEVEL"
    and "linked (fw sl l) (bw sl l) a ys"
    and "\<And>y. y \<in> set ys \<Longrightarrow> y < NPROC + 1 \<and> vd sl y = 1 \<and> vl sl y \<noteq> 0"
  shows "printSkipList_level sl l (fw sl l a) out = Some (Inl (-1))"
  using assms(3,4)
proof (induction ys arbitrary: a out)
  case Nil
  then show ?case
    by (subst printSkipList_level.simps) (simp add: node_def aref_def)
next
  case (Cons y ys)
  then have y: "y < NPROC + 1" "vd sl y = 1" "vl sl y \<noteq> 0" "fw sl l a = int y" by auto
  have "printSkipList_level sl l (fw sl l y) out' = Some (Inl (-1))" for out'
    using Cons by (intro Cons.IH) auto
  then show ?case
    using y assms(1,2) by (subst printSkipList_level.simps)
      (simp add: node_in get_forward_in vd_def vl_def)
qed

text \<open>C20: On a well-formed list in which no deadline is 0, the debug printer \<^verbatim>\<open>printSkipList\<close> runs off the
  end of the first level it prints: it reads the node at index -1 of \<^verbatim>\<open>nodeList\<close>.\<close>

theorem printSkipList_reads_outside:
  assumes "sl_inv sl" and "0 \<notin> fst ` set (entries sl)"
  shows "printSkipList sl = Some (Inl (-1))"
proof -
  obtain xs where rep: "sl_rep sl xs" and es: "entries sl = entries_of sl xs"
    using assms(1) by (rule sl_invE)
  note D = sl_repD [OF rep]
  define l where "l = nat (sl_level sl)"
  have l: "l < MAX_SKIPLIST_LEVEL" "sl_level sl = int l" using D(2,3) by (auto simp: l_def)
  have nz: "vl sl x \<noteq> 0" if "x \<in> set xs" for x
    using assms(2) that unfolding es entries_of_def by force
  have "printSkipList_level sl l (fw sl l 0) [] = Some (Inl (-1))"
    using D(6) nz by (intro printSkipList_level_outside [OF D(1) l(1) D(9) [OF l(1)]]) auto
  moreover have "get_forward sl 0 l = Some (fw sl l 0)"
    using get_forward_in [OF D(1), of 0 l] l(1) by simp
  moreover have "rev [0..<nat (int l + 1)] = l # rev [0..<l]"
    by (simp add: nat_add_distrib upt_Suc)
  ultimately show ?thesis by (simp add: printSkipList_def l(2))
qed

theorem printSkipList_reads_outside_witness:
  "printSkipList (bfs_sl three_bfs) = Some (Inl (-1))"
  using printSkipList_reads_outside [OF three_inv(1)] three_inv(2) by simp

end
