(* ===== verification/Kernel.thy ===== *)
theory Kernel
  imports Prelude
begin

text \<open>
  How kernel code is modelled: a computation takes the state of the machine and the moves of the
  rest of the system, and has one of the four outcomes below. The second argument is the list of
  states in which this thread gets the CPU again, one for every time it waits: a call that switches
  to the scheduler, or a failing round of a spin loop, takes the next one. With no state left the
  thread is still waiting, and the outcome is \<open>Block\<close>. So every interleaving is one list, and what a
  theorem has to know about the other threads is a hypothesis on the states in the list.
\<close>

section \<open>Computations\<close>

datatype ('a, 's) outcome =
    Ret 'a 's "'s list"    \<comment> \<open>returned\<close>
  | Panic string 's        \<comment> \<open>\<open>panic\<close> was called: the machine stops\<close>
  | Block 's               \<comment> \<open>waiting, in the state it has left\<close>
  | Undef                  \<comment> \<open>no defined result in C: outside an array, through a null pointer\<close>

type_synonym ('a, 's) kern = "'s \<Rightarrow> 's list \<Rightarrow> ('a, 's) outcome"

definition kret :: "'a \<Rightarrow> ('a, 's) kern" where
  "kret a s rs = Ret a s rs"

definition kbind :: "('a, 's) kern \<Rightarrow> ('a \<Rightarrow> ('b, 's) kern) \<Rightarrow> ('b, 's) kern" where
  "kbind m f s rs = (case m s rs of
       Ret a s' rs' \<Rightarrow> f a s' rs'
     | Panic msg s' \<Rightarrow> Panic msg s'
     | Block s' \<Rightarrow> Block s'
     | Undef \<Rightarrow> Undef)"

definition kseq :: "('a, 's) kern \<Rightarrow> ('b, 's) kern \<Rightarrow> ('b, 's) kern" where
  "kseq m m' = kbind m (\<lambda>_. m')"

definition kget :: "('s \<Rightarrow> ('a, 's) kern) \<Rightarrow> ('a, 's) kern" where
  "kget f s rs = f s s rs"

definition kmod :: "('s \<Rightarrow> 's) \<Rightarrow> (unit, 's) kern" where
  "kmod f s rs = Ret () (f s) rs"

definition panic :: "string \<Rightarrow> ('a, 's) kern" where
  "panic msg s rs = Panic msg s"

text \<open>A read that may fall outside its array.\<close>

definition kopt :: "'a option \<Rightarrow> ('a, 's) kern" where
  "kopt x s rs = (case x of None \<Rightarrow> Undef | Some a \<Rightarrow> Ret a s rs)"

definition kwhen :: "bool \<Rightarrow> (unit, 's) kern \<Rightarrow> (unit, 's) kern" where
  "kwhen b m = (if b then m else kret ())"

text \<open>Let the other threads run until this one is on again.\<close>

definition kwait :: "(unit, 's) kern" where
  "kwait s rs = (case rs of [] \<Rightarrow> Block s | r # rs' \<Rightarrow> Ret () r rs')"

primrec kfor :: "'i list \<Rightarrow> ('i \<Rightarrow> (unit, 's) kern) \<Rightarrow> (unit, 's) kern" where
  "kfor [] body = kret ()"
| "kfor (i # is) body = kseq (body i) (kfor is body)"

text \<open>
  A loop with a waiting point in its body. The body answers \<open>Some a\<close> to leave the loop with \<open>a\<close> and
  \<open>None\<close> to go round; a round that is not the last waits at least once, so one round more than there
  are states to come is enough.
\<close>

primrec kloop :: "nat \<Rightarrow> ('a option, 's) kern \<Rightarrow> ('a, 's) kern" where
  "kloop 0 body = (\<lambda>s rs. Undef)"
| "kloop (Suc n) body =
     kbind body (\<lambda>r. case r of Some a \<Rightarrow> kret a | None \<Rightarrow> kloop n body)"

definition kforever :: "('a option, 's) kern \<Rightarrow> ('a, 's) kern" where
  "kforever body s rs = kloop (Suc (length rs)) body s rs"

section \<open>Laws\<close>

named_theorems kern_simps

lemma kbind_simps [kern_simps, simp]:
  "m s rs = Ret a s' rs' \<Longrightarrow> kbind m f s rs = f a s' rs'"
  "m s rs = Panic msg s' \<Longrightarrow> kbind m f s rs = Panic msg s'"
  "m s rs = Block s' \<Longrightarrow> kbind m f s rs = Block s'"
  "m s rs = Undef \<Longrightarrow> kbind m f s rs = Undef"
  by (simp_all add: kbind_def)

lemma kbind_bool [kern_simps, simp]:
  "m s rs = Ret True s' rs' \<Longrightarrow> kbind m f s rs = f True s' rs'"
  "m s rs = Ret False s' rs' \<Longrightarrow> kbind m f s rs = f False s' rs'"
  by (simp_all add: kbind_def)

lemma kseq_simps [kern_simps, simp]:
  "m s rs = Ret a s' rs' \<Longrightarrow> kseq m m' s rs = m' s' rs'"
  "m s rs = Panic msg s' \<Longrightarrow> kseq m m' s rs = Panic msg s'"
  "m s rs = Block s' \<Longrightarrow> kseq m m' s rs = Block s'"
  "m s rs = Undef \<Longrightarrow> kseq m m' s rs = Undef"
  by (simp_all add: kseq_def)

lemma kprim_simps [kern_simps, simp]:
  "kret a s rs = Ret a s rs"
  "kget f s rs = f s s rs"
  "kmod g s rs = Ret () (g s) rs"
  "panic msg s rs = Panic msg s"
  "kopt None s rs = Undef"
  "kopt (Some a) s rs = Ret a s rs"
  "kwhen b m s rs = (if b then m s rs else Ret () s rs)"
  "kwait s [] = Block s"
  "kwait s (r # rs) = Ret () r rs"
  by (simp_all add: kret_def kget_def kmod_def panic_def kopt_def kwhen_def kwait_def)

lemma kbind_assoc: "kbind (kbind m f) g = kbind m (\<lambda>a. kbind (f a) g)"
  by (intro ext) (simp add: kbind_def split: outcome.split)

lemma kbind_ret [simp]: "kbind (kret a) f = f a" "kbind (Ret a) f = f a" "kseq (Ret a) m = m"
  by (intro ext, simp add: kbind_def kret_def kseq_def)+

lemma kbind_ret_right [simp]: "kbind m kret = m"
  by (intro ext) (simp add: kbind_def kret_def split: outcome.split)

lemma kbind_RetE:
  assumes "kbind m f s rs = Ret b s'' rs''"
  obtains a s' rs' where "m s rs = Ret a s' rs'" and "f a s' rs' = Ret b s'' rs''"
  using assms by (auto simp: kbind_def split: outcome.splits)

lemma kfor_append: "kfor (is @ js) body = kseq (kfor is body) (kfor js body)"
  by (induction "is") (auto simp: kseq_def kbind_assoc)

text \<open>
  \<open>wp m Q s rs\<close>: the computation returns, and its result satisfies \<open>Q\<close>; \<open>wlp\<close>: if it returns, the
  result satisfies \<open>Q\<close>, and it does not panic and has no undefined behaviour. The difference is a
  thread that is still waiting, for which \<open>wlp\<close> asks for \<open>B\<close>.
\<close>

definition wp :: "('a, 's) kern \<Rightarrow> ('a \<Rightarrow> 's \<Rightarrow> 's list \<Rightarrow> bool) \<Rightarrow> 's \<Rightarrow> 's list \<Rightarrow> bool" where
  "wp m Q s rs \<longleftrightarrow> (case m s rs of Ret a s' rs' \<Rightarrow> Q a s' rs' | _ \<Rightarrow> False)"

definition wlp ::
    "('a, 's) kern \<Rightarrow> ('s \<Rightarrow> bool) \<Rightarrow> ('a \<Rightarrow> 's \<Rightarrow> 's list \<Rightarrow> bool) \<Rightarrow> 's \<Rightarrow> 's list \<Rightarrow> bool" where
  "wlp m B Q s rs \<longleftrightarrow> (case m s rs of Ret a s' rs' \<Rightarrow> Q a s' rs' | Block s' \<Rightarrow> B s' | _ \<Rightarrow> False)"

named_theorems wp_simps

lemma wp_prims [wp_simps]:
  "wp (kret a) Q s rs \<longleftrightarrow> Q a s rs" "wp (Ret a) Q s rs \<longleftrightarrow> Q a s rs"
  "wp (kbind m f) Q s rs \<longleftrightarrow> wp m (\<lambda>a. wp (f a) Q) s rs"
  "wp (kseq m m') Q s rs \<longleftrightarrow> wp m (\<lambda>_. wp m' Q) s rs"
  "wp (kget g) Q s rs \<longleftrightarrow> wp (g s) Q s rs"
  "wp (kmod h) Q s rs \<longleftrightarrow> Q () (h s) rs"
  "wp (panic msg) Q s rs \<longleftrightarrow> False"
  "wp (kopt x) Q s rs \<longleftrightarrow> (\<exists>a. x = Some a \<and> Q a s rs)"
  "wp (kwhen b m) Q s rs \<longleftrightarrow> (if b then wp m Q s rs else Q () s rs)"
  "wp (if b then m else m'') Q s rs \<longleftrightarrow> (if b then wp m Q s rs else wp m'' Q s rs)"
  by (auto simp: wp_def kbind_def kseq_def kret_def kget_def kmod_def panic_def kopt_def kwhen_def
      split: outcome.splits option.splits)

lemma wlp_prims [wp_simps]:
  "wlp (kret a) B Q s rs \<longleftrightarrow> Q a s rs" "wlp (Ret a) B Q s rs \<longleftrightarrow> Q a s rs"
  "wlp (kbind m f) B Q s rs \<longleftrightarrow> wlp m B (\<lambda>a. wlp (f a) B Q) s rs"
  "wlp (kseq m m') B Q s rs \<longleftrightarrow> wlp m B (\<lambda>_. wlp m' B Q) s rs"
  "wlp (kget g) B Q s rs \<longleftrightarrow> wlp (g s) B Q s rs"
  "wlp (kmod h) B Q s rs \<longleftrightarrow> Q () (h s) rs"
  "wlp (panic msg) B Q s rs \<longleftrightarrow> False"
  "wlp (kopt x) B Q s rs \<longleftrightarrow> (\<exists>a. x = Some a \<and> Q a s rs)"
  "wlp (kwhen b m) B Q s rs \<longleftrightarrow> (if b then wlp m B Q s rs else Q () s rs)"
  "wlp kwait B Q s rs \<longleftrightarrow> (case rs of [] \<Rightarrow> B s | r # rs' \<Rightarrow> Q () r rs')"
  "wlp (if b then m else m'') B Q s rs \<longleftrightarrow> (if b then wlp m B Q s rs else wlp m'' B Q s rs)"
  by (auto simp: wlp_def kbind_def kseq_def kret_def kget_def kmod_def panic_def kopt_def kwhen_def
      kwait_def split: outcome.splits option.splits list.splits)

lemma wp_mono: "wp m Q s rs \<Longrightarrow> (\<And>a s' rs'. Q a s' rs' \<Longrightarrow> Q' a s' rs') \<Longrightarrow> wp m Q' s rs"
  by (auto simp: wp_def split: outcome.splits)

lemma wlp_mono:
  "wlp m B Q s rs \<Longrightarrow> (\<And>a s' rs'. Q a s' rs' \<Longrightarrow> Q' a s' rs') \<Longrightarrow> (\<And>s'. B s' \<Longrightarrow> B' s') \<Longrightarrow>
    wlp m B' Q' s rs"
  by (auto simp: wlp_def split: outcome.splits)

lemma wpE:
  assumes "wp m Q s rs"
  obtains a s' rs' where "m s rs = Ret a s' rs'" and "Q a s' rs'"
  using assms by (auto simp: wp_def split: outcome.splits)

lemma kfor_invariant:
  assumes "I (s, rs)" and "\<And>i s rs. i \<in> set is \<Longrightarrow> I (s, rs) \<Longrightarrow> wlp (body i) B (\<lambda>_ s' rs'. I (s', rs')) s rs"
  shows "wlp (kfor is body) B (\<lambda>_ s' rs'. I (s', rs')) s rs"
  using assms
proof (induction "is" arbitrary: s rs)
  case (Cons i "is")
  show ?case
    by (simp add: wp_simps) (rule wlp_mono [OF Cons.prems(2)], use Cons in auto)
qed (simp add: wp_simps)

section \<open>Loops that wait\<close>

text \<open>A round that goes on has consumed a state.\<close>

definition waits :: "('a option, 's) kern \<Rightarrow> bool" where
  "waits body \<longleftrightarrow> (\<forall>s rs s' rs'. body s rs = Ret None s' rs' \<longrightarrow> length rs' < length rs)"

lemma kloop_enough:
  assumes "waits body" and "length rs < n"
  shows "kloop n body s rs = kforever body s rs"
  using assms(2)
proof (induction "length rs" arbitrary: s rs n rule: less_induct)
  case less
  then obtain k where n: "n = Suc k" by (cases n) auto
  have "kloop k body s' rs' = kloop (length rs) body s' rs'" if "body s rs = Ret None s' rs'" for s' rs'
  proof -
    have lt: "length rs' < length rs" using assms(1) that by (simp add: waits_def)
    then show ?thesis
      using less.hyps [OF lt, of k] less.hyps [OF lt, of "length rs"] less.prems n by simp
  qed
  then show ?case
    by (simp add: n kforever_def kbind_def split: outcome.split option.split)
qed

text \<open>So the fuel never runs out, and the loop satisfies its equation.\<close>

lemma kforever_unfold:
  assumes "waits body"
  shows "kforever body s rs =
    kbind body (\<lambda>r. case r of Some a \<Rightarrow> kret a | None \<Rightarrow> kforever body) s rs"
proof -
  have "kloop (length rs) body s' rs' = kforever body s' rs'" if "body s rs = Ret None s' rs'" for s' rs'
    using assms that by (intro kloop_enough) (auto simp: waits_def)
  then show ?thesis
    by (simp add: kforever_def [of body s rs] kbind_def split: outcome.split option.split)
qed

lemma kforever_induct:
  assumes "waits body" and "I s rs"
    and "\<And>s rs. I s rs \<Longrightarrow> wlp body B (\<lambda>r s' rs'. case r of None \<Rightarrow> I s' rs' | Some a \<Rightarrow> Q a s' rs') s rs"
  shows "wlp (kforever body) B Q s rs"
  using assms(2)
proof (induction "length rs" arbitrary: s rs rule: less_induct)
  case less
  have step: "wlp body B (\<lambda>r s' rs'. case r of None \<Rightarrow> I s' rs' | Some a \<Rightarrow> Q a s' rs') s rs"
    using assms(3) less.prems by blast
  show ?case
  proof (cases "body s rs")
    case (Ret r s' rs')
    show ?thesis
    proof (cases r)
      case None
      then have "length rs' < length rs" "I s' rs'"
        using Ret assms(1) step by (auto simp: waits_def wlp_def)
      then show ?thesis
        using less.hyps Ret None kforever_unfold [OF assms(1), of s rs] by (simp add: wlp_def)
    next
      case (Some a)
      then show ?thesis
        using Ret step kforever_unfold [OF assms(1), of s rs] by (simp add: wlp_def)
    qed
  qed (use step kforever_unfold [OF assms(1), of s rs] in \<open>simp_all add: wlp_def\<close>)
qed

section \<open>Waiting uses up states\<close>

text \<open>No computation makes the list of states to come longer.\<close>

definition shrinks :: "('a, 's) kern \<Rightarrow> bool" where
  "shrinks m \<longleftrightarrow> (\<forall>s rs a s' rs'. m s rs = Ret a s' rs' \<longrightarrow> length rs' \<le> length rs)"

named_theorems shrinks_intros

lemma shrinks_prims [shrinks_intros]:
  "shrinks (kret a)" "shrinks (Ret a)" "shrinks (kmod f)" "shrinks (panic msg)" "shrinks (kopt x)" "shrinks kwait"
  "shrinks (\<lambda>s rs. Undef)" "shrinks (\<lambda>s rs. Block (g s))"
  by (auto simp: shrinks_def kret_def kmod_def panic_def kopt_def kwait_def split: option.splits list.splits)

lemma shrinksD: "shrinks m \<Longrightarrow> m s rs = Ret a s' rs' \<Longrightarrow> length rs' \<le> length rs"
  by (simp add: shrinks_def)

lemma shrinks_bind [shrinks_intros]:
  assumes "shrinks m" and "\<And>a. shrinks (f a)"
  shows "shrinks (kbind m f)"
  unfolding shrinks_def
proof (intro allI impI)
  fix s rs b s' rs'
  assume "kbind m f s rs = Ret b s' rs'"
  then obtain a s1 rs1 where 1: "m s rs = Ret a s1 rs1" "f a s1 rs1 = Ret b s' rs'" by (rule kbind_RetE)
  show "length rs' \<le> length rs" using shrinksD [OF assms(1) 1(1)] shrinksD [OF assms(2) 1(2)] by simp
qed

lemma shrinks_seq [shrinks_intros]: "shrinks m \<Longrightarrow> shrinks m' \<Longrightarrow> shrinks (kseq m m')"
  by (simp add: kseq_def shrinks_bind)

lemma shrinks_get [shrinks_intros]: "(\<And>s. shrinks (f s)) \<Longrightarrow> shrinks (kget f)"
  by (simp add: shrinks_def kget_def)

lemma shrinks_branch [shrinks_intros]:
  "(b \<Longrightarrow> shrinks m) \<Longrightarrow> (\<not> b \<Longrightarrow> shrinks m') \<Longrightarrow> shrinks (if b then m else m')"
  "(b \<Longrightarrow> shrinks u) \<Longrightarrow> shrinks (kwhen b u)"
  "shrinks n0 \<Longrightarrow> (\<And>x. shrinks (f x)) \<Longrightarrow> shrinks (case y of None \<Rightarrow> n0 | Some x \<Rightarrow> f x)"
  "(\<And>x y. shrinks (g x y)) \<Longrightarrow> shrinks (case p of (x, y) \<Rightarrow> g x y)"
  "(\<And>z. shrinks (h z)) \<Longrightarrow> shrinks (let z = w in h z)"
  by (auto simp: kwhen_def intro: shrinks_prims split: option.split prod.split)

lemma shrinks_for [shrinks_intros]: "(\<And>i. shrinks (body i)) \<Longrightarrow> shrinks (kfor is body)"
  by (induction "is") (auto intro: shrinks_prims shrinks_seq)

lemma shrinks_loop: "shrinks body \<Longrightarrow> shrinks (kloop n body)"
  by (induction n) (auto intro!: shrinks_intros)

lemma shrinks_forever [shrinks_intros]: "shrinks body \<Longrightarrow> shrinks (kforever body)"
  using shrinks_loop [of body] by (simp add: shrinks_def kforever_def del: kloop.simps)

text \<open>A loop whose body waits, whatever else it does, goes round finitely often.\<close>

lemma waits_body:
  assumes "shrinks m" and "shrinks m'"
  shows "waits (kseq m (kseq kwait m'))"
  unfolding waits_def
proof (intro allI impI)
  fix s rs s' rs'
  assume "kseq m (kseq kwait m') s rs = Ret None s' rs'"
  then obtain a s1 rs1 where 1: "m s rs = Ret a s1 rs1" "kseq kwait m' s1 rs1 = Ret None s' rs'"
    unfolding kseq_def by (rule kbind_RetE)
  then obtain r rs2 where 2: "rs1 = r # rs2" "m' r rs2 = Ret None s' rs'"
    by (cases rs1) auto
  show "length rs' < length rs"
    using shrinksD [OF assms(1) 1(1)] shrinksD [OF assms(2) 2(2)] 2(1) by simp
qed

text \<open>A computation that never returns without having waited.\<close>

definition strict :: "('a, 's) kern \<Rightarrow> bool" where
  "strict m \<longleftrightarrow> (\<forall>s rs a s' rs'. m s rs = Ret a s' rs' \<longrightarrow> length rs' < length rs)"

lemma strictD: "strict m \<Longrightarrow> m s rs = Ret a s' rs' \<Longrightarrow> length rs' < length rs"
  by (simp add: strict_def)

lemma strict_prims: "strict kwait" "strict (panic msg)" "strict (\<lambda>s rs. Undef)"
  by (auto simp: strict_def kwait_def panic_def split: list.splits)

lemma strict_bind1:
  assumes "strict m" and "\<And>a. shrinks (f a)"
  shows "strict (kbind m f)"
  unfolding strict_def
proof (intro allI impI)
  fix s rs b s' rs'
  assume "kbind m f s rs = Ret b s' rs'"
  then obtain a s1 rs1 where 1: "m s rs = Ret a s1 rs1" "f a s1 rs1 = Ret b s' rs'" by (rule kbind_RetE)
  show "length rs' < length rs" using strictD [OF assms(1) 1(1)] shrinksD [OF assms(2) 1(2)] by simp
qed

lemma strict_bind2:
  assumes "shrinks m" and "\<And>a. strict (f a)"
  shows "strict (kbind m f)"
  unfolding strict_def
proof (intro allI impI)
  fix s rs b s' rs'
  assume "kbind m f s rs = Ret b s' rs'"
  then obtain a s1 rs1 where 1: "m s rs = Ret a s1 rs1" "f a s1 rs1 = Ret b s' rs'" by (rule kbind_RetE)
  show "length rs' < length rs" using shrinksD [OF assms(1) 1(1)] strictD [OF assms(2) 1(2)] by simp
qed

lemma strict_seq1: "strict m \<Longrightarrow> shrinks m' \<Longrightarrow> strict (kseq m m')"
  and strict_seq2: "shrinks m \<Longrightarrow> strict m' \<Longrightarrow> strict (kseq m m')"
  by (simp_all add: kseq_def strict_bind1 strict_bind2)

lemma strict_get: "(\<And>s. strict (f s)) \<Longrightarrow> strict (kget f)"
  by (simp add: strict_def kget_def)

lemma strict_branch:
  "(b \<Longrightarrow> strict m) \<Longrightarrow> (\<not> b \<Longrightarrow> strict m') \<Longrightarrow> strict (if b then m else m')"
  "strict n0 \<Longrightarrow> (\<And>x. strict (f x)) \<Longrightarrow> strict (case y of None \<Rightarrow> n0 | Some x \<Rightarrow> f x)"
  "(\<And>z. strict (h z)) \<Longrightarrow> strict (let z = w in h z)"
  by (auto split: option.split)

lemma strict_shrinks: "strict m \<Longrightarrow> shrinks m"
  by (auto simp: strict_def shrinks_def intro: less_imp_le)

text \<open>The body of a waiting loop leaves it or waits.\<close>

lemma waits_strict: "strict m \<Longrightarrow> waits m"
  by (simp add: strict_def waits_def)

lemma waits_leave: "waits (kret (Some a))" "waits (Ret (Some a))"
  by (simp_all add: waits_def kret_def)

lemma waits_branch: "waits m \<Longrightarrow> waits m' \<Longrightarrow> waits (if b then m else m')"
  by simp

lemma waits_get: "(\<And>s. waits (f s)) \<Longrightarrow> waits (kget f)"
  by (simp add: waits_def kget_def)

lemma waits_bind:
  assumes "shrinks m" and "\<And>a. waits (f a)"
  shows "waits (kbind m f)"
  unfolding waits_def
proof (intro allI impI)
  fix s rs s' rs'
  assume "kbind m f s rs = Ret None s' rs'"
  then obtain a s1 rs1 where 1: "m s rs = Ret a s1 rs1" "f a s1 rs1 = Ret None s' rs'" by (rule kbind_RetE)
  then have "length rs' < length rs1" using assms(2) [of a] by (simp add: waits_def)
  then show "length rs' < length rs" using shrinksD [OF assms(1) 1(1)] by simp
qed

lemma waits_seq: "shrinks m \<Longrightarrow> waits m' \<Longrightarrow> waits (kseq m m')"
  by (simp add: kseq_def waits_bind)

end
