(* ===== verification/Memory.thy ===== *)
theory Memory
  imports Prelude
begin

unbundle bit_operations_syntax

text \<open>
  Memory is a function from 32-bit addresses to bytes; words are stored little endian, as the x86
  does. On top of it the functions of \<^verbatim>\<open>string.c\<close>, and what they leave in memory.
\<close>

type_synonym addr = "32 word"
type_synonym mem = "32 word \<Rightarrow> 8 word"

section \<open>Words in memory\<close>

definition load32 :: "mem \<Rightarrow> addr \<Rightarrow> 32 word" where
  "load32 m a = ucast (m a) OR push_bit 8 (ucast (m (a + 1)))
     OR push_bit 16 (ucast (m (a + 2))) OR push_bit 24 (ucast (m (a + 3)))"

definition store32 :: "addr \<Rightarrow> 32 word \<Rightarrow> mem \<Rightarrow> mem" where
  "store32 a w m = m(a := ucast w, a + 1 := ucast (drop_bit 8 w),
     a + 2 := ucast (drop_bit 16 w), a + 3 := ucast (drop_bit 24 w))"

section \<open>The functions of string.c\<close>

primrec stosb :: "nat \<Rightarrow> addr \<Rightarrow> 8 word \<Rightarrow> mem \<Rightarrow> mem" where
  "stosb 0 a b m = m"
| "stosb (Suc n) a b m = stosb n (a + 1) b (m(a := b))"

primrec stosl :: "nat \<Rightarrow> addr \<Rightarrow> 32 word \<Rightarrow> mem \<Rightarrow> mem" where
  "stosl 0 a w m = m"
| "stosl (Suc n) a w m = stosl n (a + 4) w (store32 a w m)"

definition memset :: "addr \<Rightarrow> 32 word \<Rightarrow> 32 word \<Rightarrow> mem \<Rightarrow> mem" where
  "memset dst c n m =
     (if dst mod 4 = 0 \<and> n mod 4 = 0
      then (let c = c AND 0xFF
            in stosl (unat (n div 4)) dst (push_bit 24 c OR push_bit 16 c OR push_bit 8 c OR c) m)
      else stosb (unat n) dst (ucast c) m)"

primrec memcmp_loop :: "nat \<Rightarrow> addr \<Rightarrow> addr \<Rightarrow> mem \<Rightarrow> int" where
  "memcmp_loop 0 s1 s2 m = 0"
| "memcmp_loop (Suc n) s1 s2 m =
     (if m s1 \<noteq> m s2 then uint (m s1) - uint (m s2) else memcmp_loop n (s1 + 1) (s2 + 1) m)"

definition memcmp :: "addr \<Rightarrow> addr \<Rightarrow> 32 word \<Rightarrow> mem \<Rightarrow> int" where
  "memcmp v1 v2 n m = memcmp_loop (unat n) v1 v2 m"

primrec copy_up :: "nat \<Rightarrow> addr \<Rightarrow> addr \<Rightarrow> mem \<Rightarrow> mem" where
  "copy_up 0 d s m = m"
| "copy_up (Suc n) d s m = copy_up n (d + 1) (s + 1) (m(d := m s))"

primrec copy_down :: "nat \<Rightarrow> addr \<Rightarrow> addr \<Rightarrow> mem \<Rightarrow> mem" where
  "copy_down 0 d s m = m"
| "copy_down (Suc n) d s m = copy_down n (d - 1) (s - 1) (m(d - 1 := m (s - 1)))"

definition memmove :: "addr \<Rightarrow> addr \<Rightarrow> 32 word \<Rightarrow> mem \<Rightarrow> mem" where
  "memmove dst src n m =
     (if src < dst \<and> src + n > dst
      then copy_down (unat n) (dst + n) (src + n) m
      else copy_up (unat n) dst src m)"

definition memcpy :: "addr \<Rightarrow> addr \<Rightarrow> 32 word \<Rightarrow> mem \<Rightarrow> mem" where
  "memcpy dst src n m = memmove dst src n m"

primrec strncmp_loop :: "nat \<Rightarrow> addr \<Rightarrow> addr \<Rightarrow> mem \<Rightarrow> int" where
  "strncmp_loop 0 p q m = 0"
| "strncmp_loop (Suc n) p q m =
     (if m p \<noteq> 0 \<and> m p = m q then strncmp_loop n (p + 1) (q + 1) m
      else uint (m p) - uint (m q))"

definition strncmp :: "addr \<Rightarrow> addr \<Rightarrow> 32 word \<Rightarrow> mem \<Rightarrow> int" where
  "strncmp p q n m = strncmp_loop (unat n) p q m"

primrec strncpy_loop :: "nat \<Rightarrow> addr \<Rightarrow> addr \<Rightarrow> mem \<Rightarrow> mem" where
  "strncpy_loop 0 s t m = m"
| "strncpy_loop (Suc n) s t m =
     (let m' = m(s := m t)
      in if m t \<noteq> 0 then strncpy_loop n (s + 1) (t + 1) m' else stosb n (s + 1) 0 m')"

definition strncpy :: "addr \<Rightarrow> addr \<Rightarrow> int \<Rightarrow> mem \<Rightarrow> mem" where
  "strncpy s t n m = strncpy_loop (nat n) s t m"

primrec safestrcpy_loop :: "nat \<Rightarrow> addr \<Rightarrow> addr \<Rightarrow> mem \<Rightarrow> mem" where
  "safestrcpy_loop 0 s t m = m(s := 0)"
| "safestrcpy_loop (Suc n) s t m =
     (let m' = m(s := m t)
      in if m t \<noteq> 0 then safestrcpy_loop n (s + 1) (t + 1) m' else m'(s + 1 := 0))"

definition safestrcpy :: "addr \<Rightarrow> addr \<Rightarrow> int \<Rightarrow> mem \<Rightarrow> mem" where
  "safestrcpy s t n m = (if n \<le> 0 then m else safestrcpy_loop (nat (n - 1)) s t m)"

partial_function (option) strlen_from :: "addr \<Rightarrow> int \<Rightarrow> mem \<Rightarrow> int option" where
  [code]: "strlen_from s n m =
     (if m (s + of_int n) \<noteq> 0 then strlen_from s (n + 1) m else Some n)"

definition strlen :: "addr \<Rightarrow> mem \<Rightarrow> int option" where
  "strlen s m = strlen_from s 0 m"

section \<open>Lemmas\<close>

lemma unat_lt_32: "unat (a :: 32 word) < 2 ^ 32"
  using unsigned_less [of a] by simp

lemma unat_Suc_word:
  "unat (a :: 32 word) + Suc n \<le> 2 ^ 32 \<Longrightarrow> 0 < n \<Longrightarrow> unat (a + 1) = Suc (unat a)"
  by (simp add: unat_word_ariths)

lemma unat_plus_diff:
  fixes a d s :: "32 word"
  assumes "unat d \<le> unat a" and "unat s + (unat a - unat d) < 2 ^ 32"
  shows "unat (s + (a - d)) = unat s + (unat a - unat d)"
proof -
  have "unat (a - d) = unat a - unat d"
    using assms(1) by (simp add: unat_sub word_le_nat_alt)
  then show ?thesis using assms(2) by (simp add: unat_word_ariths)
qed

lemma word_unat_eqI: "unat a = unat b \<Longrightarrow> a = (b :: 'a::len word)"
  by (simp add: word_unat_eq_iff)

lemma stosb_spec:
  assumes "unat a + n \<le> 2 ^ 32"
  shows "stosb n a b m x = (if unat a \<le> unat x \<and> unat x < unat a + n then b else m x)"
  using assms
proof (induction n arbitrary: a m)
  case (Suc n)
  show ?case
  proof (cases "n = 0")
    case True
    then show ?thesis by (auto simp: unat_arith_simps)
  next
    case False
    then have "unat (a + 1) = Suc (unat a)" using Suc.prems by (intro unat_Suc_word) auto
    then show ?thesis using Suc by (auto simp: unat_arith_simps)
  qed
qed auto

lemma copy_up_spec:
  assumes "unat d + n \<le> 2 ^ 32" and "unat s + n \<le> 2 ^ 32"
    and "unat d \<le> unat s \<or> unat s + n \<le> unat d"
  shows "copy_up n d s m a =
    (if unat d \<le> unat a \<and> unat a < unat d + n then m (s + (a - d)) else m a)"
  using assms
proof (induction n arbitrary: d s m)
  case (Suc n)
  show ?case
  proof (cases "n = 0")
    case True
    then show ?thesis by (auto simp: le_less_Suc_eq dest: word_unat_eqI)
  next
    case False
    then have d: "unat (d + 1) = Suc (unat d)" and s: "unat (s + 1) = Suc (unat s)"
      using Suc.prems by (auto intro!: unat_Suc_word)
    have IH: "copy_up n (d + 1) (s + 1) (m(d := m s)) a =
        (if unat (d + 1) \<le> unat a \<and> unat a < unat (d + 1) + n
         then (m(d := m s)) (s + 1 + (a - (d + 1))) else (m(d := m s)) a)"
      using Suc.prems d s by (intro Suc.IH) auto
    have eq: "s + 1 + (a - (d + 1)) = s + (a - d)" by simp
    have "s + (a - d) \<noteq> d" if "unat d < unat a" "unat a < unat d + Suc n"
    proof -
      have "unat (s + (a - d)) = unat s + (unat a - unat d)"
        using that Suc.prems by (intro unat_plus_diff) auto
      then have "unat (s + (a - d)) \<noteq> unat d" using that Suc.prems by arith
      then show ?thesis by metis
    qed
    then show ?thesis
      using IH d by (auto simp: eq Suc_le_eq order.order_iff_strict dest: word_unat_eqI)
  qed
qed auto

lemma copy_down_spec:
  assumes "unat d + n \<le> 2 ^ 32" and "unat s + n \<le> 2 ^ 32" and "unat s \<le> unat d"
  shows "copy_down n (d + of_nat n) (s + of_nat n) m a =
    (if unat d \<le> unat a \<and> unat a < unat d + n then m (s + (a - d)) else m a)"
  using assms
proof (induction n arbitrary: m)
  case (Suc n)
  have top: "unat (d + of_nat n) = unat d + n"
    using Suc.prems by (simp add: unat_word_ariths unat_of_nat)
  have IH: "copy_down n (d + of_nat n) (s + of_nat n) m' a =
      (if unat d \<le> unat a \<and> unat a < unat d + n then m' (s + (a - d)) else m' a)" for m'
    using Suc.prems by (intro Suc.IH) auto
  have step: "copy_down (Suc n) (d + of_nat (Suc n)) (s + of_nat (Suc n)) m a =
      copy_down n (d + of_nat n) (s + of_nat n) (m(d + of_nat n := m (s + of_nat n))) a"
    by (simp add: algebra_simps)
  consider "a = d + of_nat n" | "unat d \<le> unat a" "unat a < unat d + n" 
    | "a \<noteq> d + of_nat n" "\<not> (unat d \<le> unat a \<and> unat a < unat d + Suc n)"
    using top by (metis add_Suc_right less_Suc_eq word_unat_eqI)
  then show ?case
  proof cases
    case 1
    then show ?thesis using top unfolding step IH by simp
  next
    case 2
    have "unat (s + (a - d)) = unat s + (unat a - unat d)"
      using 2 Suc.prems by (intro unat_plus_diff) auto
    then have "unat (s + (a - d)) \<noteq> unat (d + of_nat n)" using 2 Suc.prems top by arith
    then have "s + (a - d) \<noteq> d + of_nat n" by metis
    then show ?thesis using 2 unfolding step IH by simp
  next
    case 3
    then show ?thesis unfolding step IH by auto
  qed
qed auto

lemma load_store [simp]: "load32 (store32 a w m) a = w"
proof -
  have "a \<noteq> a + 1" "a \<noteq> a + 2" "a \<noteq> a + 3" "a + 1 \<noteq> a + 2" "a + 1 \<noteq> a + 3" "a + 2 \<noteq> a + 3"
    by simp_all
  then have "load32 (store32 a w m) a =
      ucast (ucast w :: 8 word) OR push_bit 8 (ucast (ucast (drop_bit 8 w) :: 8 word))
      OR push_bit 16 (ucast (ucast (drop_bit 16 w) :: 8 word))
      OR push_bit 24 (ucast (ucast (drop_bit 24 w) :: 8 word))"
    unfolding load32_def store32_def by simp
  also have "\<dots> = w"
  proof (rule bit_word_eqI)
    fix n assume "n < LENGTH(32)"
    then consider "n < 8" | "8 \<le> n" "n < 16" | "16 \<le> n" "n < 24" | "24 \<le> n" "n < 32"
      by fastforce
    then show "bit (ucast (ucast w :: 8 word) OR push_bit 8 (ucast (ucast (drop_bit 8 w) :: 8 word))
        OR push_bit 16 (ucast (ucast (drop_bit 16 w) :: 8 word))
        OR push_bit 24 (ucast (ucast (drop_bit 24 w) :: 8 word)) :: 32 word) n = bit w n"
      by cases (auto simp: bit_simps)
  qed
  finally show ?thesis .
qed

lemma load_store_other:
  assumes "4 \<le> unat (b - a)" and "4 \<le> unat (a - b)"
  shows "load32 (store32 a w m) b = load32 m b"
proof -
  have ne: "b + i \<noteq> a + j" if "i \<in> {0, 1, 2, 3}" "j \<in> {0, 1, 2, 3}" for i j :: "32 word"
  proof
    assume "b + i = a + j"
    then have "b - a = j - i" "a - b = i - j" by (simp_all add: algebra_simps)
    then show False using assms that by auto
  qed
  show ?thesis
    using ne [of 0 0] ne [of 0 1] ne [of 0 2] ne [of 0 3] ne [of 1 0] ne [of 1 1] ne [of 1 2] ne [of 1 3]
      ne [of 2 0] ne [of 2 1] ne [of 2 2] ne [of 2 3] ne [of 3 0] ne [of 3 1] ne [of 3 2] ne [of 3 3]
    unfolding load32_def store32_def by simp
qed

lemma store32_apply:
  "store32 a w m x = (if x = a then ucast w else if x = a + 1 then ucast (drop_bit 8 w)
     else if x = a + 2 then ucast (drop_bit 16 w) else if x = a + 3 then ucast (drop_bit 24 w)
     else m x)"
  by (simp add: store32_def)

lemma splat_bytes:
  fixes c :: "32 word"
  defines "c' \<equiv> c AND 0xFF"
  defines "w \<equiv> push_bit 24 c' OR push_bit 16 c' OR push_bit 8 c' OR c'"
  shows "(ucast w :: 8 word) = ucast c" and "(ucast (drop_bit 8 w) :: 8 word) = ucast c"
    and "(ucast (drop_bit 16 w) :: 8 word) = ucast c" and "(ucast (drop_bit 24 w) :: 8 word) = ucast c"
proof -
  have "c' = take_bit 8 c"
    by (simp add: c'_def take_bit_eq_mask mask_eq_exp_minus_1)
  then show "(ucast w :: 8 word) = ucast c" "(ucast (drop_bit 8 w) :: 8 word) = ucast c"
    "(ucast (drop_bit 16 w) :: 8 word) = ucast c" "(ucast (drop_bit 24 w) :: 8 word) = ucast c"
    by (auto simp: w_def bit_simps intro!: bit_word_eqI)
qed

lemma stosl_stosb:
  assumes "\<And>m a. store32 a w m = stosb 4 a b m"
  shows "stosl n a w m = stosb (4 * n) a b m"
proof (induction n arbitrary: a m)
  case (Suc n)
  have add: "stosb (i + j) a b m = stosb j (a + of_nat i) b (stosb i a b m)" for i j a m
    by (induction i arbitrary: a m) (simp_all add: algebra_simps)
  have "4 * Suc n = 4 + 4 * n" by simp
  then show ?case using Suc assms by (simp add: add)
qed simp

lemma memset_stosb: "memset dst c n m = stosb (unat n) dst (ucast c) m"
proof (cases "dst mod 4 = 0 \<and> n mod 4 = 0")
  case True
  let ?c = "c AND 0xFF"
  let ?w = "push_bit 24 ?c OR push_bit 16 ?c OR push_bit 8 ?c OR ?c"
  have "store32 a ?w m = stosb 4 a (ucast c) m" for a m
    unfolding store32_def splat_bytes by (simp add: eval_nat_numeral algebra_simps)
  from stosl_stosb [of ?w "ucast c", OF this]
  have "memset dst c n m = stosb (4 * unat (n div 4)) dst (ucast c) m"
    using True by (simp add: memset_def Let_def)
  moreover have "4 * unat (n div 4) = unat n"
  proof -
    have "unat (n mod 4) = unat n mod 4" "unat (n div 4) = unat n div 4"
      by (simp_all add: unat_mod_distrib unat_div_distrib)
    then show ?thesis using True by auto
  qed
  ultimately show ?thesis by simp
next
  case False
  then show ?thesis unfolding memset_def by (rule if_not_P)
qed

lemma of_nat_32_inj: "i < 2 ^ 32 \<Longrightarrow> j < 2 ^ 32 \<Longrightarrow> (of_nat i :: 32 word) = of_nat j \<longleftrightarrow> i = j"
  by (simp add: word_unat_eq_iff unat_of_nat)

lemma safestrcpy_loop_frame:
  "(\<And>i. i \<le> n \<Longrightarrow> x \<noteq> s + of_nat i) \<Longrightarrow> safestrcpy_loop n s t m x = m x"
proof (induction n arbitrary: s t m)
  case 0
  then show ?case using 0 [of 0] by simp
next
  case (Suc n)
  have "x \<noteq> s" "x \<noteq> s + 1" using Suc.prems [of 0] Suc.prems [of 1] by auto
  moreover have "x \<noteq> s + 1 + of_nat i" if "i \<le> n" for i
    using Suc.prems [of "Suc i"] that by (simp add: algebra_simps)
  ultimately show ?case using Suc.IH by (simp add: Let_def)
qed

lemma safestrcpy_loop_spec:
  assumes "n < 2 ^ 32 - 1" and "\<And>i j. i \<le> n \<Longrightarrow> j \<le> n \<Longrightarrow> t + of_nat i \<noteq> s + of_nat j"
  shows "\<exists>k\<le>n. safestrcpy_loop n s t m (s + of_nat k) = 0 \<and>
    (\<forall>i<k. safestrcpy_loop n s t m (s + of_nat i) = m (t + of_nat i) \<and> m (t + of_nat i) \<noteq> 0) \<and>
    (k < n \<longrightarrow> m (t + of_nat k) = 0)"
  using assms
proof (induction n arbitrary: s t m)
  case (Suc n)
  let ?m = "m(s := m t)"
  have out: "s \<noteq> s + 1 + of_nat i" if "i \<le> n" for i
    using of_nat_32_inj [of 0 "Suc i"] that Suc.prems(1) by (auto simp: algebra_simps)
  show ?case
  proof (cases "m t = 0")
    case True
    then show ?thesis by (intro exI [of _ 0]) (simp add: Let_def)
  next
    case False
    have sep: "t + 1 + of_nat i \<noteq> s + 1 + of_nat j" if "i \<le> n" "j \<le> n" for i j
      using Suc.prems(2) [of "Suc i" "Suc j"] that by (simp add: algebra_simps)
    have "n < 2 ^ 32 - 1" using Suc.prems(1) by simp
    from Suc.IH [OF this sep, of ?m] obtain k where k: "k \<le> n" "safestrcpy_loop n (s + 1) (t + 1) ?m (s + 1 + of_nat k) = 0"
        "\<forall>i<k. safestrcpy_loop n (s + 1) (t + 1) ?m (s + 1 + of_nat i) = ?m (t + 1 + of_nat i)
           \<and> ?m (t + 1 + of_nat i) \<noteq> 0"
        "k < n \<longrightarrow> ?m (t + 1 + of_nat k) = 0"
      by blast
    have same: "?m (t + 1 + of_nat i) = m (t + of_nat (Suc i))" if "i \<le> n" for i
      using Suc.prems(2) [of "Suc i" 0] that by (simp add: algebra_simps)
    have first: "safestrcpy_loop n (s + 1) (t + 1) ?m s = m t"
      by (subst safestrcpy_loop_frame) (use out in auto)
    have "safestrcpy_loop (Suc n) s t m (s + of_nat i) = m (t + of_nat i) \<and> m (t + of_nat i) \<noteq> 0"
      if "i < Suc k" for i
      using that False first k(1,3) same by (cases i) (auto simp: Let_def algebra_simps)
    then show ?thesis
      using False k same by (intro exI [of _ "Suc k"]) (auto simp: Let_def algebra_simps)
  qed
qed simp

lemma memmove_spec:
  assumes "unat dst + unat n \<le> 2 ^ 32" and "unat src + unat n < 2 ^ 32"
  shows "memmove dst src n m a =
    (if unat dst \<le> unat a \<and> unat a < unat dst + unat n then m (src + (a - dst)) else m a)"
proof (cases "src < dst \<and> src + n > dst")
  case True
  have "unat (src + n) = unat src + unat n" using assms(2) by (simp add: unat_word_ariths)
  then have lt: "unat src < unat dst" "unat dst < unat src + unat n"
    using True by (simp_all add: word_less_nat_alt)
  have "memmove dst src n m a = copy_down (unat n) (dst + of_nat (unat n)) (src + of_nat (unat n)) m a"
    using True by (simp add: memmove_def)
  also have "\<dots> = (if unat dst \<le> unat a \<and> unat a < unat dst + unat n then m (src + (a - dst)) else m a)"
    using assms lt by (intro copy_down_spec) auto
  finally show ?thesis .
next
  case False
  have "unat (src + n) = unat src + unat n" using assms(2) by (simp add: unat_word_ariths)
  then have "unat dst \<le> unat src \<or> unat src + unat n \<le> unat dst"
    using False by (auto simp: word_less_nat_alt)
  moreover have "memmove dst src n m a = copy_up (unat n) dst src m a"
    using False unfolding memmove_def by auto
  ultimately show ?thesis
    using assms by (simp add: copy_up_spec)
qed

section \<open>Properties\<close>

text \<open>C21: \<^verbatim>\<open>memmove\<close> copies as if through a buffer of its own: every destination byte gets the byte the
  source range held before the call, whatever the overlap of the two ranges, and nothing else
  changes. The ranges must not run past the end of the address space, and where they overlap the
  source must end below it, since \<^verbatim>\<open>s + n > d\<close> is compared after wrapping.\<close>

theorem memmove_copies:
  assumes "unat dst + unat n \<le> 2 ^ 32" and "unat src + unat n < 2 ^ 32"
  shows "memmove dst src n m a =
    (if unat dst \<le> unat a \<and> unat a < unat dst + unat n then m (src + (a - dst)) else m a)"
  using assms by (rule memmove_spec)

theorem memmove_copies_witness:
  "memmove 102 100 4 (\<lambda>a. ucast a) 104 = 102 \<and> memmove 100 102 4 (\<lambda>a. ucast a) 101 = 103"
  using memmove_copies [of 102 4 100 "\<lambda>a. ucast a" 104]
    memmove_copies [of 100 4 102 "\<lambda>a. ucast a" 101] by simp

text \<open>C22: \<^verbatim>\<open>safestrcpy\<close> always terminates its result inside the buffer: there is a position before the
  n-th with a 0, everything in front of it is the source string, the copy stops short only at the
  end of the source, and no byte outside the buffer changes.\<close>

theorem safestrcpy_terminates:
  assumes "0 < n" and "n < 2 ^ 32"
    and "\<And>i j. i < nat n \<Longrightarrow> j < nat n \<Longrightarrow> t + of_nat i \<noteq> s + of_nat j"
  shows "\<exists>k<nat n. safestrcpy s t n m (s + of_nat k) = 0 \<and>
    (\<forall>i<k. safestrcpy s t n m (s + of_nat i) = m (t + of_nat i) \<and> m (t + of_nat i) \<noteq> 0) \<and>
    (k < nat n - 1 \<longrightarrow> m (t + of_nat k) = 0) \<and>
    (\<forall>x. (\<forall>i<nat n. x \<noteq> s + of_nat i) \<longrightarrow> safestrcpy s t n m x = m x)"
proof -
  let ?k = "nat (n - 1)"
  have n: "nat n = Suc ?k" using assms(1) by simp
  have eq: "safestrcpy s t n m = safestrcpy_loop ?k s t m" using assms(1) by (simp add: safestrcpy_def)
  have "?k < 2 ^ 32 - 1" using assms(1,2) by simp
  moreover have "t + of_nat i \<noteq> s + of_nat j" if "i \<le> ?k" "j \<le> ?k" for i j
    using assms(3) [of i j] that n by simp
  ultimately obtain k where "k \<le> ?k" "safestrcpy_loop ?k s t m (s + of_nat k) = 0"
      "\<forall>i<k. safestrcpy_loop ?k s t m (s + of_nat i) = m (t + of_nat i) \<and> m (t + of_nat i) \<noteq> 0"
      "k < ?k \<longrightarrow> m (t + of_nat k) = 0"
    using safestrcpy_loop_spec [of ?k t s m] by blast
  moreover have "safestrcpy_loop ?k s t m x = m x" if "\<forall>i<nat n. x \<noteq> s + of_nat i" for x
    using that n by (intro safestrcpy_loop_frame) auto
  ultimately show ?thesis
    unfolding eq using n by (intro exI [of _ k]) auto
qed

lemma four_cases: "i < 4 \<Longrightarrow> i = 0 \<or> i = 1 \<or> i = 2 \<or> i = (3::nat)"
  by auto

theorem safestrcpy_terminates_witness:
  "\<exists>k<nat 4. safestrcpy 100 200 4 (\<lambda>a. 7) (100 + of_nat k) = 0"
proof -
  have "\<And>i j. i < nat 4 \<Longrightarrow> j < nat 4 \<Longrightarrow> 200 + of_nat i \<noteq> (100 :: 32 word) + of_nat j"
    by (auto dest!: four_cases)
  then show ?thesis
    using safestrcpy_terminates [of 4 200 100 "\<lambda>a. 7"] by auto
qed

end
