(* ===== verification/Spinlock.thy ===== *)
theory Spinlock
  imports Kernel Memory
begin

unbundle bit_operations_syntax

text \<open>
  The per-CPU state and the spin locks: \<^verbatim>\<open>struct cpu\<close> of \<^verbatim>\<open>proc.h\<close>, \<^verbatim>\<open>struct spinlock\<close>, \<^verbatim>\<open>mycpu\<close>,
  \<^verbatim>\<open>cpuid\<close> and \<^verbatim>\<open>myproc\<close> of \<^verbatim>\<open>proc.c\<close>, and all of \<^verbatim>\<open>spinlock.c\<close>. The record \<open>machine\<close> is the
  bottom of the kernel state; the components above extend it. Mutual exclusion among several CPUs
  is shown on a step relation in which every access to the lock is a step of its own.
\<close>

section \<open>State\<close>

text \<open>The locks of the kernel: the static ones, one in each pipe and one inside each sleep lock.\<close>

datatype lockid =
    LPtable | LKmem | LTicks | LBcache | LLog | LIcache | LFtable | LCons | LIde
  | LPipe addr | LInode nat | LBuf nat

record spinlock =
  lk_locked :: "32 word"
  lk_name :: string
  lk_cpu :: "nat option"
  lk_pcs :: "32 word list"

record cpu =
  c_apicid :: "8 word"
  c_ncli :: int
  c_intena :: int
  c_proc :: "nat option"

text \<open>
  \<open>m_cpus\<close> holds the first \<^verbatim>\<open>ncpu\<close> elements of \<^verbatim>\<open>cpus\<close>. The executing CPU's local APIC id, its
  interrupt flag and the address \<^verbatim>\<open>&lk\<close> of its current argument slot are \<open>m_lapicid\<close>, \<open>m_if\<close> and
  \<open>m_args\<close>.
\<close>

record machine =
  m_cpus :: "cpu list"
  m_lapicid :: "8 word"
  m_if :: bool
  m_args :: addr
  m_mem :: mem
  m_locks :: "lockid \<Rightarrow> spinlock"

definition FL_IF :: int where
  "FL_IF = 512"

definition KERNBASE :: addr where
  "KERNBASE = 0x80000000"

section \<open>The current CPU\<close>

text \<open>Panic messages that end in a newline.\<close>

definition nl :: "string \<Rightarrow> string" where
  "nl msg = msg @ [CHR 0x0A]"

definition mycpu :: "(nat, 'a machine_scheme) kern" where
  "mycpu = kget (\<lambda>s.
     if m_if s then panic (nl ''mycpu called with interrupts enabled'')
     else (case List.find (\<lambda>i. c_apicid (m_cpus s ! i) = m_lapicid s) [0..<length (m_cpus s)] of
             Some i \<Rightarrow> kret i
           | None \<Rightarrow> panic (nl ''unknown apicid'')))"

definition cpuid :: "(nat, 'a machine_scheme) kern" where
  "cpuid = mycpu"

definition up_cpu :: "nat \<Rightarrow> (cpu \<Rightarrow> cpu) \<Rightarrow> 'a machine_scheme \<Rightarrow> 'a machine_scheme" where
  "up_cpu c f s = s\<lparr>m_cpus := (m_cpus s)[c := f (m_cpus s ! c)]\<rparr>"

definition pushcli :: "(unit, 'a machine_scheme) kern" where
  "pushcli = kget (\<lambda>s. let eflags = (if m_if s then FL_IF else 0) in
     kseq (kmod (\<lambda>s. s\<lparr>m_if := False\<rparr>)) (
     kbind mycpu (\<lambda>c.
     kseq (kget (\<lambda>s. kwhen (c_ncli (m_cpus s ! c) = 0)
       (kbind mycpu (\<lambda>c. kmod (up_cpu c (\<lambda>k. k\<lparr>c_intena := eflags\<rparr>)))))) (
     kbind mycpu (\<lambda>c. kmod (up_cpu c (\<lambda>k. k\<lparr>c_ncli := c_ncli k + 1\<rparr>)))))))"

definition popcli :: "(unit, 'a machine_scheme) kern" where
  "popcli = kget (\<lambda>s.
     if m_if s then panic ''popcli - interruptible'' else
     kbind mycpu (\<lambda>c.
     kseq (kmod (up_cpu c (\<lambda>k. k\<lparr>c_ncli := c_ncli k - 1\<rparr>))) (
     kget (\<lambda>s. if c_ncli (m_cpus s ! c) < 0 then panic ''popcli'' else
     kbind mycpu (\<lambda>c. kget (\<lambda>s.
       kwhen (c_ncli (m_cpus s ! c) = 0 \<and> c_intena (m_cpus s ! c) \<noteq> 0)
         (kmod (\<lambda>s. s\<lparr>m_if := True\<rparr>))))))))"

definition myproc :: "(nat option, 'a machine_scheme) kern" where
  "myproc =
     kseq pushcli (
     kbind mycpu (\<lambda>c.
     kget (\<lambda>s. let p = c_proc (m_cpus s ! c) in
     kseq popcli (
     kret p))))"

section \<open>Locks\<close>

definition up_lock ::
    "lockid \<Rightarrow> (spinlock \<Rightarrow> spinlock) \<Rightarrow> 'a machine_scheme \<Rightarrow> 'a machine_scheme" where
  "up_lock l f s = s\<lparr>m_locks := (m_locks s)(l := f (m_locks s l))\<rparr>"

definition initlock :: "lockid \<Rightarrow> string \<Rightarrow> (unit, 'a machine_scheme) kern" where
  "initlock l name = kmod (up_lock l (\<lambda>k. k\<lparr>lk_name := name, lk_locked := 0, lk_cpu := None\<rparr>))"

primrec callerpcs_loop :: "nat \<Rightarrow> addr \<Rightarrow> mem \<Rightarrow> 32 word list" where
  "callerpcs_loop 0 ebp m = []"
| "callerpcs_loop (Suc n) ebp m =
     (if ebp = 0 \<or> ebp < KERNBASE \<or> ebp = 0xffffffff then replicate (Suc n) 0
      else load32 m (ebp + 4) # callerpcs_loop n (load32 m ebp) m)"

definition getcallerpcs :: "addr \<Rightarrow> mem \<Rightarrow> 32 word list" where
  "getcallerpcs v m = callerpcs_loop 10 (v - 8) m"

definition holding :: "lockid \<Rightarrow> (bool, 'a machine_scheme) kern" where
  "holding l =
     kseq pushcli (
     kbind mycpu (\<lambda>c.
     kget (\<lambda>s. let r = (lk_locked (m_locks s l) \<noteq> 0 \<and> lk_cpu (m_locks s l) = Some c) in
     kseq popcli (
     kret r))))"

text \<open>
  One \<^verbatim>\<open>xchg(&lk->locked, 1)\<close>: leave the loop if the lock was free, else let the others run.
\<close>

definition acquire_spin :: "lockid \<Rightarrow> (unit option, 'a machine_scheme) kern" where
  "acquire_spin l = kget (\<lambda>s. let old = lk_locked (m_locks s l) in
     kseq (kmod (up_lock l (\<lambda>k. k\<lparr>lk_locked := 1\<rparr>))) (
     if old \<noteq> 0 then kseq kwait (kret None) else kret (Some ())))"

definition acquire :: "lockid \<Rightarrow> (unit, 'a machine_scheme) kern" where
  "acquire l =
     kseq pushcli (
     kbind (holding l) (\<lambda>h. if h then panic ''acquire'' else
     kseq (kforever (acquire_spin l)) (
     kbind mycpu (\<lambda>c.
     kmod (\<lambda>s. up_lock l (\<lambda>k. k\<lparr>lk_cpu := Some c, lk_pcs := getcallerpcs (m_args s) (m_mem s)\<rparr>) s)))))"

definition release :: "lockid \<Rightarrow> (unit, 'a machine_scheme) kern" where
  "release l =
     kbind (holding l) (\<lambda>h. if \<not> h then panic ''release'' else
     kseq (kmod (up_lock l (\<lambda>k. k\<lparr>lk_pcs := (lk_pcs k)[0 := 0], lk_cpu := None\<rparr>))) (
     kseq (kmod (up_lock l (\<lambda>k. k\<lparr>lk_locked := 0\<rparr>)))
     popcli))"

section \<open>The effect of each operation\<close>

text \<open>The executing CPU is one of \<^verbatim>\<open>cpus\<close>, and interrupts are off while it is nested.\<close>

definition self :: "'a machine_scheme \<Rightarrow> nat option" where
  "self s = List.find (\<lambda>i. c_apicid (m_cpus s ! i) = m_lapicid s) [0..<length (m_cpus s)]"

definition mine :: "'a machine_scheme \<Rightarrow> nat" where
  "mine s = the (self s)"

definition ncli :: "'a machine_scheme \<Rightarrow> int" where
  "ncli s = c_ncli (m_cpus s ! mine s)"

definition cpu_ok :: "'a machine_scheme \<Rightarrow> bool" where
  "cpu_ok s \<longleftrightarrow> self s \<noteq> None \<and> 0 \<le> ncli s \<and> (0 < ncli s \<longrightarrow> \<not> m_if s)"

definition holds :: "lockid \<Rightarrow> 'a machine_scheme \<Rightarrow> bool" where
  "holds l s \<longleftrightarrow> lk_locked (m_locks s l) \<noteq> 0 \<and> lk_cpu (m_locks s l) = Some (mine s)"

definition pushed :: "'a machine_scheme \<Rightarrow> 'a machine_scheme" where
  "pushed s = up_cpu (mine s) (\<lambda>k. k\<lparr>c_ncli := c_ncli k + 1,
     c_intena := (if c_ncli k = 0 then (if m_if s then FL_IF else 0) else c_intena k)\<rparr>)
     (s\<lparr>m_if := False\<rparr>)"

definition popped :: "'a machine_scheme \<Rightarrow> 'a machine_scheme" where
  "popped s = up_cpu (mine s) (\<lambda>k. k\<lparr>c_ncli := c_ncli k - 1\<rparr>)
     (s\<lparr>m_if := ncli s = 1 \<and> c_intena (m_cpus s ! mine s) \<noteq> 0\<rparr>)"

definition acquired :: "lockid \<Rightarrow> 'a machine_scheme \<Rightarrow> 'a machine_scheme" where
  "acquired l s = up_lock l (\<lambda>k. k\<lparr>lk_locked := 1, lk_cpu := Some (mine s),
     lk_pcs := getcallerpcs (m_args s) (m_mem s)\<rparr>) (pushed s)"

definition released :: "lockid \<Rightarrow> 'a machine_scheme \<Rightarrow> 'a machine_scheme" where
  "released l s = popped (up_lock l (\<lambda>k. k\<lparr>lk_pcs := (lk_pcs k)[0 := 0], lk_cpu := None,
     lk_locked := 0\<rparr>) s)"

lemma self_lt: "self s = Some c \<Longrightarrow> c < length (m_cpus s) \<and> c_apicid (m_cpus s ! c) = m_lapicid s"
  by (auto simp: self_def find_Some_iff)

lemma mine_lt: "self s \<noteq> None \<Longrightarrow> mine s < length (m_cpus s)"
  using self_lt [of s] by (auto simp: mine_def)

lemma self_cong:
  "length (m_cpus s') = length (m_cpus s) \<Longrightarrow> m_lapicid s' = m_lapicid s \<Longrightarrow>
    (\<And>i. i < length (m_cpus s) \<Longrightarrow> c_apicid (m_cpus s' ! i) = c_apicid (m_cpus s ! i)) \<Longrightarrow>
    self s' = self s"
  unfolding self_def by (intro find_cong) auto

lemma self_up_cpu [simp]: "(\<And>k. c_apicid (f k) = c_apicid k) \<Longrightarrow> self (up_cpu c f s) = self s"
  by (rule self_cong; cases "c < length (m_cpus s)")
    (auto simp: up_cpu_def nth_list_update list_update_beyond)

lemma self_upd [simp]:
  "self (s\<lparr>m_if := b\<rparr>) = self s" "self (up_lock l g s) = self s"
  by (simp_all add: self_def up_lock_def)

lemma mine_upd [simp]:
  "(\<And>k. c_apicid (f k) = c_apicid k) \<Longrightarrow> mine (up_cpu c f s) = mine s"
  "mine (s\<lparr>m_if := b\<rparr>) = mine s" "mine (up_lock l g s) = mine s"
  by (simp_all add: mine_def)

lemma mycpu_run:
  "self s \<noteq> None \<Longrightarrow> \<not> m_if s \<Longrightarrow> mycpu s rs = Ret (mine s) s rs"
  by (auto simp: mycpu_def self_def mine_def split: option.split)

lemma up_cpu_fields [simp]:
  "m_if (up_cpu c f s) = m_if s" "m_locks (up_cpu c f s) = m_locks s"
  "m_mem (up_cpu c f s) = m_mem s" "m_args (up_cpu c f s) = m_args s"
  "length (m_cpus (up_cpu c f s)) = length (m_cpus s)"
  "m_if (up_lock l g s) = m_if s" "m_cpus (up_lock l g s) = m_cpus s"
  "m_mem (up_lock l g s) = m_mem s" "m_args (up_lock l g s) = m_args s"
  "m_locks (up_lock l g s) = (m_locks s)(l := g (m_locks s l))"
  by (simp_all add: up_cpu_def up_lock_def)

lemma up_cpu_nth [simp]:
  "c < length (m_cpus s) \<Longrightarrow> m_cpus (up_cpu c f s) ! c = f (m_cpus s ! c)"
  "m_cpus (s\<lparr>m_if := b\<rparr>) = m_cpus s"
  by (simp_all add: up_cpu_def)

lemma up_cpu_twice:
  "c < length (m_cpus s) \<Longrightarrow> up_cpu c g (up_cpu c f s) = up_cpu c (\<lambda>k. g (f k)) s"
  by (simp add: up_cpu_def)

lemma up_cpu_if: "up_cpu c f (s\<lparr>m_if := b\<rparr>) = (up_cpu c f s)\<lparr>m_if := b\<rparr>"
  by (simp add: up_cpu_def)

lemma upd_swap:
  "k\<lparr>c_intena := a, c_ncli := b\<rparr> = k\<lparr>c_ncli := b, c_intena := a\<rparr>"
  "m_if s \<Longrightarrow> s\<lparr>m_if := True, m_cpus := cs\<rparr> = s\<lparr>m_cpus := cs\<rparr>"
  "\<not> m_if s \<Longrightarrow> s\<lparr>m_if := False, m_cpus := cs\<rparr> = s\<lparr>m_cpus := cs\<rparr>"
  "c_ncli k = n \<Longrightarrow> k\<lparr>c_ncli := n, c_intena := a\<rparr> = k\<lparr>c_intena := a\<rparr>"
  by simp_all

lemma pushcli_run:
  assumes "self s \<noteq> None"
  shows "pushcli s rs = Ret () (pushed s) rs"
proof -
  have lt: "mine s < length (m_cpus s)" using assms by (rule mine_lt)
  show ?thesis
    using assms lt
    by (cases "c_ncli (m_cpus s ! mine s) = 0")
      (simp_all add: pushcli_def Let_def mycpu_run up_cpu_twice pushed_def,
       simp_all add: up_cpu_def upd_swap)
qed

lemma popcli_run:
  assumes "self s \<noteq> None" and "\<not> m_if s" and "0 < ncli s"
  shows "popcli s rs = Ret () (popped s) rs"
proof -
  have lt: "mine s < length (m_cpus s)" using assms(1) by (rule mine_lt)
  show ?thesis
    using assms lt
    by (simp add: popcli_def mycpu_run popped_def ncli_def) (simp add: up_cpu_def)
qed


text \<open>\<open>pushcli\<close> and \<open>popcli\<close> are matched.\<close>

lemma pushed_fields [simp]:
  "self (pushed s) = self s" "mine (pushed s) = mine s" "\<not> m_if (pushed s)"
  "m_locks (pushed s) = m_locks s" "m_mem (pushed s) = m_mem s" "m_args (pushed s) = m_args s"
  "length (m_cpus (pushed s)) = length (m_cpus s)"
  by (simp_all add: pushed_def)

lemma ncli_pushed [simp]: "self s \<noteq> None \<Longrightarrow> ncli (pushed s) = ncli s + 1"
  using mine_lt [of s] by (simp add: ncli_def pushed_def)

lemma popped_fields [simp]:
  "self (popped s) = self s" "mine (popped s) = mine s"
  "m_locks (popped s) = m_locks s" "m_mem (popped s) = m_mem s" "m_args (popped s) = m_args s"
  "length (m_cpus (popped s)) = length (m_cpus s)"
  by (simp_all add: popped_def)

lemma ncli_popped [simp]: "self s \<noteq> None \<Longrightarrow> ncli (popped s) = ncli s - 1"
  using mine_lt [of s] by (simp add: ncli_def popped_def)

lemma popped_pushed:
  assumes "cpu_ok s"
  shows "popped (pushed s) = (if 0 < ncli s then s
     else up_cpu (mine s) (\<lambda>k. k\<lparr>c_intena := if m_if s then FL_IF else 0\<rparr>) s)"
proof -
  have lt: "mine s < length (m_cpus s)" using assms mine_lt by (auto simp: cpu_ok_def)
  have n: "ncli s = c_ncli (m_cpus s ! mine s)" by (simp add: ncli_def)
  have np: "ncli (pushed s) = c_ncli (m_cpus s ! mine s) + 1"
    using assms by (simp add: cpu_ok_def n)
  show ?thesis
  proof (cases "0 < ncli s")
    case True
    then show ?thesis
      using lt assms np unfolding popped_def
      by (simp add: cpu_ok_def n pushed_def) (simp add: up_cpu_def)
  next
    case False
    then have "c_ncli (m_cpus s ! mine s) = 0" using assms by (simp add: cpu_ok_def n)
    then show ?thesis
      using lt np unfolding popped_def
      by (simp add: n pushed_def FL_IF_def) (simp add: up_cpu_def upd_swap FL_IF_def)
  qed
qed

lemma holding_popped:
  assumes "cpu_ok s"
  shows "holding l s rs = Ret (holds l s) (popped (pushed s)) rs"
proof -
  have "self s \<noteq> None" using assms(1) by (simp add: cpu_ok_def)
  moreover have "popcli (pushed s) rs = Ret () (popped (pushed s)) rs"
    using assms calculation by (intro popcli_run) (auto simp: cpu_ok_def)
  ultimately show ?thesis
    using assms by (simp add: holding_def pushcli_run mycpu_run holds_def Let_def)
qed

lemma holding_run:
  assumes "cpu_ok s" and "0 < ncli s"
  shows "holding l s rs = Ret (holds l s) s rs"
  using assms by (simp add: holding_popped popped_pushed)

lemma cpu_ok_pushed [simp]: "cpu_ok s \<Longrightarrow> cpu_ok (pushed s)"
  by (auto simp: cpu_ok_def)

lemma holds_pushed [simp]: "holds l (pushed s) = holds l s"
  by (simp add: holds_def)


lemma waits_acquire_spin: "waits (acquire_spin l)"
proof (unfold waits_def, intro allI impI)
  fix s s' :: "'a machine_scheme" and rs rs'
  assume "acquire_spin l s rs = Ret None s' rs'"
  then show "length rs' < length rs"
    by (cases rs) (auto simp: acquire_spin_def Let_def kseq_def kbind_def split: if_splits)
qed

lemma acquire_spin_free:
  assumes "lk_locked (m_locks s l) = 0"
  shows "kforever (acquire_spin l) s rs = Ret () (up_lock l (\<lambda>k. k\<lparr>lk_locked := 1\<rparr>) s) rs"
  using assms by (subst kforever_unfold [OF waits_acquire_spin]) (simp add: acquire_spin_def Let_def)

lemma acquire_run:
  assumes "cpu_ok s" and "lk_locked (m_locks s l) = 0"
  shows "acquire l s rs = Ret () (acquired l s) rs"
proof -
  have s: "self s \<noteq> None" "0 < ncli (pushed s)" "\<not> holds l s"
    using assms by (auto simp: cpu_ok_def holds_def)
  have up: "up_lock l g (up_lock l f s') = up_lock l (\<lambda>k. g (f k)) s'" for g f and s' :: "'a machine_scheme"
    by (simp add: up_lock_def)
  show ?thesis
    using assms s
    by (simp add: acquire_def pushcli_run holding_run acquire_spin_free mycpu_run acquired_def up)
qed

text \<open>
  A lock that another CPU has: the caller waits with its nesting opened, and goes on from the state
  in which it finds the lock free.
\<close>

lemma acquire_waits:
  assumes "cpu_ok s" and "lk_locked (m_locks s l) \<noteq> 0" and "\<not> holds l s"
  shows "acquire l s [] = Block (up_lock l (\<lambda>k. k\<lparr>lk_locked := 1\<rparr>) (pushed s))"
    and "cpu_ok r \<Longrightarrow> lk_locked (m_locks r l) = 0 \<Longrightarrow> acquire l s (pushed r # rs) = acquire l r rs"
proof -
  let ?spin = "kforever (acquire_spin l)"
  let ?own = "kbind mycpu (\<lambda>c. kmod (\<lambda>s. up_lock l
    (\<lambda>k. k\<lparr>lk_cpu := Some c, lk_pcs := getcallerpcs (m_args s) (m_mem s)\<rparr>) s))"
  have head: "acquire l t qs = kseq ?spin ?own (pushed t) qs" if "cpu_ok t" "\<not> holds l t" for t qs
  proof -
    have "self t \<noteq> None" "0 < ncli (pushed t)" using that(1) by (auto simp: cpu_ok_def)
    then show ?thesis using that by (simp add: acquire_def pushcli_run holding_run)
  qed
  note unfold = kforever_unfold [OF waits_acquire_spin]
  have "?spin (pushed s) [] = Block (up_lock l (\<lambda>k. k\<lparr>lk_locked := 1\<rparr>) (pushed s))"
    using assms(2) by (subst unfold) (simp add: acquire_spin_def Let_def kwait_def)
  then show "acquire l s [] = Block (up_lock l (\<lambda>k. k\<lparr>lk_locked := 1\<rparr>) (pushed s))"
    by (simp add: head [OF assms(1,3)])
  assume r: "cpu_ok r" "lk_locked (m_locks r l) = 0"
  then have nh: "\<not> holds l r" by (simp add: holds_def)
  have "?spin (pushed s) (pushed r # rs) = ?spin (pushed r) rs"
    using assms(2) by (subst unfold) (simp add: acquire_spin_def Let_def kwait_def)
  then show "acquire l s (pushed r # rs) = acquire l r rs"
    unfolding head [OF assms(1,3)] head [OF r(1) nh] by (simp add: kseq_def kbind_def)
qed


lemma release_run:
  assumes "cpu_ok s" and "0 < ncli s" and "holds l s"
  shows "release l s rs = Ret () (released l s) rs"
proof -
  let ?f = "\<lambda>k. k\<lparr>lk_pcs := (lk_pcs k)[0 := 0], lk_cpu := None\<rparr>"
  let ?s = "up_lock l (\<lambda>k. k\<lparr>lk_locked := 0\<rparr>) (up_lock l ?f s)"
  have "popcli ?s rs = Ret () (popped ?s) rs"
    using assms by (intro popcli_run) (auto simp: cpu_ok_def ncli_def)
  moreover have "?s = up_lock l (\<lambda>k. k\<lparr>lk_pcs := (lk_pcs k)[0 := 0], lk_cpu := None, lk_locked := 0\<rparr>) s"
    by (simp add: up_lock_def)
  ultimately show ?thesis
    using assms by (simp add: release_def holding_run released_def)
qed

text \<open>What a thread sees of the locks and of its nesting.\<close>

lemma acquired_fields [simp]:
  "self (acquired l s) = self s" "mine (acquired l s) = mine s" "\<not> m_if (acquired l s)"
  "m_mem (acquired l s) = m_mem s" "m_args (acquired l s) = m_args s"
  "length (m_cpus (acquired l s)) = length (m_cpus s)"
  by (simp_all add: acquired_def)

lemma ncli_up_lock [simp]: "ncli (up_lock l f s) = ncli s"
  by (simp add: ncli_def)

lemma acquired_ok [simp]:
  "cpu_ok s \<Longrightarrow> cpu_ok (acquired l s)"
  "self s \<noteq> None \<Longrightarrow> ncli (acquired l s) = ncli s + 1"
  "holds l' (acquired l s) \<longleftrightarrow> l' = l \<or> holds l' s"
  "lk_locked (m_locks (acquired l s) l') = (if l' = l then 1 else lk_locked (m_locks s l'))"
  by (auto simp: cpu_ok_def holds_def) (auto simp: acquired_def split: if_splits)

lemma released_fields [simp]:
  "self (released l s) = self s" "mine (released l s) = mine s"
  "m_mem (released l s) = m_mem s" "m_args (released l s) = m_args s"
  "length (m_cpus (released l s)) = length (m_cpus s)"
  by (simp_all add: released_def)

lemma released_ok [simp]:
  "self s \<noteq> None \<Longrightarrow> ncli (released l s) = ncli s - 1"
  "holds l' (released l s) \<longleftrightarrow> l' \<noteq> l \<and> holds l' s"
  "lk_locked (m_locks (released l s) l') = (if l' = l then 0 else lk_locked (m_locks s l'))"
  by (auto simp: released_def holds_def)

lemma cpu_ok_released [simp]: "cpu_ok s \<Longrightarrow> 0 < ncli s \<Longrightarrow> cpu_ok (released l s)"
  by (auto simp: cpu_ok_def) (auto simp: released_def popped_def)

text \<open>
  A critical section that leaves CPUs and locks alone leaves the thread, at its end, with the same
  nesting, interrupt flag and locks as before.
\<close>

definition same_locks :: "'a machine_scheme \<Rightarrow> 'a machine_scheme \<Rightarrow> bool" where
  "same_locks s s' \<longleftrightarrow> self s' = self s \<and> ncli s' = ncli s \<and> m_if s' = m_if s \<and>
     (\<forall>l. lk_locked (m_locks s' l) = lk_locked (m_locks s l) \<and> holds l s' = holds l s) \<and>
     (\<forall>c. c_proc (m_cpus s' ! c) = c_proc (m_cpus s ! c)) \<and>
     (0 < ncli s \<longrightarrow> c_intena (m_cpus s' ! mine s) = c_intena (m_cpus s ! mine s))"

lemma same_locks_refl [simp]: "same_locks s s"
  by (simp add: same_locks_def)

lemma same_locks_trans [trans]: "same_locks a b \<Longrightarrow> same_locks b c \<Longrightarrow> same_locks a c"
  by (auto simp: same_locks_def mine_def)

lemma same_locks_ok: "same_locks s s' \<Longrightarrow> cpu_ok s \<Longrightarrow> cpu_ok s'"
  by (simp add: same_locks_def cpu_ok_def)

lemma c_proc_up_cpu:
  "(\<And>k. c_proc (f k) = c_proc k) \<Longrightarrow> c_proc (m_cpus (up_cpu c f s) ! d) = c_proc (m_cpus s ! d)"
  by (cases "c < length (m_cpus s)") (auto simp: up_cpu_def nth_list_update list_update_beyond)

lemma c_intena_up_cpu:
  "(\<And>k. c_intena (f k) = c_intena k) \<Longrightarrow> c_intena (m_cpus (up_cpu c f s) ! d) = c_intena (m_cpus s ! d)"
  by (cases "c < length (m_cpus s)") (auto simp: up_cpu_def nth_list_update list_update_beyond)

lemma intena_pushed:
  assumes "self s \<noteq> None"
  shows "c_intena (m_cpus (pushed s) ! mine s)
    = (if ncli s = 0 then if m_if s then FL_IF else 0 else c_intena (m_cpus s ! mine s))"
  using mine_lt [OF assms] by (simp add: pushed_def ncli_def)

lemma same_locks_bracket:
  assumes ok: "cpu_ok s" and free: "lk_locked (m_locks s l) = 0" and same: "same_locks (acquired l s) t"
  shows "same_locks s (released l t)"
proof -
  have self: "self s \<noteq> None" using ok by (simp add: cpu_ok_def)
  have t: "self t = self s" "mine t = mine s" "ncli t = ncli s + 1" "\<not> m_if t"
    using same self by (simp_all add: same_locks_def mine_def)
  have "c_intena (m_cpus t ! mine s) = c_intena (m_cpus (acquired l s) ! mine s)"
    using same self ok by (simp add: same_locks_def cpu_ok_def)
  then have intena: "c_intena (m_cpus t ! mine s) =
      (if ncli s = 0 then if m_if s then FL_IF else 0 else c_intena (m_cpus s ! mine s))"
    using intena_pushed [OF self] by (simp add: acquired_def)
  have "\<not> holds l s" using free by (simp add: holds_def)
  then have "holds l' (released l t) \<longleftrightarrow> holds l' s" for l'
    using same by (auto simp: same_locks_def)
  moreover have "lk_locked (m_locks (released l t) l') = lk_locked (m_locks s l')" for l'
    using same free by (simp add: same_locks_def)
  moreover have "m_if (released l t) = m_if s"
  proof -
    have "m_if (released l t) \<longleftrightarrow> ncli t = 1 \<and> c_intena (m_cpus t ! mine t) \<noteq> 0"
      by (simp add: released_def popped_def)
    then show ?thesis using t intena ok by (auto simp: cpu_ok_def FL_IF_def)
  qed
  moreover have "c_proc (m_cpus (released l t) ! c) = c_proc (m_cpus s ! c)" for c
    using same by (simp add: same_locks_def released_def popped_def acquired_def pushed_def c_proc_up_cpu)
  moreover have "c_intena (m_cpus (released l t) ! mine s) = c_intena (m_cpus s ! mine s)" if "0 < ncli s"
    using that intena by (simp add: released_def popped_def c_intena_up_cpu)
  ultimately show ?thesis using t self by (simp add: same_locks_def)
qed

lemma same_locks_section:
  assumes ok: "cpu_ok s" and free: "lk_locked (m_locks s l) = 0"
    and cs: "m_cpus s1 = m_cpus (acquired l s)" "m_lapicid s1 = m_lapicid s"
    "m_if s1 = m_if (acquired l s)" "m_locks s1 = m_locks (acquired l s)"
  shows "same_locks s (released l s1)"
proof -
  have "m_lapicid (acquired l s) = m_lapicid s"
    by (simp add: acquired_def up_lock_def pushed_def up_cpu_def)
  then have "self s1 = self (acquired l s)" using cs self_cong [of s1 "acquired l s"] by simp
  then have "same_locks (acquired l s) s1"
    using cs by (simp add: same_locks_def holds_def ncli_def mine_def)
  then show ?thesis using ok free by (rule same_locks_bracket [rotated 2])
qed

text \<open>None of them hands states back.\<close>

lemma shrinks_locks [shrinks_intros]:
  "shrinks mycpu" "shrinks pushcli" "shrinks popcli" "shrinks (holding l)" "shrinks (acquire l)" "shrinks (release l)"
  "shrinks myproc"
proof -
  show 1: "shrinks mycpu" by (auto simp: mycpu_def intro!: shrinks_intros)
  show 2: "shrinks pushcli" by (auto simp: pushcli_def intro!: shrinks_intros 1)
  show 3: "shrinks popcli" by (auto simp: popcli_def intro!: shrinks_intros 1)
  show 4: "shrinks (holding l)" by (auto simp: holding_def intro!: shrinks_intros 1 2 3)
  have 5: "shrinks (acquire_spin l)" by (auto simp: acquire_spin_def intro!: shrinks_intros)
  show "shrinks (acquire l)" by (auto simp: acquire_def intro!: shrinks_intros 1 2 4 5)
  show "shrinks (release l)" by (auto simp: release_def intro!: shrinks_intros 3 4)
  show "shrinks myproc" unfolding myproc_def by (intro shrinks_intros 1 2 3)
qed

section \<open>Several CPUs at one lock\<close>

text \<open>
  Each CPU is at one of five places of \<^verbatim>\<open>acquire\<close> and \<^verbatim>\<open>release\<close>; a step is one access to the lock:
  the test by \<^verbatim>\<open>holding\<close>, the exchange, the store of the holder, and the two stores that give it up.
  The relation is a second reading of the two functions, for one lock, beside the definitions above:
  \<^verbatim>\<open>pushcli\<close> and \<^verbatim>\<open>popcli\<close>, which touch only the CPU itself, are left out, and a CPU whose test ends
  in a panic takes no step. The two reads of \<^verbatim>\<open>holding\<close> are one step, because only the CPU itself
  stores its own name in \<^verbatim>\<open>lk->cpu\<close> or takes it out again.
\<close>

datatype lock_pc = Out | Spin | Entering | Inside | Leaving

record smp =
  x_locked :: "32 word"
  x_cpu :: "nat option"
  x_pc :: "nat \<Rightarrow> lock_pc"

definition smp_holding :: "smp \<Rightarrow> nat \<Rightarrow> bool" where
  "smp_holding x c \<longleftrightarrow> x_locked x \<noteq> 0 \<and> x_cpu x = Some c"

inductive smp_step :: "smp \<Rightarrow> smp \<Rightarrow> bool" where
  start: "x_pc x c = Out \<Longrightarrow> \<not> smp_holding x c \<Longrightarrow> smp_step x (x\<lparr>x_pc := (x_pc x)(c := Spin)\<rparr>)"
| xchg_fail: "x_pc x c = Spin \<Longrightarrow> x_locked x \<noteq> 0 \<Longrightarrow> smp_step x (x\<lparr>x_locked := 1\<rparr>)"
| xchg_ok: "x_pc x c = Spin \<Longrightarrow> x_locked x = 0 \<Longrightarrow>
    smp_step x (x\<lparr>x_locked := 1, x_pc := (x_pc x)(c := Entering)\<rparr>)"
| set_cpu: "x_pc x c = Entering \<Longrightarrow>
    smp_step x (x\<lparr>x_cpu := Some c, x_pc := (x_pc x)(c := Inside)\<rparr>)"
| clear_cpu: "x_pc x c = Inside \<Longrightarrow> smp_holding x c \<Longrightarrow>
    smp_step x (x\<lparr>x_cpu := None, x_pc := (x_pc x)(c := Leaving)\<rparr>)"
| unlock: "x_pc x c = Leaving \<Longrightarrow>
    smp_step x (x\<lparr>x_locked := 0, x_pc := (x_pc x)(c := Out)\<rparr>)"

inductive_cases smp_stepE: "smp_step x x'"

definition smp_init :: smp where
  "smp_init = \<lparr>x_locked = 0, x_cpu = None, x_pc = (\<lambda>_. Out)\<rparr>"

definition owns :: "smp \<Rightarrow> nat \<Rightarrow> bool" where
  "owns x c \<longleftrightarrow> x_pc x c \<in> {Entering, Inside, Leaving}"

definition smp_inv :: "smp \<Rightarrow> bool" where
  "smp_inv x \<longleftrightarrow> (\<forall>c d. owns x c \<longrightarrow> owns x d \<longrightarrow> c = d) \<and>
     (x_locked x \<noteq> 0 \<longleftrightarrow> (\<exists>c. owns x c)) \<and> (\<forall>c. x_cpu x = Some c \<longleftrightarrow> x_pc x c = Inside)"

lemma smp_init_inv: "smp_inv smp_init"
  by (simp add: smp_inv_def smp_init_def owns_def)

lemma smp_step_inv:
  assumes "smp_step x x'" and "smp_inv x"
  shows "smp_inv x'"
  using assms
proof (cases rule: smp_step.cases)
  case (start c)
  then have "owns x' = owns x" "\<And>d. x_pc x' d = Inside \<longleftrightarrow> x_pc x d = Inside"
    by (auto simp: owns_def fun_eq_iff)
  then show ?thesis using start assms(2) by (simp add: smp_inv_def)
next
  case (xchg_fail c)
  then have "owns x' = owns x" by (auto simp: owns_def fun_eq_iff)
  then show ?thesis using xchg_fail assms(2) by (simp add: smp_inv_def)
next
  case (xchg_ok c)
  then have no: "\<not> owns x d" for d using assms(2) by (simp add: smp_inv_def)
  have "owns x' d \<longleftrightarrow> d = c" "x_pc x' d = Inside \<longleftrightarrow> x_pc x d = Inside" for d
    using xchg_ok no [of d] by (auto simp: owns_def)
  then show ?thesis using xchg_ok assms(2) by (simp add: smp_inv_def)
next
  case (set_cpu c)
  then have eq: "owns x' = owns x" by (auto simp: owns_def fun_eq_iff)
  have "x_pc x d \<noteq> Inside" for d
    using set_cpu(2) assms(2) unfolding smp_inv_def owns_def
    by (metis insertCI lock_pc.distinct(15))
  then have "x_pc x' d = Inside \<longleftrightarrow> d = c" for d using set_cpu by auto
  then show ?thesis using eq set_cpu assms(2) by (auto simp: smp_inv_def)
next
  case (clear_cpu c)
  then have eq: "owns x' = owns x" by (auto simp: owns_def fun_eq_iff)
  have "\<forall>d. x_cpu x = Some d \<longleftrightarrow> x_pc x d = Inside" using assms(2) by (simp add: smp_inv_def)
  then have "x_pc x d = Inside \<Longrightarrow> d = c" for d using clear_cpu(2) by (metis option.inject)
  moreover have "x_pc x' = (x_pc x)(c := Leaving)" using clear_cpu(1) by simp
  ultimately have "x_pc x' d \<noteq> Inside" for d by (metis fun_upd_apply lock_pc.distinct(19))
  then show ?thesis using eq clear_cpu assms(2) by (simp add: smp_inv_def)
next
  case (unlock c)
  then have own: "owns x d \<longleftrightarrow> d = c" for d using assms(2) by (auto simp: smp_inv_def owns_def)
  then have "\<not> owns x' d" for d using unlock by (auto simp: owns_def)
  moreover have "x_pc x' d = Inside \<longleftrightarrow> x_pc x d = Inside" for d using unlock by auto
  ultimately show ?thesis using unlock assms(2) by (simp add: smp_inv_def)
qed

lemma smp_reachable_inv: "smp_step\<^sup>*\<^sup>* smp_init x \<Longrightarrow> smp_inv x"
  by (induction rule: rtranclp_induct) (auto intro: smp_init_inv smp_step_inv)

section \<open>Properties\<close>

text \<open>C23: Mutual exclusion. Whatever the interleaving of the CPUs' accesses to the lock, two CPUs are
  never between the winning exchange of \<^verbatim>\<open>acquire\<close> and the last store of \<^verbatim>\<open>release\<close> at the same time, and
  \<^verbatim>\<open>holding\<close> is true exactly on the CPU that is in its critical section.\<close>

theorem spinlock_mutual_exclusion:
  assumes "smp_step\<^sup>*\<^sup>* smp_init x"
  shows "(owns x c \<and> owns x d \<longrightarrow> c = d) \<and> (smp_holding x c \<longleftrightarrow> x_pc x c = Inside)"
  using smp_reachable_inv [OF assms] by (auto simp: smp_inv_def smp_holding_def owns_def)

theorem spinlock_mutual_exclusion_witness:
  "smp_holding (smp_init\<lparr>x_locked := 1, x_pc := (\<lambda>_. Out)(0 := Inside), x_cpu := Some 0\<rparr>) 0"
proof -
  let ?x1 = "smp_init\<lparr>x_pc := (\<lambda>_. Out)(0 := Spin)\<rparr>"
  let ?x2 = "smp_init\<lparr>x_locked := 1, x_pc := (\<lambda>_. Out)(0 := Entering)\<rparr>"
  let ?x3 = "smp_init\<lparr>x_locked := 1, x_pc := (\<lambda>_. Out)(0 := Inside), x_cpu := Some 0\<rparr>"
  have "smp_step smp_init ?x1"
    using smp_step.start [of smp_init 0] by (simp add: smp_init_def smp_holding_def)
  moreover have "smp_step ?x1 ?x2"
    using smp_step.xchg_ok [of ?x1 0] by (simp add: smp_init_def)
  moreover have "smp_step ?x2 ?x3"
    using smp_step.set_cpu [of ?x2 0] by (simp add: smp_init_def)
  ultimately have "smp_step\<^sup>*\<^sup>* smp_init ?x3" by (meson converse_rtranclp_into_rtranclp rtranclp.rtrancl_refl)
  from spinlock_mutual_exclusion [OF this, of 0] show ?thesis by simp
qed

text \<open>C24: \<^verbatim>\<open>acquire\<close> of a free lock returns with the lock held and interrupts off; the matching \<^verbatim>\<open>release\<close>
  gives the lock up and brings the nesting depth and the interrupt flag back to what they were.\<close>

theorem acquire_release_restores:
  assumes "cpu_ok s" and "lk_locked (m_locks s l) = 0"
  shows "\<exists>s1 s2. acquire l s rs = Ret () s1 rs \<and> holds l s1 \<and> \<not> m_if s1 \<and> ncli s1 = ncli s + 1 \<and>
    release l s1 rs = Ret () s2 rs \<and> lk_locked (m_locks s2 l) = 0 \<and> ncli s2 = ncli s \<and>
    m_if s2 = m_if s"
proof -
  have self: "self s \<noteq> None" and n: "0 \<le> ncli s" using assms(1) by (auto simp: cpu_ok_def)
  have rel: "release l (acquired l s) rs = Ret () (released l (acquired l s)) rs"
    using assms n self by (intro release_run) auto
  have "m_if (released l (acquired l s)) \<longleftrightarrow>
      ncli s = 0 \<and> c_intena (m_cpus (pushed s) ! mine s) \<noteq> 0"
    using self by (simp add: released_def popped_def acquired_def)
  also have "\<dots> \<longleftrightarrow> m_if s"
    using assms(1) mine_lt [OF self] by (auto simp: pushed_def ncli_def cpu_ok_def FL_IF_def)
  finally show ?thesis
    using rel acquire_run [OF assms, of rs] self by auto
qed

definition one_cpu :: machine where
  "one_cpu = \<lparr>m_cpus = [\<lparr>c_apicid = 0, c_ncli = 0, c_intena = 0, c_proc = None\<rparr>],
     m_lapicid = 0, m_if = True, m_args = 0, m_mem = (\<lambda>_. 0),
     m_locks = (\<lambda>_. \<lparr>lk_locked = 0, lk_name = [], lk_cpu = None, lk_pcs = replicate 10 0\<rparr>)\<rparr>"

lemma one_cpu_ok: "cpu_ok one_cpu" "lk_locked (m_locks one_cpu l) = 0" "ncli one_cpu = 0"
  by (simp_all add: one_cpu_def cpu_ok_def self_def ncli_def mine_def)

theorem acquire_release_restores_witness:
  "\<exists>s1 s2. acquire LPtable one_cpu [] = Ret () s1 [] \<and> \<not> m_if s1 \<and>
     release LPtable s1 [] = Ret () s2 [] \<and> m_if s2"
  using acquire_release_restores [OF one_cpu_ok(1,2), of LPtable "[]"] by (auto simp: one_cpu_def)



end
