(* ===== verification/Kalloc.thy ===== *)
theory Kalloc
  imports Spinlock
begin

unbundle bit_operations_syntax

text \<open>
  The page allocator, \<^verbatim>\<open>kalloc.c\<close>, with the address macros of \<^verbatim>\<open>mmu.h\<close> and \<^verbatim>\<open>memlayout.h\<close>. The
  free pages are linked through their first word, in memory; \<open>free_list\<close> says which pages a list
  head leads to. The allocator is shown to be a stack of pages.
\<close>

section \<open>State and address arithmetic\<close>

text \<open>\<^verbatim>\<open>end\<close> and \<^verbatim>\<open>data\<close> are symbols that the linker places; they are part of the state.\<close>

record kstate = machine +
  km_use_lock :: int
  km_freelist :: addr
  km_end :: addr
  km_data :: addr

definition PGSIZE :: "32 word" where
  "PGSIZE = 4096"

definition PHYSTOP :: "32 word" where
  "PHYSTOP = 0xE000000"

definition PGROUNDUP :: "32 word \<Rightarrow> 32 word" where
  "PGROUNDUP sz = (sz + PGSIZE - 1) AND NOT (PGSIZE - 1)"

definition PGROUNDDOWN :: "32 word \<Rightarrow> 32 word" where
  "PGROUNDDOWN a = a AND NOT (PGSIZE - 1)"

definition V2P :: "addr \<Rightarrow> (32 word, 's) kern" where
  "V2P a = (if a < KERNBASE
     then panic ''V2P on address < KERNBASE (not a kernel virtual address; consider walking page table to determine physical address of a user virtual address)''
     else kret (a - KERNBASE))"

definition P2V :: "32 word \<Rightarrow> (addr, 's) kern" where
  "P2V a = (if a > KERNBASE then panic ''P2V on address > KERNBASE'' else kret (a + KERNBASE))"

section \<open>Operations\<close>

definition kfree :: "addr \<Rightarrow> (unit, 'a kstate_scheme) kern" where
  "kfree v = kget (\<lambda>s.
     if v mod PGSIZE \<noteq> 0 \<or> v < km_end s then panic ''kfree'' else
     kbind (V2P v) (\<lambda>pa. if pa \<ge> PHYSTOP then panic ''kfree'' else
     kseq (kmod (\<lambda>s. s\<lparr>m_mem := memset v 1 PGSIZE (m_mem s)\<rparr>)) (
     kseq (kget (\<lambda>s. kwhen (km_use_lock s \<noteq> 0) (acquire LKmem))) (
     kseq (kmod (\<lambda>s. s\<lparr>m_mem := store32 v (km_freelist s) (m_mem s)\<rparr>)) (
     kseq (kmod (\<lambda>s. s\<lparr>km_freelist := v\<rparr>)) (
     kget (\<lambda>s. kwhen (km_use_lock s \<noteq> 0) (release LKmem))))))))"

definition kalloc :: "(addr, 'a kstate_scheme) kern" where
  "kalloc =
     kseq (kget (\<lambda>s. kwhen (km_use_lock s \<noteq> 0) (acquire LKmem))) (
     kget (\<lambda>s. let r = km_freelist s in
     kseq (kwhen (r \<noteq> 0) (kmod (\<lambda>s. s\<lparr>km_freelist := load32 (m_mem s) r\<rparr>))) (
     kseq (kget (\<lambda>s. kwhen (km_use_lock s \<noteq> 0) (release LKmem))) (
     kret r))))"

text \<open>
  The loop stops when \<^verbatim>\<open>p + PGSIZE\<close> passes \<^verbatim>\<open>vend\<close>. Past the last page of the address space the sum
  wraps; \<^verbatim>\<open>kfree\<close> refuses that page, so the loop never goes round there.
\<close>

function freerange_loop :: "addr \<Rightarrow> addr \<Rightarrow> (unit, 'a kstate_scheme) kern" where
  "freerange_loop p vend =
     (if p + PGSIZE \<le> vend
      then kseq (kfree p)
        (if p < p + PGSIZE then freerange_loop (p + PGSIZE) vend else (\<lambda>s rs. Undef))
      else kret ())"
  by pat_completeness auto
termination
proof (relation "measure (\<lambda>(p, vend). 2 ^ 32 - unat p)", simp)
  fix p vend :: addr
  assume "p < p + PGSIZE"
  then have "unat p < unat (p + PGSIZE)" by (simp add: word_less_nat_alt)
  moreover have "unat (p + PGSIZE) < 2 ^ 32" using unsigned_less [of "p + PGSIZE"] by simp
  ultimately have "2 ^ 32 - unat (p + PGSIZE) < 2 ^ 32 - unat p" by linarith
  then show "((p + PGSIZE, vend), (p, vend)) \<in> measure (\<lambda>(p, vend). 2 ^ 32 - unat p)" by simp
qed

declare freerange_loop.simps [simp del]

definition freerange :: "addr \<Rightarrow> addr \<Rightarrow> (unit, 'a kstate_scheme) kern" where
  "freerange vstart vend =
     (if vend < vstart then panic ''freerange'' else freerange_loop (PGROUNDUP vstart) vend)"

definition kinit1 :: "addr \<Rightarrow> addr \<Rightarrow> (unit, 'a kstate_scheme) kern" where
  "kinit1 vstart vend =
     kseq (initlock LKmem ''kmem'') (
     kseq (kmod (\<lambda>s. s\<lparr>km_use_lock := 0\<rparr>))
     (freerange vstart vend))"

definition kinit2 :: "addr \<Rightarrow> addr \<Rightarrow> (unit, 'a kstate_scheme) kern" where
  "kinit2 vstart vend =
     kseq (freerange vstart vend) (
     kmod (\<lambda>s. s\<lparr>km_use_lock := 1\<rparr>))"

section \<open>The free list\<close>

text \<open>Following the first words of the pages from \<open>h\<close> visits exactly \<open>ps\<close>.\<close>

primrec free_list :: "mem \<Rightarrow> addr \<Rightarrow> addr list \<Rightarrow> bool" where
  "free_list m h [] \<longleftrightarrow> h = 0"
| "free_list m h (p # ps) \<longleftrightarrow> h = p \<and> p \<noteq> 0 \<and> free_list m (load32 m p) ps"

text \<open>A page that \<^verbatim>\<open>kfree\<close> accepts.\<close>

definition page_ok :: "'a kstate_scheme \<Rightarrow> addr \<Rightarrow> bool" where
  "page_ok s p \<longleftrightarrow> p mod PGSIZE = 0 \<and> km_end s \<le> p \<and> KERNBASE \<le> p \<and> p - KERNBASE < PHYSTOP"

definition kmem_inv :: "'a kstate_scheme \<Rightarrow> addr list \<Rightarrow> bool" where
  "kmem_inv s ps \<longleftrightarrow> free_list (m_mem s) (km_freelist s) ps \<and> distinct ps \<and> list_all (page_ok s) ps"

definition in_page :: "addr \<Rightarrow> addr \<Rightarrow> bool" where
  "in_page p a \<longleftrightarrow> unat p \<le> unat a \<and> unat a < unat p + 4096"

definition kmem_free :: "'a kstate_scheme \<Rightarrow> bool" where
  "kmem_free s \<longleftrightarrow> cpu_ok s \<and> (km_use_lock s \<noteq> 0 \<longrightarrow> lk_locked (m_locks s LKmem) = 0)"

lemma free_list_cong:
  "(\<And>p. p \<in> set ps \<Longrightarrow> load32 m' p = load32 m p) \<Longrightarrow> free_list m' h ps = free_list m h ps"
  by (induction ps arbitrary: h) auto

lemma free_list_unique: "free_list m h ps \<Longrightarrow> free_list m h qs \<Longrightarrow> ps = qs"
proof (induction ps arbitrary: h qs)
  case Nil
  then show ?case by (cases qs) auto
next
  case (Cons p ps)
  then show ?case by (cases qs) auto
qed

lemma page_top:
  assumes "p mod PGSIZE = 0"
  shows "unat p mod 4096 = 0" and "unat p + 4096 \<le> 2 ^ 32"
proof -
  have "unat (p mod 4096) = unat p mod 4096" by (simp add: unat_mod_distrib)
  then show 1: "unat p mod 4096 = 0" using assms by (simp add: PGSIZE_def)
  then have "unat p = 4096 * (unat p div 4096)" by auto
  moreover have "unat p < 4096 * 1048576" using unsigned_less [of p] by simp
  ultimately have "unat p div 4096 < 1048576" by linarith
  then show "unat p + 4096 \<le> 2 ^ 32" using 1 by auto
qed

lemma page_alignedI: "unat p mod 4096 = 0 \<Longrightarrow> p mod PGSIZE = 0"
  by (simp add: PGSIZE_def word_unat_eq_iff unat_mod_distrib)

lemma unat_rounddown: "unat (a AND NOT (PGSIZE - 1)) = unat a div 4096 * 4096"
proof -
  have "a AND NOT (mask 12) = push_bit 12 (drop_bit 12 a)"
    by (rule bit_word_eqI) (auto simp: bit_simps)
  then have eq: "a AND NOT (PGSIZE - 1) = a div 4096 * 4096"
    by (simp add: PGSIZE_def mask_eq_exp_minus_1 push_bit_eq_mult drop_bit_eq_div)
  have "unat a div 4096 * 4096 \<le> unat a" by simp
  also have "\<dots> < 2 ^ 32" using unsigned_less [of a] by simp
  finally show ?thesis unfolding eq by (simp add: unat_word_ariths unat_div_distrib)
qed

lemma unat_PGROUNDDOWN: "unat (PGROUNDDOWN a) = unat a div 4096 * 4096"
  unfolding PGROUNDDOWN_def by (rule unat_rounddown)

lemma unat_PGROUNDUP:
  assumes "unat a + 4095 < 2 ^ 32"
  shows "unat (PGROUNDUP a) = (unat a + 4095) div 4096 * 4096"
proof -
  have "unat (a + PGSIZE - 1) = unat a + 4095"
    using assms by (simp add: PGSIZE_def unat_word_ariths)
  then show ?thesis unfolding PGROUNDUP_def by (simp add: unat_rounddown)
qed

lemma pages_apart:
  assumes "p mod PGSIZE = 0" and "q mod PGSIZE = 0" and "p \<noteq> q" and "in_page p a"
  shows "\<not> in_page q a"
proof
  assume "in_page q a"
  moreover have "unat p = 4096 * (unat p div 4096)" "unat q = 4096 * (unat q div 4096)"
    using page_top(1) [OF assms(1)] page_top(1) [OF assms(2)] by auto
  ultimately have "unat p div 4096 = unat q div 4096"
    using assms(4) unfolding in_page_def by linarith
  then have "unat p = unat q"
    using page_top(1) [OF assms(1)] page_top(1) [OF assms(2)] by (metis mult_div_mod_eq)
  then show False using assms(3) by (simp add: word_unat_eq_iff)
qed

lemma in_page_self:
  assumes "p mod PGSIZE = 0"
  shows "in_page p p" "in_page p (p + 1)" "in_page p (p + 2)" "in_page p (p + 3)"
  using page_top(2) [OF assms] by (auto simp: in_page_def unat_word_ariths)

lemma load32_page:
  assumes "p mod PGSIZE = 0" and "\<And>a. in_page p a \<Longrightarrow> m' a = m a"
  shows "load32 m' p = load32 m p"
  using in_page_self [OF assms(1)] assms(2) by (simp add: load32_def)

lemma memset_page:
  assumes "v mod PGSIZE = 0"
  shows "memset v c PGSIZE m a = (if in_page v a then ucast c else m a)"
  using page_top(2) [OF assms] stosb_spec [of v 4096 "ucast c" m a]
  by (simp add: memset_stosb in_page_def PGSIZE_def)

lemma store32_page:
  assumes "v mod PGSIZE = 0" and "\<not> in_page v a"
  shows "store32 v w m a = m a"
  using in_page_self [OF assms(1)] assms(2) by (auto simp: store32_apply)

section \<open>The effect of the operations\<close>

definition kfreed :: "addr \<Rightarrow> 'a kstate_scheme \<Rightarrow> 'a kstate_scheme" where
  "kfreed v s =
     (let f = (\<lambda>s. s\<lparr>m_mem := store32 v (km_freelist s) (m_mem s), km_freelist := v\<rparr>);
          s1 = s\<lparr>m_mem := memset v 1 PGSIZE (m_mem s)\<rparr>
      in if km_use_lock s \<noteq> 0 then released LKmem (f (acquired LKmem s1)) else f s1)"

definition kalloced :: "'a kstate_scheme \<Rightarrow> 'a kstate_scheme" where
  "kalloced s =
     (let f = (\<lambda>s. if km_freelist s \<noteq> 0 then s\<lparr>km_freelist := load32 (m_mem s) (km_freelist s)\<rparr> else s)
      in if km_use_lock s \<noteq> 0 then released LKmem (f (acquired LKmem s)) else f s)"

lemma section_fields [simp]:
  "km_use_lock (acquired l s) = km_use_lock s" "km_freelist (acquired l s) = km_freelist s"
  "km_end (acquired l s) = km_end s" "km_data (acquired l s) = km_data s"
  "km_use_lock (released l s) = km_use_lock s" "km_freelist (released l s) = km_freelist s"
  "km_end (released l s) = km_end s" "km_data (released l s) = km_data s"
  "m_lapicid (acquired l s) = m_lapicid s"
  by (simp_all add: acquired_def released_def up_lock_def pushed_def popped_def up_cpu_def)

lemma kstate_upd [simp]:
  "self (s\<lparr>km_freelist := x\<rparr>) = self s" "self (s\<lparr>m_mem := m\<rparr>) = self s"
  "mine (s\<lparr>km_freelist := x\<rparr>) = mine s" "mine (s\<lparr>m_mem := m\<rparr>) = mine s"
  "ncli (s\<lparr>km_freelist := x\<rparr>) = ncli s" "ncli (s\<lparr>m_mem := m\<rparr>) = ncli s"
  "cpu_ok (s\<lparr>km_freelist := x\<rparr>) = cpu_ok s" "cpu_ok (s\<lparr>m_mem := m\<rparr>) = cpu_ok s"
  "holds l (s\<lparr>km_freelist := x\<rparr>) = holds l s" "holds l (s\<lparr>m_mem := m\<rparr>) = holds l s"
  by (simp_all add: self_def mine_def ncli_def cpu_ok_def holds_def)

lemma V2P_run: "KERNBASE \<le> a \<Longrightarrow> V2P a s rs = Ret (a - KERNBASE) s rs"
  by (auto simp: V2P_def)

lemma P2V_run: "a \<le> KERNBASE \<Longrightarrow> P2V a s rs = Ret (a + KERNBASE) s rs"
  by (auto simp: P2V_def)

lemma kfree_run:
  assumes "kmem_free s" and "page_ok s v"
  shows "kfree v s rs = Ret () (kfreed v s) rs"
proof -
  have g: "v mod PGSIZE = 0" "\<not> v < km_end s" "KERNBASE \<le> v" "\<not> PHYSTOP \<le> v - KERNBASE"
    using assms(2) by (auto simp: page_ok_def)
  have ok: "cpu_ok s" "0 \<le> ncli s" "self s \<noteq> None"
    using assms(1) by (auto simp: kmem_free_def cpu_ok_def)
  show ?thesis
  proof (cases "km_use_lock s = 0")
    case True
    then show ?thesis using g by (simp add: kfree_def kfreed_def V2P_run Let_def)
  next
    case False
    then have "lk_locked (m_locks s LKmem) = 0" using assms(1) by (simp add: kmem_free_def)
    then show ?thesis
      using False g ok
      by (simp add: kfree_def kfreed_def V2P_run Let_def acquire_run release_run)
  qed
qed

lemma kalloc_run:
  assumes "kmem_free s"
  shows "kalloc s rs = Ret (km_freelist s) (kalloced s) rs"
proof (cases "km_use_lock s = 0")
  case True
  then show ?thesis by (simp add: kalloc_def kalloced_def Let_def)
next
  case False
  have ok: "cpu_ok s" "0 \<le> ncli s" "self s \<noteq> None" "lk_locked (m_locks s LKmem) = 0"
    using assms False by (auto simp: kmem_free_def cpu_ok_def)
  then show ?thesis
    using False by (simp add: kalloc_def kalloced_def Let_def acquire_run release_run)
qed

lemma kfreed_fields [simp]:
  "km_freelist (kfreed v s) = v"
  "m_mem (kfreed v s) = store32 v (km_freelist s) (memset v 1 PGSIZE (m_mem s))"
  "km_end (kfreed v s) = km_end s" "km_data (kfreed v s) = km_data s"
  "km_use_lock (kfreed v s) = km_use_lock s"
  by (simp_all add: kfreed_def Let_def)

lemma kalloced_fields [simp]:
  "km_freelist (kalloced s) = (if km_freelist s = 0 then 0 else load32 (m_mem s) (km_freelist s))"
  "m_mem (kalloced s) = m_mem s" "km_end (kalloced s) = km_end s" "km_data (kalloced s) = km_data s"
  "km_use_lock (kalloced s) = km_use_lock s"
  by (simp_all add: kalloced_def Let_def)

lemma page_ok_cong: "km_end s' = km_end s \<Longrightarrow> page_ok s' = page_ok s"
  by (simp add: page_ok_def fun_eq_iff)

lemma same_locks_kmem:
  assumes "kmem_free s"
  shows "same_locks s (kfreed v s)" and "same_locks s (kalloced s)"
proof -
  have mem: "same_locks s (s\<lparr>m_mem := m\<rparr>)" "same_locks s (s\<lparr>m_mem := m, km_freelist := p\<rparr>)"
      "same_locks s (s\<lparr>km_freelist := p\<rparr>)" for m p
    by (simp_all add: same_locks_def)
  show "same_locks s (kfreed v s)"
  proof (cases "km_use_lock s = 0")
    case False
    let ?s = "s\<lparr>m_mem := memset v 1 PGSIZE (m_mem s)\<rparr>"
    let ?t = "acquired LKmem ?s"
    have "same_locks ?s (released LKmem (?t\<lparr>m_mem := store32 v (km_freelist ?t) (m_mem ?t), km_freelist := v\<rparr>))"
      using assms False by (intro same_locks_section) (auto simp: kmem_free_def)
    then have "same_locks s (released LKmem (?t\<lparr>m_mem := store32 v (km_freelist ?t) (m_mem ?t), km_freelist := v\<rparr>))"
      using mem(1) same_locks_trans by blast
    then show ?thesis using False by (simp add: kfreed_def Let_def)
  qed (simp add: kfreed_def Let_def mem)
  show "same_locks s (kalloced s)"
  proof (cases "km_use_lock s = 0")
    case False
    then show ?thesis
      using assms unfolding kalloced_def Let_def
      by (simp del: acquired_ok, intro conjI impI same_locks_section) (auto simp: kmem_free_def)
  qed (simp add: kalloced_def Let_def mem)
qed

lemma kmem_free_kept:
  assumes "kmem_free s"
  shows "kmem_free (kfreed v s)" and "kmem_free (kalloced s)"
  using same_locks_kmem(1) [OF assms, of v] same_locks_kmem(2) [OF assms] assms same_locks_ok
  unfolding kmem_free_def by (auto simp: same_locks_def)

lemma kmem_inv_kfreed:
  assumes inv: "kmem_inv s ps" and v: "page_ok s v" "v \<notin> set ps"
  shows "kmem_inv (kfreed v s) (v # ps)"
proof -
  have al: "v mod PGSIZE = 0" and nz: "v \<noteq> 0" using v(1) by (auto simp: page_ok_def KERNBASE_def)
  have "load32 (m_mem (kfreed v s)) p = load32 (m_mem s) p" if "p \<in> set ps" for p
  proof (rule load32_page)
    show p: "p mod PGSIZE = 0" using inv that by (auto simp: kmem_inv_def list_all_iff page_ok_def)
    fix a assume "in_page p a"
    then have "\<not> in_page v a" using pages_apart [OF p al] that v(2) by metis
    then show "m_mem (kfreed v s) a = m_mem s a"
      by (simp add: store32_page [OF al] memset_page [OF al])
  qed
  then have "free_list (m_mem (kfreed v s)) (km_freelist s) ps"
    using inv free_list_cong [of ps "m_mem (kfreed v s)" "m_mem s"] by (simp add: kmem_inv_def)
  then show ?thesis
    using inv v nz by (simp add: kmem_inv_def page_ok_cong [of "kfreed v s" s])
qed

lemma kmem_inv_kalloced: "kmem_inv s (p # ps) \<Longrightarrow> kmem_inv (kalloced s) ps"
  by (auto simp: kmem_inv_def page_ok_cong [of "kalloced s" s])

lemma kmem_inv_kalloced_empty: "kmem_inv s [] \<Longrightarrow> kmem_inv (kalloced s) []"
  by (simp add: kmem_inv_def)

section \<open>The contract of a page allocator\<close>

locale page_allocator =
  fixes ready :: "'s \<Rightarrow> bool"
    and pages :: "'s \<Rightarrow> addr list \<Rightarrow> bool"
    and good :: "'s \<Rightarrow> addr \<Rightarrow> bool"
    and alloc :: "(addr, 's) kern"
    and free :: "addr \<Rightarrow> (unit, 's) kern"
  assumes alloc_page: "ready s \<Longrightarrow> pages s (p # ps) \<Longrightarrow>
      \<exists>s'. alloc s rs = Ret p s' rs \<and> ready s' \<and> pages s' ps \<and> good s' = good s"
    and alloc_empty: "ready s \<Longrightarrow> pages s [] \<Longrightarrow>
      \<exists>s'. alloc s rs = Ret 0 s' rs \<and> ready s' \<and> pages s' [] \<and> good s' = good s"
    and free_page: "ready s \<Longrightarrow> pages s ps \<Longrightarrow> good s v \<Longrightarrow> v \<notin> set ps \<Longrightarrow>
      \<exists>s'. free v s rs = Ret () s' rs \<and> ready s' \<and> pages s' (v # ps) \<and> good s' = good s"
    and pages_distinct: "pages s ps \<Longrightarrow> distinct ps"
    and pages_good: "pages s ps \<Longrightarrow> p \<in> set ps \<Longrightarrow> good s p \<and> p \<noteq> 0"
begin

text \<open>
  A client that holds the pages \<open>live\<close>: what it gets is taken from the free pages, what it gives
  back goes to them, and the two never overlap.
\<close>

lemma alloc_conserves:
  assumes "ready s" and "pages s ps" and "distinct (live @ ps)" and "alloc s rs = Ret p s' rs'"
  shows "ready s' \<and> good s' = good s \<and> rs' = rs \<and> (p = 0 \<longleftrightarrow> ps = []) \<and>
    (\<exists>qs. pages s' qs \<and> ps = (if p = 0 then qs else p # qs))"
proof (cases ps)
  case Nil
  then show ?thesis using alloc_empty [of s rs] assms by auto
next
  case (Cons q qs)
  then have "q \<noteq> 0" using pages_good [OF assms(2)] by simp
  then show ?thesis using alloc_page [of s q qs rs] Cons assms by auto
qed

lemma free_conserves:
  assumes "ready s" and "pages s ps" and "distinct (live @ ps)" and "v \<in> set live" and "good s v"
    and "free v s rs = Ret () s' rs'"
  shows "ready s' \<and> good s' = good s \<and> pages s' (v # ps) \<and> distinct (remove1 v live @ v # ps) \<and>
    set (remove1 v live @ v # ps) = set (live @ ps)"
proof -
  have "v \<notin> set ps" using assms(3,4) by auto
  then have "ready s' \<and> good s' = good s \<and> pages s' (v # ps)"
    using free_page [OF assms(1,2,5), of rs] assms(6) by auto
  then show ?thesis using assms(3,4) by (auto simp: distinct_remove1 dest: in_set_remove1)
qed

end

interpretation kmem: page_allocator kmem_free kmem_inv page_ok kalloc kfree
proof (unfold_locales, goal_cases)
  case (1 s p ps rs)
  then have "km_freelist s = p" by (simp add: kmem_inv_def)
  then show ?case
    using 1 kalloc_run [OF 1(1), of rs] kmem_free_kept(2) [OF 1(1)] kmem_inv_kalloced [OF 1(2)]
      page_ok_cong [of "kalloced s" s] by simp
next
  case (2 s rs)
  then have "km_freelist s = 0" by (simp add: kmem_inv_def)
  then show ?case
    using 2 kalloc_run [OF 2(1), of rs] kmem_free_kept(2) [OF 2(1)] kmem_inv_kalloced_empty [OF 2(2)]
      page_ok_cong [of "kalloced s" s] by simp
next
  case (3 s ps v rs)
  then show ?case
    using kfree_run [OF 3(1,3), of rs] kmem_free_kept(1) [OF 3(1), of v] kmem_inv_kfreed [OF 3(2,3,4)]
      page_ok_cong [of "kfreed v s" s] by simp
next
  case (4 s ps)
  then show ?case by (simp add: kmem_inv_def)
next
  case (5 s ps p)
  then show ?case by (auto simp: kmem_inv_def list_all_iff page_ok_def KERNBASE_def)
qed

section \<open>Filling the allocator\<close>

lemma freerange_loop_pages:
  assumes "kmem_free s" and "kmem_inv s ps" and "p mod PGSIZE = 0" and "km_end s \<le> p" and "KERNBASE \<le> p"
    and "unat p + n * 4096 \<le> unat vend" and "unat vend < unat p + Suc n * 4096"
    and "unat vend \<le> unat KERNBASE + unat PHYSTOP"
    and "\<And>q. q \<in> set ps \<Longrightarrow> q < p"
  shows "\<exists>s'. freerange_loop p vend s rs = Ret () s' rs \<and> kmem_free s' \<and>
    kmem_inv s' (rev (map (\<lambda>i. p + of_nat i * PGSIZE) [0..<n]) @ ps)"
  using assms
proof (induction n arbitrary: s p ps)
  case 0
  have "unat p + 4096 < 2 ^ 32" using "0.prems"(6,8) by (simp add: KERNBASE_def PHYSTOP_def)
  then have "unat (p + PGSIZE) = unat p + 4096" by (simp add: PGSIZE_def unat_word_ariths)
  then have "\<not> p + PGSIZE \<le> vend" using "0.prems"(7) by (simp add: word_le_nat_alt)
  then show ?case
    using "0.prems" by (subst freerange_loop.simps) simp
next
  case (Suc n)
  have top: "unat KERNBASE + unat PHYSTOP < 2 ^ 32" by (simp add: KERNBASE_def PHYSTOP_def)
  have sum: "unat (p + PGSIZE) = unat p + 4096"
    using Suc.prems(6,8) top by (simp add: PGSIZE_def unat_word_ariths)
  have le: "p + PGSIZE \<le> vend" "p < p + PGSIZE"
    using sum Suc.prems(6) by (simp_all add: word_le_nat_alt word_less_nat_alt)
  have "unat (p - KERNBASE) = unat p - unat KERNBASE"
    using Suc.prems(5) by (simp add: unat_sub)
  then have ok: "page_ok s p"
    using Suc.prems(3-6,8) by (auto simp: page_ok_def word_less_nat_alt word_le_nat_alt)
  have "p \<notin> set ps" using Suc.prems(9) by blast
  then obtain s1 where s1: "kfree p s rs = Ret () s1 rs" "kmem_free s1" "kmem_inv s1 (p # ps)"
      "km_end s1 = km_end s"
    using kfree_run [OF Suc.prems(1) ok] kmem_free_kept(1) [OF Suc.prems(1)]
      kmem_inv_kfreed [OF Suc.prems(2) ok] by auto
  have mult: "(p + PGSIZE) mod PGSIZE = 0"
    using page_top(1) [OF Suc.prems(3)] sum by (intro page_alignedI) simp
  have below: "q < p + PGSIZE" if "q \<in> set (p # ps)" for q
    using that Suc.prems(9) [of q] le(2) by (auto intro: less_trans)
  obtain s2 where s2: "freerange_loop (p + PGSIZE) vend s1 rs = Ret () s2 rs" "kmem_free s2"
      "kmem_inv s2 (rev (map (\<lambda>i. p + PGSIZE + of_nat i * PGSIZE) [0..<n]) @ p # ps)"
    using Suc.IH [OF s1(2,3) mult _ _ _ _ _ below] Suc.prems(4-8) s1(4) sum
    by (auto simp: word_le_nat_alt)
  have "rev (map (\<lambda>i. p + of_nat i * PGSIZE) [0..<Suc n]) @ ps
      = rev (map (\<lambda>i. p + PGSIZE + of_nat i * PGSIZE) [0..<n]) @ p # ps"
  proof -
    have "[0..<Suc n] = 0 # map Suc [0..<n]" by (simp add: map_Suc_upt upt_conv_Cons)
    then show ?thesis by (simp add: comp_def algebra_simps)
  qed
  then show ?case
    using s1 s2 le by (subst freerange_loop.simps) simp
qed

lemma roundup_least:
  assumes "unat a + 4095 < 2 ^ 32"
  shows "PGROUNDUP a mod PGSIZE = 0" and "unat a \<le> unat (PGROUNDUP a)"
    and "q mod PGSIZE = 0 \<Longrightarrow> a \<le> q \<Longrightarrow> unat (PGROUNDUP a) \<le> unat q"
proof -
  note p = unat_PGROUNDUP [OF assms]
  show "PGROUNDUP a mod PGSIZE = 0" by (rule page_alignedI) (simp add: p)
  show "unat a \<le> unat (PGROUNDUP a)" unfolding p by linarith
  assume "q mod PGSIZE = 0" and "a \<le> q"
  then obtain k where k: "unat q = 4096 * k" and "unat a \<le> unat q"
    using page_top(1) [of q] by (auto simp: word_le_nat_alt)
  then have "(unat a + 4095) div 4096 < Suc k" by (subst div_less_iff_less_mult) auto
  then show "unat (PGROUNDUP a) \<le> unat q" unfolding p k by simp
qed

lemma page_range_set:
  assumes al: "p mod PGSIZE = 0" and n: "unat p + n * 4096 < 2 ^ 32"
  shows "q \<in> set (map (\<lambda>i. p + of_nat i * PGSIZE) [0..<n]) \<longleftrightarrow>
    q mod PGSIZE = 0 \<and> p \<le> q \<and> unat q < unat p + n * 4096"
proof -
  have u: "unat (p + of_nat i * PGSIZE) = unat p + i * 4096" if "i < n" for i
  proof -
    have "i * 4096 < 2 ^ 32" "unat p + i * 4096 < 2 ^ 32" using that n by auto
    then show ?thesis by (simp add: PGSIZE_def unat_word_ariths unat_of_nat)
  qed
  have p0: "unat p mod 4096 = 0" by (rule page_top(1) [OF al])
  then obtain j where j: "unat p = 4096 * j" by auto
  show ?thesis
  proof
    assume "q \<in> set (map (\<lambda>i. p + of_nat i * PGSIZE) [0..<n])"
    then obtain i where i: "i < n" "q = p + of_nat i * PGSIZE" by auto
    then have "unat q = unat p + i * 4096" using u by simp
    then show "q mod PGSIZE = 0 \<and> p \<le> q \<and> unat q < unat p + n * 4096"
      using i(1) p0 page_alignedI [of q] by (auto simp: word_le_nat_alt)
  next
    assume q: "q mod PGSIZE = 0 \<and> p \<le> q \<and> unat q < unat p + n * 4096"
    define i where "i = (unat q - unat p) div 4096"
    obtain k where "unat q = 4096 * k" "unat p \<le> unat q"
      using page_top(1) [of q] q by (auto simp: word_le_nat_alt)
    then have i: "unat q = unat p + i * 4096" using j unfolding i_def by simp
    then have "i < n" using q by simp
    then have "q = p + of_nat i * PGSIZE" using u i by (metis word_unat_eqI)
    then show "q \<in> set (map (\<lambda>i. p + of_nat i * PGSIZE) [0..<n])" using \<open>i < n\<close> by auto
  qed
qed

text \<open>The pages that lie wholly in a range, and the list of them that \<^verbatim>\<open>freerange\<close> builds.\<close>

definition whole_page :: "addr \<Rightarrow> addr \<Rightarrow> addr \<Rightarrow> bool" where
  "whole_page vstart vend p \<longleftrightarrow> p mod PGSIZE = 0 \<and> vstart \<le> p \<and> unat p + 4096 \<le> unat vend"

lemma whole_page_end:
  assumes "p mod PGSIZE = 0" and "q mod PGSIZE = 0"
    and "unat p + n * 4096 \<le> unat vend" and "unat vend < unat p + Suc n * 4096"
  shows "unat q + 4096 \<le> unat vend \<longleftrightarrow> unat q < unat p + n * 4096"
proof -
  obtain j k where jk: "unat q = 4096 * k" "unat p = 4096 * j"
    using page_top(1) [OF assms(2)] page_top(1) [OF assms(1)] by (auto elim!: dvdE)
  then have "unat q + 4096 \<le> unat vend \<longleftrightarrow> k < j + n"
    using assms(3,4) by (cases "k < j + n") auto
  then show ?thesis using jk by auto
qed

lemma page_range_sorted:
  assumes "unat p + n * 4096 < 2 ^ 32"
  shows "sorted (map (\<lambda>i. p + of_nat i * PGSIZE) [0..<n])"
proof -
  have u: "unat (p + of_nat i * PGSIZE) = unat p + i * 4096" if "i < n" for i
  proof -
    have "i * 4096 < 2 ^ 32" "unat p + i * 4096 < 2 ^ 32" using that assms by auto
    then show ?thesis by (simp add: PGSIZE_def unat_word_ariths unat_of_nat)
  qed
  then show ?thesis by (simp add: sorted_iff_nth_mono word_le_nat_alt)
qed

lemma freerange_some:
  assumes "kmem_free s" and "kmem_inv s []" and "km_end s \<le> vstart" and "KERNBASE \<le> vstart"
    and "unat vstart + 4095 < 2 ^ 32" and "unat vend \<le> unat KERNBASE + unat PHYSTOP"
    and "unat (PGROUNDUP vstart) \<le> unat vend"
  shows "\<exists>s' ps. freerange_loop (PGROUNDUP vstart) vend s rs = Ret () s' rs \<and> kmem_free s' \<and>
    kmem_inv s' ps \<and> sorted (rev ps) \<and> (\<forall>p. p \<in> set ps \<longleftrightarrow> whole_page vstart vend p)"
proof -
  let ?p = "PGROUNDUP vstart"
  note up = roundup_least [OF assms(5)]
  define n where "n = (unat vend - unat ?p) div 4096"
  have lt: "unat vend < unat ?p + Suc n * 4096"
    using dividend_less_times_div [of 4096 "unat vend - unat ?p"] unfolding n_def by simp
  have le: "unat ?p + n * 4096 \<le> unat vend" using assms(7) unfolding n_def by linarith
  have base: "km_end s \<le> ?p" "KERNBASE \<le> ?p"
    using assms(3,4) up(2) by (auto simp: word_le_nat_alt)
  let ?ps = "rev (map (\<lambda>i. ?p + of_nat i * PGSIZE) [0..<n])"
  have top: "unat ?p + n * 4096 < 2 ^ 32" using le unat_lt_32 [of vend] by simp
  have "?p \<le> q \<longleftrightarrow> vstart \<le> q" if "q mod PGSIZE = 0" for q
    using up(2) up(3) [OF that] by (auto simp: word_le_nat_alt)
  then have "q \<in> set ?ps \<longleftrightarrow> whole_page vstart vend q" for q
    unfolding set_rev page_range_set [OF up(1) top] whole_page_def
    using whole_page_end [OF up(1) _ le lt, of q] by metis
  moreover have "sorted (rev ?ps)" using page_range_sorted [OF top] by simp
  moreover obtain s' where "freerange_loop ?p vend s rs = Ret () s' rs" "kmem_free s'" "kmem_inv s' ?ps"
    using freerange_loop_pages [OF assms(1,2) up(1) base le lt assms(6), of rs] by auto
  ultimately show ?thesis by blast
qed

lemma freerange_run:
  assumes "kmem_free s" and "kmem_inv s []" and "km_end s \<le> vstart" and "KERNBASE \<le> vstart"
    and "vstart \<le> vend" and "unat vend \<le> unat KERNBASE + unat PHYSTOP"
  shows "\<exists>s' ps. freerange vstart vend s rs = Ret () s' rs \<and> kmem_free s' \<and> kmem_inv s' ps \<and>
    sorted (rev ps) \<and> (\<forall>p. p \<in> set ps \<longleftrightarrow> whole_page vstart vend p)"
proof -
  let ?p = "PGROUNDUP vstart"
  have room: "unat vstart + 4095 < 2 ^ 32"
    using assms(5,6) by (simp add: KERNBASE_def PHYSTOP_def word_le_nat_alt)
  have loop: "freerange vstart vend s rs = freerange_loop ?p vend s rs"
    using assms(5) by (auto simp: freerange_def)
  show ?thesis
  proof (cases "unat ?p \<le> unat vend")
    case True
    then show ?thesis using freerange_some [OF assms(1-4) room assms(6)] unfolding loop by metis
  next
    case False
    have "unat ?p + 4096 < 2 ^ 32"
      using assms(5,6) room by (simp add: unat_PGROUNDUP KERNBASE_def PHYSTOP_def word_le_nat_alt)
    then have "\<not> ?p + PGSIZE \<le> vend"
      using False by (simp add: word_le_nat_alt PGSIZE_def unat_word_ariths)
    then have "freerange vstart vend s rs = Ret () s rs"
      unfolding loop by (subst freerange_loop.simps) simp
    moreover have "\<not> whole_page vstart vend q" for q
    proof
      assume q: "whole_page vstart vend q"
      then have "unat ?p \<le> unat q" by (intro roundup_least(3) [OF room]) (simp_all add: whole_page_def)
      then show False using q False unfolding whole_page_def by linarith
    qed
    ultimately show ?thesis using assms(1,2) by (intro exI [of _ s] exI [of _ "[]"]) simp
  qed
qed

section \<open>Every history of the allocator\<close>

text \<open>
  \<open>allocator vstart vend s live\<close>: the state \<open>s\<close> is reached after \<^verbatim>\<open>freerange(vstart, vend)\<close> on an empty
  allocator by calls of \<^verbatim>\<open>kalloc\<close>, by \<^verbatim>\<open>kfree\<close> of pages that are held, and by writes of the holders
  into the pages they hold; \<open>live\<close> are the pages held.
\<close>

inductive allocator :: "addr \<Rightarrow> addr \<Rightarrow> 'a kstate_scheme \<Rightarrow> addr list \<Rightarrow> bool" for vstart vend where
  start: "kmem_free s \<Longrightarrow> km_freelist s = 0 \<Longrightarrow> km_end s \<le> vstart \<Longrightarrow> KERNBASE \<le> vstart \<Longrightarrow>
    vstart \<le> vend \<Longrightarrow> unat vend \<le> unat KERNBASE + unat PHYSTOP \<Longrightarrow>
    freerange vstart vend s rs = Ret () s' rs' \<Longrightarrow> allocator vstart vend s' []"
| alloc: "allocator vstart vend s live \<Longrightarrow> kalloc s rs = Ret p s' rs' \<Longrightarrow> p \<noteq> 0 \<Longrightarrow>
    allocator vstart vend s' (p # live)"
| refuse: "allocator vstart vend s live \<Longrightarrow> kalloc s rs = Ret 0 s' rs' \<Longrightarrow>
    allocator vstart vend s' live"
| free: "allocator vstart vend s live \<Longrightarrow> p \<in> set live \<Longrightarrow> kfree p s rs = Ret () s' rs' \<Longrightarrow>
    allocator vstart vend s' (remove1 p live)"
| store: "allocator vstart vend s live \<Longrightarrow> p \<in> set live \<Longrightarrow> in_page p a \<Longrightarrow>
    allocator vstart vend (s\<lparr>m_mem := (m_mem s)(a := b)\<rparr>) live"

text \<open>What is free and what is held are always the whole pages of the range, each once.\<close>

definition conserved :: "addr \<Rightarrow> addr \<Rightarrow> 'a kstate_scheme \<Rightarrow> addr list \<Rightarrow> addr list \<Rightarrow> bool" where
  "conserved vstart vend s live ps \<longleftrightarrow> kmem_free s \<and> kmem_inv s ps \<and> distinct (live @ ps) \<and>
     list_all (page_ok s) live \<and> (\<forall>p. p \<in> set (live @ ps) \<longleftrightarrow> whole_page vstart vend p)"

lemma kmem_inv_write:
  assumes "kmem_inv s ps" and "p mod PGSIZE = 0" and "p \<notin> set ps" and "in_page p a"
  shows "kmem_inv (s\<lparr>m_mem := (m_mem s)(a := b)\<rparr>) ps"
proof -
  have "load32 ((m_mem s)(a := b)) q = load32 (m_mem s) q" if q: "q \<in> set ps" for q
  proof (rule load32_page)
    show al: "q mod PGSIZE = 0" using assms(1) q by (auto simp: kmem_inv_def list_all_iff page_ok_def)
    have "\<not> in_page q a" using pages_apart [OF assms(2) al _ assms(4)] assms(3) q by metis
    then show "((m_mem s)(a := b)) x = m_mem s x" if "in_page q x" for x using that by auto
  qed
  then have "free_list ((m_mem s)(a := b)) (km_freelist s) ps"
    using assms(1) free_list_cong [of ps "(m_mem s)(a := b)" "m_mem s"] by (simp add: kmem_inv_def)
  then show ?thesis using assms(1) by (simp add: kmem_inv_def page_ok_cong [of "s\<lparr>m_mem := _\<rparr>" s])
qed

lemma conserved_kalloc:
  assumes "conserved vstart vend s live ps" and "kalloc s rs = Ret p s' rs'"
  shows "\<exists>qs. conserved vstart vend s' (if p = 0 then live else p # live) qs"
proof -
  have c: "kmem_free s" "kmem_inv s ps" "distinct (live @ ps)" "list_all (page_ok s) live"
    "\<And>q. q \<in> set (live @ ps) \<longleftrightarrow> whole_page vstart vend q"
    using assms(1) unfolding conserved_def by blast+
  note a = kmem.alloc_conserves [OF c(1-3) assms(2)]
  have s': "kmem_free s'" "page_ok s' = page_ok s" using a by simp_all
  obtain qs where qs: "kmem_inv s' qs" "ps = (if p = 0 then qs else p # qs)" using a by blast
  have "list_all (page_ok s') (if p = 0 then live else p # live)"
    using kmem.pages_good [OF c(2), of p] qs(2) c(4) s'(2) by simp
  moreover have "set ((if p = 0 then live else p # live) @ qs) = set (live @ ps)"
    using qs(2) by (cases "p = 0") auto
  moreover have "distinct ((if p = 0 then live else p # live) @ qs)"
    using c(3) qs(2) by (cases "p = 0") auto
  ultimately have "conserved vstart vend s' (if p = 0 then live else p # live) qs"
    using s'(1) qs(1) c(5) unfolding conserved_def by blast
  then show ?thesis ..
qed

lemma allocator_conserved: "allocator vstart vend s live \<Longrightarrow> \<exists>ps. conserved vstart vend s live ps"
proof (induction rule: allocator.induct)
  case (start s rs s' rs')
  have "kmem_inv s []" using start(2) by (simp add: kmem_inv_def)
  then show ?case
    using freerange_run [OF start(1) _ start(3-6), of rs] start(7)
    by (auto simp: conserved_def kmem_inv_def)
next
  case (alloc s live rs p s' rs')
  then obtain ps where "conserved vstart vend s live ps" by blast
  from conserved_kalloc [OF this alloc(2)] show ?case using alloc(3) by simp
next
  case (refuse s live rs s' rs')
  then obtain ps where "conserved vstart vend s live ps" by blast
  from conserved_kalloc [OF this refuse(2)] show ?case by simp
next
  case (free s live p rs s' rs')
  then obtain ps where c: "kmem_free s" "kmem_inv s ps" "distinct (live @ ps)" "list_all (page_ok s) live"
      "\<And>q. q \<in> set (live @ ps) \<longleftrightarrow> whole_page vstart vend q"
    by (auto simp: conserved_def)
  have "page_ok s p" using c(4) free(2) by (simp add: list_all_iff)
  note f = kmem.free_conserves [OF c(1-3) free(2) this free(3)]
  have "list_all (page_ok s') (remove1 p live)"
    using c(4) f by (auto simp: list_all_iff dest: notin_set_remove1)
  then have "conserved vstart vend s' (remove1 p live) (p # ps)"
    using f c(5) unfolding conserved_def by auto
  then show ?case ..
next
  case (store s live p a b)
  let ?s = "s\<lparr>m_mem := (m_mem s)(a := b)\<rparr>"
  from store obtain ps where c: "kmem_free s" "kmem_inv s ps" "distinct (live @ ps)"
      "list_all (page_ok s) live" "\<And>q. q \<in> set (live @ ps) \<longleftrightarrow> whole_page vstart vend q"
    by (auto simp: conserved_def)
  have p: "p mod PGSIZE = 0" "p \<notin> set ps" using c(3,4) store(2) by (auto simp: list_all_iff page_ok_def)
  have "kmem_free ?s" using c(1) by (simp add: kmem_free_def)
  then have "conserved vstart vend ?s live ps"
    using c kmem_inv_write [OF c(2) p store(3), of b] page_ok_cong [of ?s s] by (simp add: conserved_def)
  then show ?case ..
qed

section \<open>Properties\<close>

text \<open>C26: The allocator is a stack of pages: with \<open>ps\<close> on the free list \<^verbatim>\<open>kalloc\<close> returns the first page
  and leaves the rest, or returns 0 when there is none; and a page given back by \<^verbatim>\<open>kfree\<close> is the next
  one handed out. Memory outside the freed page is not touched, and the CPU ends with the nesting,
  interrupt flag and locks it had.\<close>

theorem kalloc_kfree_stack:
  assumes "kmem_free s" and "kmem_inv s ps"
  shows "(\<exists>s'. kalloc s rs = Ret (case ps of [] \<Rightarrow> 0 | p # _ \<Rightarrow> p) s' rs \<and> kmem_inv s' (tl ps) \<and>
      m_mem s' = m_mem s \<and> same_locks s s') \<and>
    (page_ok s v \<and> v \<notin> set ps \<longrightarrow> (\<exists>s1 s2. kfree v s rs = Ret () s1 rs \<and> kmem_inv s1 (v # ps) \<and>
      (\<forall>a. \<not> in_page v a \<longrightarrow> m_mem s1 a = m_mem s a) \<and> same_locks s s1 \<and>
      kalloc s1 rs = Ret v s2 rs \<and> kmem_inv s2 ps))"
proof (intro conjI impI)
  have "km_freelist s = (case ps of [] \<Rightarrow> 0 | p # _ \<Rightarrow> p)"
    using assms(2) by (cases ps) (simp_all add: kmem_inv_def)
  moreover have "kmem_inv (kalloced s) (tl ps)"
    using assms(2) kmem_inv_kalloced kmem_inv_kalloced_empty by (cases ps) auto
  ultimately show "\<exists>s'. kalloc s rs = Ret (case ps of [] \<Rightarrow> 0 | p # _ \<Rightarrow> p) s' rs \<and> kmem_inv s' (tl ps) \<and>
      m_mem s' = m_mem s \<and> same_locks s s'"
    using kalloc_run [OF assms(1), of rs] same_locks_kmem(2) [OF assms(1)] by simp
next
  assume v: "page_ok s v \<and> v \<notin> set ps"
  let ?s = "kfreed v s"
  have al: "v mod PGSIZE = 0" using v by (simp add: page_ok_def)
  have inv: "kmem_inv ?s (v # ps)" using assms(2) v by (simp add: kmem_inv_kfreed)
  have "kalloc ?s rs = Ret v (kalloced ?s) rs"
    using kalloc_run [OF kmem_free_kept(1) [OF assms(1)], of v rs] by simp
  then show "\<exists>s1 s2. kfree v s rs = Ret () s1 rs \<and> kmem_inv s1 (v # ps) \<and>
      (\<forall>a. \<not> in_page v a \<longrightarrow> m_mem s1 a = m_mem s a) \<and> same_locks s s1 \<and>
      kalloc s1 rs = Ret v s2 rs \<and> kmem_inv s2 ps"
    using v kfree_run [OF assms(1), of v rs] inv kmem_inv_kalloced [OF inv]
      same_locks_kmem(1) [OF assms(1), of v]
    by (auto simp: store32_page [OF al] memset_page [OF al])
qed

definition boot_kmem :: kstate where
  "boot_kmem = machine.extend one_cpu
     \<lparr>km_use_lock = 1, km_freelist = 0, km_end = 0x80110000, km_data = 0x80108000\<rparr>"

lemma boot_kmem_ok: "kmem_free boot_kmem" "kmem_inv boot_kmem []"
  by (simp_all add: kmem_free_def kmem_inv_def boot_kmem_def one_cpu_def machine.defs cpu_ok_def
      self_def ncli_def mine_def)

theorem kalloc_kfree_stack_witness:
  "\<exists>s1 s2. kfree 0x80200000 boot_kmem [] = Ret () s1 [] \<and> kalloc s1 [] = Ret 0x80200000 s2 []"
proof -
  have "page_ok boot_kmem 0x80200000"
    by (simp add: page_ok_def PGSIZE_def KERNBASE_def PHYSTOP_def boot_kmem_def machine.defs)
  then show ?thesis
    using kalloc_kfree_stack [OF boot_kmem_ok, of "[]" "0x80200000"] by auto
qed

text \<open>C27: In every history of the allocator, \<^verbatim>\<open>kalloc\<close> never hands out a page that somebody holds: the
  pages held are distinct, what it returns is none of them, and it returns 0 only when every whole
  page of the range is held. The histories interleave allocations, frees of held pages and
  arbitrary writes of the holders into their pages.\<close>

theorem kalloc_never_shares:
  assumes "allocator vstart vend s live"
  shows "\<exists>p s'. kalloc s rs = Ret p s' rs \<and> distinct live \<and> p \<notin> set live \<and>
    (p = 0 \<longleftrightarrow> (\<forall>q. whole_page vstart vend q \<longrightarrow> q \<in> set live)) \<and>
    (p \<noteq> 0 \<longrightarrow> whole_page vstart vend p)"
proof -
  obtain ps where c: "kmem_free s" "kmem_inv s ps" "distinct (live @ ps)" "list_all (page_ok s) live"
      "\<And>q. q \<in> set (live @ ps) \<longleftrightarrow> whole_page vstart vend q"
    using allocator_conserved [OF assms] by (auto simp: conserved_def)
  note run = kalloc_run [OF c(1), of rs]
  define p where "p = km_freelist s"
  obtain qs where qs: "p = 0 \<and> ps = [] \<or> p \<noteq> 0 \<and> ps = p # qs"
    using kmem.alloc_conserves [OF c(1-3) run] unfolding p_def [symmetric] by (auto split: if_splits)
  have nz: "0 \<notin> set live" using c(4) by (auto simp: list_all_iff page_ok_def KERNBASE_def)
  show ?thesis
  proof (intro exI conjI)
    show "kalloc s rs = Ret p (kalloced s) rs" using run by (simp add: p_def)
    show "distinct live" "p \<notin> set live" using c(3) nz qs by auto
    show "p = 0 \<longleftrightarrow> (\<forall>q. whole_page vstart vend q \<longrightarrow> q \<in> set live)"
      "p \<noteq> 0 \<longrightarrow> whole_page vstart vend p"
      using qs c(3) unfolding c(5) [symmetric] by auto
  qed
qed

lemma allocator_boot: "\<exists>s :: kstate. allocator 0x80110004 0x80113FFF s []"
proof -
  have "km_end boot_kmem = 0x80110000" "km_freelist boot_kmem = 0" by (simp_all add: boot_kmem_def machine.defs)
  obtain s' where run: "freerange 0x80110004 0x80113FFF boot_kmem [] = Ret () s' []"
    using freerange_run [OF boot_kmem_ok, of "0x80110004" "0x80113FFF" "[]"] \<open>km_end boot_kmem = _\<close>
    by (auto simp: KERNBASE_def PHYSTOP_def)
  have "allocator 0x80110004 0x80113FFF s' []"
    using \<open>km_end boot_kmem = _\<close> \<open>km_freelist boot_kmem = 0\<close>
    by (intro allocator.start [OF boot_kmem_ok(1) _ _ _ _ _ run]) (simp_all add: KERNBASE_def PHYSTOP_def)
  then show ?thesis ..
qed

theorem kalloc_never_shares_witness:
  "\<exists>(s :: kstate) p q s'. allocator 0x80110004 0x80113FFF s [p] \<and> kalloc s [] = Ret q s' [] \<and>
     p \<noteq> 0 \<and> q \<noteq> 0 \<and> p \<noteq> q"
proof -
  have two: "whole_page 0x80110004 0x80113FFF 0x80111000" "whole_page 0x80110004 0x80113FFF 0x80112000"
    by (simp_all add: whole_page_def PGSIZE_def)
  obtain s :: kstate where s: "allocator 0x80110004 0x80113FFF s []" using allocator_boot ..
  obtain p s1 where p: "kalloc s [] = Ret p s1 []" "p \<noteq> 0"
    using kalloc_never_shares [OF s, of "[]"] two(1) by auto
  have s1: "allocator 0x80110004 0x80113FFF s1 [p]" using allocator.alloc [OF s p] .
  obtain q s2 where "kalloc s1 [] = Ret q s2 []" "q \<notin> set [p]"
      "q = 0 \<longleftrightarrow> (\<forall>q. whole_page 0x80110004 0x80113FFF q \<longrightarrow> q \<in> set [p])"
    using kalloc_never_shares [OF s1, of "[]"] by metis
  moreover from this(3) have "q \<noteq> 0" using two by (cases "p = 0x80111000") auto
  ultimately show ?thesis using s1 p(2) by auto
qed

text \<open>C28: \<^verbatim>\<open>freerange\<close> puts exactly the whole pages of the range on the free list: starting from an empty
  list, those that begin at or above \<^verbatim>\<open>vstart\<close> and end at or below \<^verbatim>\<open>vend\<close>, the highest first, and
  it never panics on a range between \<^verbatim>\<open>end\<close> and the top of physical memory.\<close>

theorem freerange_whole_pages:
  assumes "kmem_free s" and "kmem_inv s []" and "km_end s \<le> vstart" and "KERNBASE \<le> vstart"
    and "vstart \<le> vend" and "unat vend \<le> unat KERNBASE + unat PHYSTOP"
  shows "\<exists>s' ps. freerange vstart vend s rs = Ret () s' rs \<and> kmem_inv s' ps \<and> sorted (rev ps) \<and>
    (\<forall>p. p \<in> set ps \<longleftrightarrow> p mod PGSIZE = 0 \<and> vstart \<le> p \<and> unat p + 4096 \<le> unat vend)"
  using freerange_run [OF assms, of rs] unfolding whole_page_def by blast

theorem freerange_whole_pages_witness:
  "\<exists>s' ps. freerange 0x80110004 0x80113FFF boot_kmem [] = Ret () s' [] \<and>
     0x80111000 \<in> set ps \<and> 0x80113000 \<notin> set ps \<and> kmem_inv s' ps"
proof -
  have "km_end boot_kmem = 0x80110000" by (simp add: boot_kmem_def machine.defs)
  then obtain s' ps where "freerange 0x80110004 0x80113FFF boot_kmem [] = Ret () s' []" "kmem_inv s' ps"
    and ps: "\<And>p. p \<in> set ps \<longleftrightarrow>
      p mod PGSIZE = 0 \<and> 0x80110004 \<le> p \<and> unat p + 4096 \<le> unat (0x80113FFF :: addr)"
    using freerange_whole_pages [OF boot_kmem_ok, of "0x80110004" "0x80113FFF" "[]"]
    by (auto simp: KERNBASE_def PHYSTOP_def)
  moreover have "0x80111000 \<in> set ps" "0x80113000 \<notin> set ps"
    unfolding ps by (simp_all add: PGSIZE_def)
  ultimately show ?thesis by blast
qed

end
