(* ===== verification/Console.thy ===== *)
theory Console
  imports Kalloc
begin

unbundle bit_operations_syntax

text \<open>
  Console output: \<^verbatim>\<open>uartputc\<close> of \<^verbatim>\<open>uart.c\<close> and \<^verbatim>\<open>printint\<close>, \<^verbatim>\<open>cprintf\<close>, \<^verbatim>\<open>dbgprintf\<close>, \<^verbatim>\<open>cgaputc\<close>
  and \<^verbatim>\<open>consputc\<close> of \<^verbatim>\<open>console.c\<close>. The serial line is the list of bytes sent, the screen is the CGA
  memory at \<^verbatim>\<open>P2V(0xb8000)\<close> with the cursor position in two registers of the controller. It is shown
  that printed numbers denote the argument, that the digits fit the buffer, and that the cursor
  never leaves the screen.
\<close>

section \<open>State\<close>

text \<open>\<open>con_pos\<close> is the 16-bit cursor position that the CRT controller holds.\<close>

record constate = kstate +
  con_panicked :: int
  con_locking :: int
  con_pos :: "16 word"
  uart_present :: int
  uart_out :: "8 word list"

section \<open>Characters\<close>

definition BACKSPACE :: int where
  "BACKSPACE = 0x100"

definition CRT :: addr where
  "CRT = KERNBASE + 0xb8000"

definition chr :: "char \<Rightarrow> int" where
  "chr c = of_char c"

definition uartputc :: "int \<Rightarrow> (unit, 'a constate_scheme) kern" where
  "uartputc c = kget (\<lambda>s. kwhen (uart_present s \<noteq> 0)
     (kmod (\<lambda>s. s\<lparr>uart_out := uart_out s @ [word_of_int c]\<rparr>)))"

definition store16 :: "addr \<Rightarrow> 16 word \<Rightarrow> mem \<Rightarrow> mem" where
  "store16 a w m = m(a := ucast w, a + 1 := ucast (drop_bit 8 w))"

text \<open>\<^verbatim>\<open>crt[pos] = w\<close>; an element outside the 16-bit index range is never addressed.\<close>

definition crt_put :: "int \<Rightarrow> 16 word \<Rightarrow> (unit, 'a constate_scheme) kern" where
  "crt_put pos w = kmod (\<lambda>s. s\<lparr>m_mem := store16 (CRT + 2 * word_of_int pos) w (m_mem s)\<rparr>)"

definition cga_scroll :: "int \<Rightarrow> mem \<Rightarrow> mem" where
  "cga_scroll pos m = memset (CRT + 2 * word_of_int pos) 0 (2 * word_of_int (24 * 80 - pos))
     (memmove CRT (CRT + 2 * 80) (2 * 23 * 80) m)"

definition cgaputc :: "int \<Rightarrow> (unit, 'a constate_scheme) kern" where
  "cgaputc c = kget (\<lambda>s. let pos = uint (con_pos s) in
     kbind (if c = 10 then kret (pos + (80 - pos mod 80))
            else if c = BACKSPACE then kret (if pos > 0 then pos - 1 else pos)
            else kseq (crt_put pos ((word_of_int c AND 0xff) OR 0x0700)) (kret (pos + 1))) (\<lambda>pos.
     if pos < 0 \<or> pos > 25 * 80 then panic ''pos under/overflow'' else
     kbind (if pos div 80 \<ge> 24
            then kseq (kmod (\<lambda>s. s\<lparr>m_mem := cga_scroll (pos - 80) (m_mem s)\<rparr>)) (kret (pos - 80))
            else kret pos) (\<lambda>pos.
     kseq (kmod (\<lambda>s. s\<lparr>con_pos := word_of_int pos\<rparr>))
     (crt_put pos (0x20 OR 0x0700)))))"

text \<open>Once another CPU has panicked, output stops this CPU for good, with interrupts off.\<close>

definition consputc :: "int \<Rightarrow> (unit, 'a constate_scheme) kern" where
  "consputc c = kget (\<lambda>s.
     if con_panicked s \<noteq> 0 then (\<lambda>s rs. Block (s\<lparr>m_if := False\<rparr>)) else
     kseq (if c = BACKSPACE
           then kseq (uartputc 8) (kseq (uartputc 32) (uartputc 8))
           else uartputc c)
     (cgaputc c))"

definition consputs :: "int list \<Rightarrow> (unit, 'a constate_scheme) kern" where
  "consputs cs = kfor cs consputc"

section \<open>Numbers\<close>

definition digits :: "char list" where
  "digits = ''0123456789abcdef''"

text \<open>The digits in the order in which the loop finds them, the last one first.\<close>

function printint_loop :: "nat \<Rightarrow> nat \<Rightarrow> char list" where
  "printint_loop base x =
     digits ! (x mod base) # (if x div base \<noteq> 0 \<and> 1 < base then printint_loop base (x div base) else [])"
  by pat_completeness auto
termination
  by (relation "measure snd") (auto intro!: div_less_dividend gr0I)

declare printint_loop.simps [simp del]

text \<open>
  \<^verbatim>\<open>x = -xx\<close> negates an \<^verbatim>\<open>int\<close>; for the least one that overflows, which C leaves undefined, and the
  model has the wrapped value that the compiled code computes.
\<close>

definition printint_buf :: "32 word \<Rightarrow> nat \<Rightarrow> int \<Rightarrow> char list" where
  "printint_buf xx base sign =
     (let neg = (sign \<noteq> 0 \<and> sint xx < 0);
          x = (if neg then - xx else xx);
          buf = printint_loop base (unat x)
      in if neg then buf @ ''-'' else buf)"

definition printint :: "32 word \<Rightarrow> nat \<Rightarrow> int \<Rightarrow> (unit, 'a constate_scheme) kern" where
  "printint xx base sign = consputs (map chr (rev (printint_buf xx base sign)))"

section \<open>Formatted output\<close>

text \<open>The arguments behind the format: a word, or a pointer to a string.\<close>

datatype parg = AWord "32 word" | AStr "string option"

fun cprintf_loop :: "string \<Rightarrow> parg list \<Rightarrow> (unit, 'a constate_scheme) kern" where
  "cprintf_loop [] args = kret ()"
| "cprintf_loop (c # fmt) args =
     (if c \<noteq> CHR ''%'' then kseq (consputc (chr c)) (cprintf_loop fmt args)
      else (case fmt of
        [] \<Rightarrow> kret ()
      | d # fmt' \<Rightarrow>
          if d = CHR ''d''
          then (case args of AWord w # args' \<Rightarrow> kseq (printint w 10 1) (cprintf_loop fmt' args')
                | _ \<Rightarrow> (\<lambda>s rs. Undef))
          else if d = CHR ''x'' \<or> d = CHR ''p''
          then (case args of AWord w # args' \<Rightarrow> kseq (printint w 16 0) (cprintf_loop fmt' args')
                | _ \<Rightarrow> (\<lambda>s rs. Undef))
          else if d = CHR ''s''
          then (case args of
                  AStr p # args' \<Rightarrow>
                    kseq (consputs (map chr (case p of None \<Rightarrow> ''(null)'' | Some str \<Rightarrow> str)))
                      (cprintf_loop fmt' args')
                | _ \<Rightarrow> (\<lambda>s rs. Undef))
          else if d = CHR ''%'' then kseq (consputc (chr CHR ''%'')) (cprintf_loop fmt' args)
          else kseq (consputc (chr CHR ''%'')) (kseq (consputc (chr d)) (cprintf_loop fmt' args))))"

declare cprintf_loop.simps(2) [simp del]

definition cprintf :: "string \<Rightarrow> parg list \<Rightarrow> (unit, 'a constate_scheme) kern" where
  "cprintf fmt args = kget (\<lambda>s. let locking = (con_locking s \<noteq> 0) in
     kseq (kwhen locking (acquire LCons)) (
     kseq (cprintf_loop fmt args)
     (kwhen locking (release LCons))))"

definition dbgprintf :: "int \<Rightarrow> string \<Rightarrow> parg list \<Rightarrow> (unit, 'a constate_scheme) kern" where
  "dbgprintf cond fmt args = (if cond = 0 then kret () else cprintf fmt args)"

section \<open>Lemmas\<close>

text \<open>The value of a list of digits, the last one first.\<close>

definition digit_val :: "char \<Rightarrow> nat" where
  "digit_val c = (if c \<in> set ''0123456789'' then of_char c - 48 else of_char c - 87)"

primrec digits_val :: "nat \<Rightarrow> char list \<Rightarrow> nat" where
  "digits_val base [] = 0"
| "digits_val base (c # cs) = digit_val c + base * digits_val base cs"

lemma digit_val_digits: "i < 16 \<Longrightarrow> digit_val (digits ! i) = i"
proof -
  have "\<forall>i\<in>set [0..<16]. digit_val (digits ! i) = i" by (simp add: digit_val_def digits_def upt_rec)
  then show "i < 16 \<Longrightarrow> digit_val (digits ! i) = i" by simp
qed

lemma printint_loop_value:
  "1 < base \<Longrightarrow> base \<le> 16 \<Longrightarrow> digits_val base (printint_loop base x) = x"
proof (induction base x rule: printint_loop.induct)
  case (1 base x)
  have "x mod base < base" using "1.prems" by simp
  then have "x mod base < 16" using "1.prems"(2) by linarith
  then show ?case
    using 1 mod_eq_self_iff_div_eq_0 [of x base]
    by (subst printint_loop.simps) (auto simp: digit_val_digits)
qed

lemma printint_loop_length:
  "1 < base \<Longrightarrow> x < base ^ Suc k \<Longrightarrow> length (printint_loop base x) \<le> Suc k"
proof (induction k arbitrary: x)
  case 0
  then show ?case by (subst printint_loop.simps) simp
next
  case (Suc k)
  have "x div base < base ^ Suc k"
    using Suc.prems by (simp add: div_less_iff_less_mult mult.commute)
  then show ?case
    using Suc by (subst printint_loop.simps) simp
qed

lemma uartputc_run: "\<exists>out. uartputc c s rs = Ret () (s\<lparr>uart_out := out\<rparr>) rs"
proof (cases "uart_present s = 0")
  case True
  then show ?thesis by (intro exI [of _ "uart_out s"]) (simp add: uartputc_def)
next
  case False
  then show ?thesis by (auto simp: uartputc_def)
qed

text \<open>The position after one character; from the last line it scrolls back.\<close>

definition next_pos :: "int \<Rightarrow> int \<Rightarrow> int" where
  "next_pos c pos =
     (let p = (if c = 10 then pos + (80 - pos mod 80)
               else if c = BACKSPACE then (if pos > 0 then pos - 1 else pos) else pos + 1)
      in if p div 80 \<ge> 24 then p - 80 else p)"

lemma next_pos_screen:
  assumes "0 \<le> pos" and "pos \<le> 24 * 80"
  shows "0 \<le> next_pos c pos \<and> next_pos c pos \<le> 24 * 80"
proof -
  have "pos = 24 * 80 \<or> pos div 80 \<le> 23" using assms by linarith
  then have "pos + (80 - pos mod 80) \<le> 25 * 80" "0 \<le> pos + (80 - pos mod 80)"
    using assms by (auto simp: minus_mod_eq_mult_div)
  then show ?thesis using assms by (auto simp: next_pos_def Let_def)
qed

text \<open>The bytes of the screen.\<close>

definition on_screen :: "addr \<Rightarrow> bool" where
  "on_screen a \<longleftrightarrow> unat CRT \<le> unat a \<and> unat a < unat CRT + 2 * 25 * 80"

lemma unat_twice:
  assumes "0 \<le> i" and "i < 2 ^ 31"
  shows "unat (2 * word_of_int i :: 32 word) = 2 * nat i"
proof -
  have "unat (word_of_int i :: 32 word) = nat i"
    using assms by (simp add: unat_eq_nat_uint uint_word_of_int)
  then show ?thesis using assms by (simp add: unat_word_ariths)
qed

lemma unat_cell:
  assumes "0 \<le> pos" and "pos \<le> 2000"
  shows "unat (CRT + 2 * word_of_int pos) = unat CRT + 2 * nat pos"
proof -
  have "unat (word_of_int pos :: 32 word) = nat pos"
    using assms by (simp add: unat_eq_nat_uint uint_word_of_int)
  then show ?thesis
    using assms by (simp add: CRT_def KERNBASE_def unat_word_ariths)
qed

lemma store16_screen:
  assumes "0 \<le> pos" and "pos < 2000" and "\<not> on_screen a"
  shows "store16 (CRT + 2 * word_of_int pos) w m a = m a"
proof -
  let ?c = "CRT + 2 * word_of_int pos"
  have c: "unat ?c = unat CRT + 2 * nat pos" by (rule unat_cell) (use assms in auto)
  moreover have "unat CRT + 4000 < 2 ^ 32" by (simp add: CRT_def KERNBASE_def)
  ultimately have "unat (?c + 1) = unat CRT + 2 * nat pos + 1"
    using assms by (simp add: unat_word_ariths)
  then have "on_screen ?c" "on_screen (?c + 1)"
    using c assms by (auto simp: on_screen_def)
  then show ?thesis using assms(3) by (auto simp: store16_def)
qed

lemma cga_scroll_screen:
  assumes "0 \<le> pos" and "pos \<le> 24 * 80" and "\<not> on_screen a"
  shows "cga_scroll pos m a = m a"
proof -
  have crt: "unat CRT + 4000 < 2 ^ 32" by (simp add: CRT_def KERNBASE_def)
  have n: "unat (2 * word_of_int (24 * 80 - pos) :: 32 word) = 2 * nat (24 * 80 - pos)"
    using assms(1,2) by (intro unat_twice) auto
  have c: "unat (CRT + 2 * word_of_int pos) = unat CRT + 2 * nat pos"
    by (rule unat_cell) (use assms in auto)
  have le: "2 * nat pos + 2 * nat (24 * 80 - pos) = 3840" using assms(1,2) by simp
  have "memmove CRT (CRT + 2 * 80) (2 * 23 * 80) m a = m a"
    using assms(3) crt by (subst memmove_spec) (auto simp: on_screen_def CRT_def KERNBASE_def)
  moreover have "memset (CRT + 2 * word_of_int pos) 0 (2 * word_of_int (24 * 80 - pos)) m' a = m' a" for m'
    unfolding memset_stosb n by (subst stosb_spec) (use assms(3) crt c le in \<open>auto simp: on_screen_def\<close>)
  ultimately show ?thesis by (simp add: cga_scroll_def)
qed

text \<open>Output changes the screen, the cursor and what was sent; the cursor stays in range.\<close>

definition screen_ok :: "'a constate_scheme \<Rightarrow> bool" where
  "screen_ok s \<longleftrightarrow> uint (con_pos s) \<le> 24 * 80"

definition printed :: "'a constate_scheme \<Rightarrow> 'a constate_scheme \<Rightarrow> bool" where
  "printed s s' \<longleftrightarrow> (\<exists>m p out. s' = s\<lparr>m_mem := m, con_pos := p, uart_out := out\<rparr> \<and>
     uint p \<le> 24 * 80 \<and> (\<forall>a. \<not> on_screen a \<longrightarrow> m a = m_mem s a))"

lemma printedI:
  "uint p \<le> 24 * 80 \<Longrightarrow> (\<And>a. \<not> on_screen a \<Longrightarrow> m a = m_mem s a) \<Longrightarrow>
    printed s (s\<lparr>m_mem := m, con_pos := p, uart_out := out\<rparr>)"
  unfolding printed_def by blast

lemma printed_trans:
  assumes "printed a b" and "printed b c"
  shows "printed a c"
proof -
  obtain m p out where b: "b = a\<lparr>m_mem := m, con_pos := p, uart_out := out\<rparr>"
      "\<And>x. \<not> on_screen x \<Longrightarrow> m x = m_mem a x"
    using assms(1) unfolding printed_def by blast
  obtain m' p' out' where c: "c = b\<lparr>m_mem := m', con_pos := p', uart_out := out'\<rparr>"
      "uint p' \<le> 24 * 80" "\<And>x. \<not> on_screen x \<Longrightarrow> m' x = m_mem b x"
    using assms(2) unfolding printed_def by blast
  have "c = a\<lparr>m_mem := m', con_pos := p', uart_out := out'\<rparr>" unfolding c(1) b(1) by simp
  moreover have "m' x = m_mem a x" if "\<not> on_screen x" for x
    using b(2) c(3) that unfolding b(1) by simp
  ultimately show ?thesis using c(2) by (simp add: printedI)
qed

lemma printed_screen: "printed s s' \<Longrightarrow> screen_ok s'"
  by (auto simp: printed_def screen_ok_def)

lemma cgaputc_run:
  assumes "screen_ok s"
  shows "\<exists>m. cgaputc c s rs
      = Ret () (s\<lparr>m_mem := m, con_pos := word_of_int (next_pos c (uint (con_pos s)))\<rparr>) rs \<and>
    (\<forall>a. \<not> on_screen a \<longrightarrow> m a = m_mem s a)"
proof -
  define pos where "pos = uint (con_pos s)"
  have pos: "0 \<le> pos" "pos \<le> 24 * 80" using assms by (simp_all add: pos_def screen_ok_def)
  define p where "p = (if c = 10 then pos + (80 - pos mod 80)
    else if c = BACKSPACE then (if pos > 0 then pos - 1 else pos) else pos + 1)"
  define m1 where "m1 = (if c = 10 \<or> c = BACKSPACE then m_mem s
    else store16 (CRT + 2 * word_of_int pos) ((word_of_int c AND 0xff) OR 0x0700) (m_mem s))"
  define m2 where "m2 = (if p div 80 \<ge> 24 then cga_scroll (p - 80) m1 else m1)"
  define p' where "p' = next_pos c pos"
  have p': "0 \<le> p'" "p' \<le> 24 * 80" using next_pos_screen [OF pos] by (auto simp: p'_def)
  have p'p: "p' = (if p div 80 \<ge> 24 then p - 80 else p)"
    by (simp add: p'_def next_pos_def p_def Let_def)
  have "p = p' \<or> p = p' + 80" using p'p by presburger
  then have p: "\<not> (p < 0 \<or> p > 25 * 80)" using p' by linarith
  let ?step = "if c = 10 then kret (pos + (80 - pos mod 80))
      else if c = BACKSPACE then kret (if pos > 0 then pos - 1 else pos)
      else kseq (crt_put pos ((word_of_int c AND 0xff) OR 0x0700)) (kret (pos + 1))"
  let ?scroll = "if p div 80 \<ge> 24
      then kseq (kmod (\<lambda>s. s\<lparr>m_mem := cga_scroll (p - 80) (m_mem s)\<rparr>)) (kret (p - 80)) else kret p"
  have step: "?step s rs = Ret p (s\<lparr>m_mem := m1\<rparr>) rs"
    unfolding p_def m1_def by (simp add: crt_put_def)
  have scroll: "?scroll (s\<lparr>m_mem := m1\<rparr>) rs = Ret p' (s\<lparr>m_mem := m2\<rparr>) rs"
    unfolding p'p m2_def by simp
  have run: "cgaputc c s rs = Ret () (s\<lparr>m_mem := store16 (CRT + 2 * word_of_int p') (0x20 OR 0x0700) m2,
      con_pos := word_of_int p'\<rparr>) rs"
    unfolding cgaputc_def kprim_simps Let_def pos_def [symmetric] kbind_simps(1) [where m = "?step", OF step]
      if_not_P [OF p] kbind_simps(1) [where m = "?scroll", OF scroll] by (simp add: crt_put_def)
  have "m1 a = m_mem s a" if "\<not> on_screen a" for a
    using that pos by (simp add: m1_def store16_screen)
  then have "m2 a = m_mem s a" if "\<not> on_screen a" for a
    using that p' p'p cga_scroll_screen [of "p - 80" a m1] by (cases "24 \<le> p div 80") (simp_all add: m2_def)
  then have "store16 (CRT + 2 * word_of_int p') (0x20 OR 0x0700) m2 a = m_mem s a" if "\<not> on_screen a" for a
    using that p' by (simp add: store16_screen)
  then show ?thesis using run unfolding p'_def pos_def by blast
qed

definition con_ok :: "'a constate_scheme \<Rightarrow> bool" where
  "con_ok s \<longleftrightarrow> con_panicked s = 0 \<and> screen_ok s"

lemma printed_ok: "printed s s' \<Longrightarrow> con_ok s \<Longrightarrow> con_ok s'"
  by (auto simp: con_ok_def printed_def screen_ok_def)

lemma printed_refl: "con_ok s \<Longrightarrow> printed s s"
  using printedI [of "con_pos s" "m_mem s" s "uart_out s"] by (simp add: con_ok_def screen_ok_def)

lemma consputc_run:
  assumes "con_ok s"
  shows "\<exists>s'. consputc c s rs = Ret () s' rs \<and> printed s s'"
proof -
  have uart: "\<exists>out. (if c = BACKSPACE then kseq (uartputc 8) (kseq (uartputc 32) (uartputc 8))
      else uartputc c) s rs = Ret () (s\<lparr>uart_out := out\<rparr>) rs"
  proof (cases "c = BACKSPACE")
    case True
    obtain o1 where 1: "uartputc 8 s rs = Ret () (s\<lparr>uart_out := o1\<rparr>) rs" using uartputc_run by blast
    obtain o2 where 2: "uartputc 32 (s\<lparr>uart_out := o1\<rparr>) rs = Ret () (s\<lparr>uart_out := o2\<rparr>) rs"
      using uartputc_run [of 32 "s\<lparr>uart_out := o1\<rparr>" rs] by auto
    obtain o3 where "uartputc 8 (s\<lparr>uart_out := o2\<rparr>) rs = Ret () (s\<lparr>uart_out := o3\<rparr>) rs"
      using uartputc_run [of 8 "s\<lparr>uart_out := o2\<rparr>" rs] by auto
    then show ?thesis using True 1 2 by auto
  qed (use uartputc_run in auto)
  then obtain out where u: "(if c = BACKSPACE then kseq (uartputc 8) (kseq (uartputc 32) (uartputc 8))
      else uartputc c) s rs = Ret () (s\<lparr>uart_out := out\<rparr>) rs" by blast
  let ?s = "s\<lparr>uart_out := out\<rparr>" and ?p = "next_pos c (uint (con_pos s))"
  have ok: "screen_ok ?s" using assms by (simp add: con_ok_def screen_ok_def)
  obtain m where m: "cgaputc c ?s rs = Ret () (?s\<lparr>m_mem := m, con_pos := word_of_int ?p\<rparr>) rs"
      "\<And>a. \<not> on_screen a \<Longrightarrow> m a = m_mem s a"
    using cgaputc_run [OF ok, of c rs] by auto
  have "0 \<le> ?p" "?p \<le> 24 * 80"
    using assms next_pos_screen [of "uint (con_pos s)" c] by (auto simp: con_ok_def screen_ok_def)
  then have "uint (word_of_int ?p :: 16 word) \<le> 24 * 80"
    by (simp add: uint_word_of_int)
  then have "printed s (s\<lparr>m_mem := m, con_pos := word_of_int ?p, uart_out := out\<rparr>)"
    using m(2) by (intro printedI) auto
  moreover have "consputc c s rs = Ret () (?s\<lparr>m_mem := m, con_pos := word_of_int ?p\<rparr>) rs"
    using assms u m(1) by (simp add: consputc_def con_ok_def)
  moreover have "?s\<lparr>m_mem := m, con_pos := word_of_int ?p\<rparr>
      = s\<lparr>m_mem := m, con_pos := word_of_int ?p, uart_out := out\<rparr>" by simp
  ultimately show ?thesis by metis
qed

text \<open>A computation that only prints.\<close>

definition prints :: "(unit, 'a constate_scheme) kern \<Rightarrow> bool" where
  "prints m \<longleftrightarrow> (\<forall>s rs. con_ok s \<longrightarrow> (\<exists>s'. m s rs = Ret () s' rs \<and> printed s s'))"

lemma prints_ret [simp]: "prints (kret ())" "prints (Ret ())"
  by (auto simp: prints_def printed_refl)

lemma prints_consputc [simp]: "prints (consputc c)"
  using consputc_run by (auto simp: prints_def)

lemma prints_seq [intro]:
  assumes "prints m" and "prints m'"
  shows "prints (kseq m m')"
  unfolding prints_def
proof (intro allI impI)
  fix s :: "'a constate_scheme" and rs assume ok: "con_ok s"
  obtain s1 where 1: "m s rs = Ret () s1 rs" "printed s s1"
    using assms(1) ok unfolding prints_def by blast
  obtain s2 where "m' s1 rs = Ret () s2 rs" "printed s1 s2"
    using assms(2) printed_ok [OF 1(2) ok] unfolding prints_def by blast
  then show "\<exists>s'. kseq m m' s rs = Ret () s' rs \<and> printed s s'"
    using 1 printed_trans by auto
qed

lemma prints_consputs [simp]: "prints (consputs cs)"
  by (induction cs) (auto simp: consputs_def)

lemma prints_printint [simp]: "prints (printint w base sign)"
  by (simp add: printint_def)

text \<open>The arguments are of the kinds that the format asks for.\<close>

fun fmt_ok :: "string \<Rightarrow> parg list \<Rightarrow> bool" where
  "fmt_ok [] args = True"
| "fmt_ok (c # fmt) args =
     (if c \<noteq> CHR ''%'' then fmt_ok fmt args
      else (case fmt of
        [] \<Rightarrow> True
      | d # fmt' \<Rightarrow>
          if d \<in> {CHR ''d'', CHR ''x'', CHR ''p''}
          then (case args of AWord w # args' \<Rightarrow> fmt_ok fmt' args' | _ \<Rightarrow> False)
          else if d = CHR ''s''
          then (case args of AStr p # args' \<Rightarrow> fmt_ok fmt' args' | _ \<Rightarrow> False)
          else fmt_ok fmt' args))"

declare fmt_ok.simps(2) [simp del]

lemma prints_cprintf_loop:
  "fmt_ok fmt args \<Longrightarrow> prints (cprintf_loop fmt args :: (unit, 'a constate_scheme) kern)"
proof (induction fmt args rule: fmt_ok.induct)
  case (2 c fmt args)
  show ?case
  proof (cases "c = CHR ''%''")
    case False
    then show ?thesis using 2 by (auto simp: cprintf_loop.simps(2) fmt_ok.simps(2))
  next
    case pct: True
    show ?thesis
    proof (cases fmt)
      case Nil
      then show ?thesis using pct by (simp add: cprintf_loop.simps(2))
    next
      case (Cons d fmt')
      have ok: "fmt_ok (CHR ''%'' # d # fmt') args" using "2.prems" pct Cons by simp
      show ?thesis
      proof (cases "d \<in> {CHR ''d'', CHR ''x'', CHR ''p''}")
        case True
        then obtain w args' where args: "args = AWord w # args'" "fmt_ok fmt' args'"
          using ok by (auto simp: fmt_ok.simps(2) split: list.splits parg.splits)
        have "prints (cprintf_loop fmt' args' :: (unit, 'a constate_scheme) kern)"
          by (rule "2.IH"(2) [OF _ Cons _ args(1) refl]) (use pct True args(2) in simp_all)
        then show ?thesis using True pct Cons args(1) by (auto simp: cprintf_loop.simps(2))
      next
        case no: False
        show ?thesis
        proof (cases "d = CHR ''s''")
          case True
          then obtain p args' where args: "args = AStr p # args'" "fmt_ok fmt' args'"
            using ok by (auto simp: fmt_ok.simps(2) split: list.splits parg.splits)
          have "prints (cprintf_loop fmt' args' :: (unit, 'a constate_scheme) kern)"
            by (rule "2.IH"(3) [OF _ Cons _ _ args(1) refl]) (use pct no True args(2) in simp_all)
          then show ?thesis using True pct Cons args(1) by (auto simp: cprintf_loop.simps(2))
        next
          case False
          then have f: "fmt_ok fmt' args" using ok no by (simp add: fmt_ok.simps(2))
          have "prints (cprintf_loop fmt' args :: (unit, 'a constate_scheme) kern)"
            by (rule "2.IH"(4) [OF _ Cons no False]) (use pct f in simp_all)
          then show ?thesis
            using False no pct Cons by (auto simp: cprintf_loop.simps(2) intro!: prints_seq)
        qed
      qed
    qed
  qed
qed simp

lemma con_fields [simp]:
  "con_ok (acquired l s) = con_ok s" "con_locking (acquired l s) = con_locking s"
  by (simp_all add: con_ok_def screen_ok_def acquired_def up_lock_def pushed_def up_cpu_def)

text \<open>What \<^verbatim>\<open>cprintf\<close> leaves when it takes the console lock.\<close>

definition printed_locked :: "'a constate_scheme \<Rightarrow> 'a constate_scheme \<Rightarrow> bool" where
  "printed_locked s s' \<longleftrightarrow>
     (if con_locking s = 0 then printed s s'
      else (\<exists>s1. printed (acquired LCons s) s1 \<and> s' = released LCons s1))"

lemma printed_machine:
  assumes "printed s s'"
  shows "m_cpus s' = m_cpus s" "m_lapicid s' = m_lapicid s" "m_if s' = m_if s" "m_locks s' = m_locks s"
    "m_args s' = m_args s" "self s' = self s" "mine s' = mine s" "ncli s' = ncli s" "holds l s' = holds l s"
    "cpu_ok s' = cpu_ok s" "con_locking s' = con_locking s" "con_panicked s' = con_panicked s"
  using assms by (auto simp: printed_def self_def mine_def ncli_def holds_def cpu_ok_def)

lemma cprintf_run:
  assumes "con_ok s" and "cpu_ok s" and "con_locking s \<noteq> 0 \<longrightarrow> lk_locked (m_locks s LCons) = 0"
    and "fmt_ok fmt args"
  shows "\<exists>s'. cprintf fmt args s rs = Ret () s' rs \<and> printed_locked s s'"
proof (cases "con_locking s = 0")
  case True
  obtain s' where "cprintf_loop fmt args s rs = Ret () s' rs" "printed s s'"
    using prints_cprintf_loop [OF assms(4)] assms(1) unfolding prints_def by blast
  then show ?thesis using True by (simp add: cprintf_def Let_def printed_locked_def)
next
  case False
  let ?s = "acquired LCons s"
  have "con_ok ?s" using assms(1) by simp
  then obtain s1 where s1: "cprintf_loop fmt args ?s rs = Ret () s1 rs" "printed ?s s1"
    using prints_cprintf_loop [OF assms(4)] unfolding prints_def by blast
  have "0 \<le> ncli s" "self s \<noteq> None" using assms(2) by (auto simp: cpu_ok_def)
  then have "release LCons s1 rs = Ret () (released LCons s1) rs"
    using assms(2) printed_machine [OF s1(2)] by (intro release_run) auto
  then have "cprintf fmt args s rs = Ret () (released LCons s1) rs"
    using s1 False assms(2,3) by (simp add: cprintf_def Let_def acquire_run)
  then show ?thesis using s1(2) False by (auto simp: printed_locked_def)
qed

lemma printed_locked_keeps:
  assumes "printed_locked s s'" and "cpu_ok s"
    and "con_locking s \<noteq> 0 \<longrightarrow> lk_locked (m_locks s LCons) = 0"
  shows "same_locks s s'" and "screen_ok s'" and "\<not> on_screen a \<Longrightarrow> m_mem s' a = m_mem s a"
proof -
  have *: "same_locks s s' \<and> screen_ok s' \<and> (\<not> on_screen a \<longrightarrow> m_mem s' a = m_mem s a)"
  proof (cases "con_locking s = 0")
    case True
    then have p: "printed s s'" using assms(1) by (simp add: printed_locked_def)
    then have "same_locks s s'" using printed_machine [OF p] by (simp add: same_locks_def)
    then show ?thesis using p printed_screen [OF p] by (auto simp: printed_def)
  next
    case False
    then obtain s1 where p: "printed (acquired LCons s) s1" "s' = released LCons s1"
      using assms(1) by (auto simp: printed_locked_def)
    have "same_locks s s'" unfolding p(2)
      using assms False printed_machine [OF p(1)] by (intro same_locks_section) auto
    moreover have "screen_ok s'" using printed_screen [OF p(1)] unfolding p(2)
      by (simp add: screen_ok_def released_def up_lock_def popped_def up_cpu_def)
    ultimately show ?thesis using p by (auto simp: printed_def)
  qed
  then show "same_locks s s'" "screen_ok s'" "\<not> on_screen a \<Longrightarrow> m_mem s' a = m_mem s a" by auto
qed

lemma shrinks_cases:
  "shrinks n0 \<Longrightarrow> (\<And>x xs. l = x # xs \<Longrightarrow> shrinks (f x xs)) \<Longrightarrow> shrinks (case l of [] \<Rightarrow> n0 | x # xs \<Rightarrow> f x xs)"
  "(\<And>w. shrinks (g w)) \<Longrightarrow> (\<And>p. shrinks (h p)) \<Longrightarrow> shrinks (case a of AWord w \<Rightarrow> g w | AStr p \<Rightarrow> h p)"
  by (auto split: list.split parg.split)

lemma shrinks_print [shrinks_intros]: "shrinks (cprintf fmt args)"
proof -
  have putc: "shrinks (consputc c)" for c
    unfolding consputc_def uartputc_def cgaputc_def crt_put_def by (intro shrinks_intros)
  have puts: "shrinks (consputs cs)" for cs unfolding consputs_def by (intro shrinks_intros putc)
  have "shrinks (cprintf_loop fmt args)"
  proof (induction "length fmt" arbitrary: fmt args rule: less_induct)
    case less
    show ?case
    proof (cases fmt)
      case Nil
      then show ?thesis by (simp add: shrinks_prims)
    next
      case (Cons c f)
      show ?thesis unfolding Cons cprintf_loop.simps(2) printint_def
        by (intro shrinks_intros shrinks_cases putc puts less) (simp_all add: Cons)
    qed
  qed
  then show ?thesis unfolding cprintf_def by (intro shrinks_intros)
qed

lemma sint_32:
  "sint (x :: 32 word) = (if uint x < 2 ^ 31 then uint x else uint x - 2 ^ 32)"
proof -
  have eq: "sint x = (uint x + 2 ^ 31) mod 2 ^ 32 - 2 ^ 31"
    by (simp add: sint_uint signed_take_bit_eq_take_bit_shift take_bit_eq_mod)
  have "uint x < 2 ^ 32" "0 \<le> uint x" using uint_bounded [of x] by simp_all
  moreover have "(uint x + 2 ^ 31) mod 2 ^ 32 = uint x - 2 ^ 31" if "\<not> uint x < 2 ^ 31"
    using that calculation by (intro int_mod_pos_eq [where q = 1]) auto
  ultimately show ?thesis
    unfolding eq by (simp add: mod_pos_pos_trivial)
qed

section \<open>Properties\<close>

text \<open>C29: \<^verbatim>\<open>printint\<close> prints the number it is given: read back in the same base, the digits denote the
  unsigned argument, or with a sign asked for the absolute value of a negative one behind a minus;
  and the characters fit the 16 bytes of its buffer, also for the smallest integer.\<close>

theorem printint_denotes:
  "(let buf = printint_buf xx 10 1 in length buf \<le> 16 \<and>
      (if sint xx < 0 then (\<exists>ds. buf = ds @ ''-'' \<and> int (digits_val 10 ds) = - sint xx)
       else int (digits_val 10 buf) = sint xx)) \<and>
   (let buf = printint_buf xx 16 0 in length buf \<le> 16 \<and> digits_val 16 buf = unat xx)"
proof -
  have len: "length (printint_loop 10 (unat x)) \<le> 10" "length (printint_loop 16 (unat x)) \<le> 8"
    for x :: "32 word"
    using printint_loop_length [of 10 "unat x" 9] printint_loop_length [of 16 "unat x" 7]
      unat_lt_32 [of x] by simp_all
  have u: "0 \<le> uint xx" "uint xx < 2 ^ 32" using uint_bounded [of xx] by simp_all
  have neg: "int (unat (- xx)) = - sint xx" if "sint xx < 0"
  proof -
    have "sint xx = uint xx - 2 ^ 32" "0 < uint xx" using that u by (auto simp: sint_32 split: if_splits)
    moreover have "uint (- xx) = (- uint xx) mod 2 ^ 32" by (simp add: uint_word_ariths)
    moreover have "(- uint xx) mod 2 ^ 32 = 2 ^ 32 - uint xx"
      using u calculation(2) by (intro int_mod_pos_eq [where q = "-1"]) auto
    ultimately show ?thesis by (simp add: unat_eq_nat_uint)
  qed
  have pos: "int (unat xx) = sint xx" if "\<not> sint xx < 0"
    using that u by (auto simp: sint_32 split: if_splits)
  show ?thesis
    using len [of xx] len [of "- xx"] neg pos
    by (auto simp: printint_buf_def Let_def printint_loop_value)
qed

text \<open>C30: \<^verbatim>\<open>cprintf\<close> with arguments that match its format returns: the cursor starts and ends on the
  screen, so \<^verbatim>\<open>cgaputc\<close> never reports an overflow, no byte outside the CGA memory changes, and the
  console lock is free again with nesting and interrupt flag as before.\<close>

theorem cprintf_stays_on_screen:
  assumes "con_panicked s = 0" and "uint (con_pos s) \<le> 24 * 80" and "cpu_ok s"
    and "lk_locked (m_locks s LCons) = 0" and "fmt_ok fmt args"
  shows "\<exists>s'. cprintf fmt args s rs = Ret () s' rs \<and> uint (con_pos s') \<le> 24 * 80 \<and>
    (\<forall>a. \<not> on_screen a \<longrightarrow> m_mem s' a = m_mem s a) \<and> same_locks s s'"
proof -
  have ok: "con_ok s" "con_locking s \<noteq> 0 \<longrightarrow> lk_locked (m_locks s LCons) = 0"
    using assms by (simp_all add: con_ok_def screen_ok_def)
  then obtain s' where s': "cprintf fmt args s rs = Ret () s' rs" "printed_locked s s'"
    using cprintf_run [OF ok(1) assms(3) ok(2) assms(5), of rs] by blast
  then show ?thesis
    using printed_locked_keeps [OF s'(2) assms(3) ok(2)] by (auto simp: screen_ok_def)
qed

definition boot_con :: constate where
  "boot_con = kstate.extend boot_kmem
     \<lparr>con_panicked = 0, con_locking = 1, con_pos = 0, uart_present = 1, uart_out = []\<rparr>"

lemma boot_con_ok:
  "con_panicked boot_con = 0" "con_pos boot_con = 0" "cpu_ok boot_con"
  "lk_locked (m_locks boot_con l) = 0"
  by (simp_all add: boot_con_def boot_kmem_def one_cpu_def kstate.defs machine.defs cpu_ok_def
      self_def ncli_def mine_def)

theorem cprintf_stays_on_screen_witness:
  "\<exists>s'. cprintf ''pid %d %s'' [AWord 7, AStr (Some ''sh'')] boot_con [] = Ret () s' [] \<and>
     uint (con_pos s') \<le> 24 * 80"
proof -
  have "fmt_ok ''pid %d %s'' [AWord 7, AStr (Some ''sh'')]" by (simp add: fmt_ok.simps(2))
  moreover have "uint (con_pos boot_con) \<le> 24 * 80" by (simp add: boot_con_ok)
  ultimately show ?thesis
    using cprintf_stays_on_screen [OF boot_con_ok(1) _ boot_con_ok(3,4)] by blast
qed

end
