(* ===== verification/Vm.thy ===== *)
theory Vm
  imports Console
begin

unbundle bit_operations_syntax

text \<open>
  Page tables, \<^verbatim>\<open>vm.c\<close>, with the address and entry macros of \<^verbatim>\<open>mmu.h\<close>. Directories and tables are
  pages in memory, read and written through \<open>load32\<close> and \<open>store32\<close> at the addresses the code
  computes. \<open>translate\<close> is what the paging hardware does with them. \<^verbatim>\<open>loaduvm\<close> reads from a file and
  is modelled with \<^verbatim>\<open>exec\<close>; \<^verbatim>\<open>switchuvm\<close> is with the processes.
\<close>

section \<open>Entries and addresses\<close>

text \<open>\<open>vm_cr3\<close> is the page table register of the executing CPU.\<close>

record vmstate = constate +
  vm_kpgdir :: addr
  vm_cr3 :: "32 word"

definition PTE_P :: "32 word" where "PTE_P = 1"
definition PTE_W :: "32 word" where "PTE_W = 2"
definition PTE_U :: "32 word" where "PTE_U = 4"

definition PDX :: "addr \<Rightarrow> 32 word" where
  "PDX va = drop_bit 22 va AND 0x3FF"

definition PTX :: "addr \<Rightarrow> 32 word" where
  "PTX va = drop_bit 12 va AND 0x3FF"

definition PGADDR :: "32 word \<Rightarrow> 32 word \<Rightarrow> 32 word \<Rightarrow> addr" where
  "PGADDR d t off = push_bit 22 d OR push_bit 12 t OR off"

definition PTE_ADDR :: "32 word \<Rightarrow> 32 word" where
  "PTE_ADDR pte = pte AND NOT 0xFFF"

definition PTE_FLAGS :: "32 word \<Rightarrow> 32 word" where
  "PTE_FLAGS pte = pte AND 0xFFF"

definition EXTMEM :: "32 word" where "EXTMEM = 0x100000"
definition DEVSPACE :: "32 word" where "DEVSPACE = 0xFE000000"
definition KERNLINK :: "32 word" where "KERNLINK = KERNBASE + EXTMEM"

section \<open>Memory accesses of kernel code\<close>

text \<open>Through a pointer that may be null.\<close>

definition kload :: "addr \<Rightarrow> (32 word, 'a machine_scheme) kern" where
  "kload p = kget (\<lambda>s. if p = 0 then (\<lambda>s rs. Undef) else kret (load32 (m_mem s) p))"

definition kstore :: "addr \<Rightarrow> 32 word \<Rightarrow> (unit, 'a machine_scheme) kern" where
  "kstore p w = (if p = 0 then (\<lambda>s rs. Undef) else kmod (\<lambda>s. s\<lparr>m_mem := store32 p w (m_mem s)\<rparr>))"

definition kmemset :: "addr \<Rightarrow> 32 word \<Rightarrow> 32 word \<Rightarrow> (unit, 'a machine_scheme) kern" where
  "kmemset p c n = (if p = 0 then (\<lambda>s rs. Undef) else kmod (\<lambda>s. s\<lparr>m_mem := memset p c n (m_mem s)\<rparr>))"

definition kmemmove :: "addr \<Rightarrow> addr \<Rightarrow> 32 word \<Rightarrow> (unit, 'a machine_scheme) kern" where
  "kmemmove d p n = kmod (\<lambda>s. s\<lparr>m_mem := memmove d p n (m_mem s)\<rparr>)"

section \<open>Operations\<close>

definition walkpgdir :: "addr \<Rightarrow> addr \<Rightarrow> int \<Rightarrow> (addr, 'a vmstate_scheme) kern" where
  "walkpgdir pgdir va alloc =
     (let pde = pgdir + 4 * PDX va in
      kbind (kload pde) (\<lambda>e.
      if e AND PTE_P \<noteq> 0
      then kbind (P2V (PTE_ADDR e)) (\<lambda>pgtab. kret (pgtab + 4 * PTX va))
      else if alloc = 0 then kret 0
      else kbind kalloc (\<lambda>pgtab. if pgtab = 0 then kret 0 else
        kseq (kmemset pgtab 0 PGSIZE) (
        kbind (V2P pgtab) (\<lambda>pa.
        kseq (kstore pde (pa OR PTE_P OR PTE_W OR PTE_U)) (
        kret (pgtab + 4 * PTX va)))))))"

text \<open>\<open>n\<close> counts the pages after the current one, up to \<^verbatim>\<open>last\<close>.\<close>

primrec mappages_loop ::
    "nat \<Rightarrow> addr \<Rightarrow> addr \<Rightarrow> 32 word \<Rightarrow> 32 word \<Rightarrow> (int, 'a vmstate_scheme) kern" where
  "mappages_loop 0 pgdir a pa perm =
     kbind (walkpgdir pgdir a 1) (\<lambda>pte. if pte = 0 then kret (-1) else
     kbind (kload pte) (\<lambda>e. if e AND PTE_P \<noteq> 0 then panic ''remap'' else
     kseq (kstore pte (pa OR perm OR PTE_P)) (
     kret 0)))"
| "mappages_loop (Suc n) pgdir a pa perm =
     kbind (walkpgdir pgdir a 1) (\<lambda>pte. if pte = 0 then kret (-1) else
     kbind (kload pte) (\<lambda>e. if e AND PTE_P \<noteq> 0 then panic ''remap'' else
     kseq (kstore pte (pa OR perm OR PTE_P)) (
     mappages_loop n pgdir (a + PGSIZE) (pa + PGSIZE) perm)))"

definition mappages ::
    "addr \<Rightarrow> addr \<Rightarrow> 32 word \<Rightarrow> 32 word \<Rightarrow> 32 word \<Rightarrow> (int, 'a vmstate_scheme) kern" where
  "mappages pgdir va sz pa perm =
     (let a = PGROUNDDOWN va; end_a = PGROUNDDOWN (va + sz - 1)
      in mappages_loop (unat ((end_a - a) div PGSIZE)) pgdir a pa perm)"

text \<open>
  The loop runs over \<^verbatim>\<open>a\<close>; without a page table it skips to the end of the directory entry. A step
  that wraps round would never end.
\<close>

function deallocuvm_loop :: "addr \<Rightarrow> addr \<Rightarrow> 32 word \<Rightarrow> (unit, 'a vmstate_scheme) kern" where
  "deallocuvm_loop pgdir a oldsz =
     (if a < oldsz
      then kbind (walkpgdir pgdir a 0) (\<lambda>pte.
        if pte = 0
        then (let a' = PGADDR (PDX a + 1) 0 0
              in if a < a' then deallocuvm_loop pgdir a' oldsz else (\<lambda>s rs. Undef))
        else
          kseq (kbind (kload pte) (\<lambda>e. kwhen (e AND PTE_P \<noteq> 0)
            (let pa = PTE_ADDR e in
             if pa = 0 then panic ''kfree'' else
             kbind (P2V pa) (\<lambda>v.
             kseq (kfree v)
             (kstore pte 0))))) (
          if a < a + PGSIZE then deallocuvm_loop pgdir (a + PGSIZE) oldsz else (\<lambda>s rs. Undef)))
      else kret ())"
  by pat_completeness auto
termination
proof (relation "measure (\<lambda>(pgdir, a, oldsz). 2 ^ 32 - unat a)", simp)
  fix a a' :: addr assume lt: "a < a'"
  have "unat a' < 2 ^ 32" by (rule unat_lt_32)
  then show "((pgdir, a', oldsz), pgdir, a, oldsz) \<in> measure (\<lambda>(pgdir, a, oldsz). 2 ^ 32 - unat a)"
    for pgdir oldsz using lt by (simp add: word_less_nat_alt)
next
  fix a :: addr assume lt: "a < a + PGSIZE"
  have "unat (a + PGSIZE) < 2 ^ 32" by (rule unat_lt_32)
  then show "((pgdir, a + PGSIZE, oldsz), pgdir, a, oldsz) \<in> measure (\<lambda>(pgdir, a, oldsz). 2 ^ 32 - unat a)"
    for pgdir oldsz using lt by (simp add: word_less_nat_alt)
qed

declare deallocuvm_loop.simps [simp del]

definition deallocuvm :: "addr \<Rightarrow> 32 word \<Rightarrow> 32 word \<Rightarrow> (32 word, 'a vmstate_scheme) kern" where
  "deallocuvm pgdir oldsz newsz =
     (if newsz \<ge> oldsz then kret oldsz
      else kseq (deallocuvm_loop pgdir (PGROUNDUP newsz) oldsz) (kret newsz))"

definition freevm :: "addr \<Rightarrow> (unit, 'a vmstate_scheme) kern" where
  "freevm pgdir =
     (if pgdir = 0 then panic ''freevm: no pgdir'' else
      kseq (deallocuvm pgdir KERNBASE 0) (
      kseq (kfor [0..<1024] (\<lambda>i.
        kbind (kload (pgdir + 4 * of_nat i)) (\<lambda>e. kwhen (e AND PTE_P \<noteq> 0)
          (kbind (P2V (PTE_ADDR e)) kfree))))
      (kfree pgdir)))"

text \<open>\<^verbatim>\<open>kmap\<close>: virtual address, physical range and permissions.\<close>

definition kmap :: "addr \<Rightarrow> (addr \<times> 32 word \<times> 32 word \<times> 32 word) list" where
  "kmap data = [(KERNBASE, 0, EXTMEM, PTE_W),
     (KERNLINK, KERNLINK - KERNBASE, data - KERNBASE, 0),
     (data, data - KERNBASE, PHYSTOP, PTE_W),
     (DEVSPACE, DEVSPACE, 0, PTE_W)]"

text \<open>The loop of \<^verbatim>\<open>setupkvm\<close> returns whether every entry was mapped.\<close>

primrec setupkvm_loop ::
    "(addr \<times> 32 word \<times> 32 word \<times> 32 word) list \<Rightarrow> addr \<Rightarrow> (bool, 'a vmstate_scheme) kern" where
  "setupkvm_loop [] pgdir = kret True"
| "setupkvm_loop (k # ks) pgdir = (case k of (virt, phys_start, phys_end, perm) \<Rightarrow>
     kbind (mappages pgdir virt (phys_end - phys_start) phys_start perm) (\<lambda>r.
     if r < 0 then kret False else setupkvm_loop ks pgdir))"

definition setupkvm :: "(addr, 'a vmstate_scheme) kern" where
  "setupkvm =
     kbind kalloc (\<lambda>pgdir. if pgdir = 0 then kret 0 else
     kseq (kmemset pgdir 0 PGSIZE) (
     kbind (P2V PHYSTOP) (\<lambda>top. if top > DEVSPACE then panic ''PHYSTOP too high'' else
     kget (\<lambda>s. kbind (setupkvm_loop (kmap (km_data s)) pgdir) (\<lambda>ok.
     if ok then kret pgdir else kseq (freevm pgdir) (kret 0))))))"

definition switchkvm :: "(unit, 'a vmstate_scheme) kern" where
  "switchkvm = kget (\<lambda>s. kbind (V2P (vm_kpgdir s)) (\<lambda>pa. kmod (\<lambda>s. s\<lparr>vm_cr3 := pa\<rparr>)))"

definition kvmalloc :: "(unit, 'a vmstate_scheme) kern" where
  "kvmalloc = kseq (kbind setupkvm (\<lambda>pgdir. kmod (\<lambda>s. s\<lparr>vm_kpgdir := pgdir\<rparr>))) switchkvm"

definition inituvm :: "addr \<Rightarrow> addr \<Rightarrow> 32 word \<Rightarrow> (unit, 'a vmstate_scheme) kern" where
  "inituvm pgdir init sz =
     (if sz \<ge> PGSIZE then panic ''inituvm: more than a page'' else
      kbind kalloc (\<lambda>mem.
      kseq (kmemset mem 0 PGSIZE) (
      kbind (V2P mem) (\<lambda>pa.
      kseq (kbind (mappages pgdir 0 PGSIZE pa (PTE_W OR PTE_U)) (\<lambda>_. kret ()))
      (kmemmove mem init sz)))))"

text \<open>
  The pages \<^verbatim>\<open>a, a + PGSIZE, ...\<close> below \<^verbatim>\<open>bound\<close>: what the loops of \<^verbatim>\<open>allocuvm\<close> and \<^verbatim>\<open>copyuvm\<close> visit when
  \<^verbatim>\<open>bound\<close> is a user address, so that the counter does not wrap.
\<close>

definition page_steps :: "addr \<Rightarrow> addr \<Rightarrow> addr list" where
  "page_steps a bound = map (\<lambda>i. a + of_nat i * PGSIZE) [0..<(unat bound - unat a + 4095) div 4096]"

primrec allocuvm_loop ::
    "addr list \<Rightarrow> addr \<Rightarrow> 32 word \<Rightarrow> 32 word \<Rightarrow> (32 word, 'a vmstate_scheme) kern" where
  "allocuvm_loop [] pgdir oldsz newsz = kret newsz"
| "allocuvm_loop (a # as) pgdir oldsz newsz =
     kbind kalloc (\<lambda>mem.
     if mem = 0 then
       kseq (cprintf (nl ''allocuvm out of memory'') []) (
       kseq (deallocuvm pgdir newsz oldsz)
       (kret 0))
     else
     kseq (kmemset mem 0 PGSIZE) (
     kbind (V2P mem) (\<lambda>pa.
     kbind (mappages pgdir a PGSIZE pa (PTE_W OR PTE_U)) (\<lambda>r.
     if r < 0 then
       kseq (cprintf (nl ''allocuvm out of memory (2)'') []) (
       kseq (deallocuvm pgdir newsz oldsz) (
       kseq (kfree mem)
       (kret 0)))
     else allocuvm_loop as pgdir oldsz newsz))))"

definition allocuvm :: "addr \<Rightarrow> 32 word \<Rightarrow> 32 word \<Rightarrow> (32 word, 'a vmstate_scheme) kern" where
  "allocuvm pgdir oldsz newsz =
     (if newsz \<ge> KERNBASE then kret 0
      else if newsz < oldsz then kret oldsz
      else allocuvm_loop (page_steps (PGROUNDUP oldsz) newsz) pgdir oldsz newsz)"

definition clearpteu :: "addr \<Rightarrow> addr \<Rightarrow> (unit, 'a vmstate_scheme) kern" where
  "clearpteu pgdir uva =
     kbind (walkpgdir pgdir uva 0) (\<lambda>pte. if pte = 0 then panic ''clearpteu'' else
     kbind (kload pte) (\<lambda>e. kstore pte (e AND NOT PTE_U)))"

text \<open>Whether every page was copied; a failure is cleaned up by the caller, at \<^verbatim>\<open>bad\<close>.\<close>

primrec copyuvm_loop :: "addr list \<Rightarrow> addr \<Rightarrow> addr \<Rightarrow> (bool, 'a vmstate_scheme) kern" where
  "copyuvm_loop [] pgdir d = kret True"
| "copyuvm_loop (i # is) pgdir d =
     kbind (walkpgdir pgdir i 0) (\<lambda>pte. if pte = 0 then panic ''copyuvm: pte should exist'' else
     kbind (kload pte) (\<lambda>e. if e AND PTE_P = 0 then panic ''copyuvm: page not present'' else
     let pa = PTE_ADDR e; flags = PTE_FLAGS e in
     kbind kalloc (\<lambda>mem. if mem = 0 then kret False else
     kbind (P2V pa) (\<lambda>src.
     kseq (kmemmove mem src PGSIZE) (
     kbind (V2P mem) (\<lambda>npa.
     kbind (mappages d i PGSIZE npa flags) (\<lambda>r.
     if r < 0 then kseq (kfree mem) (kret False)
     else copyuvm_loop is pgdir d)))))))"

definition copyuvm :: "addr \<Rightarrow> 32 word \<Rightarrow> (addr, 'a vmstate_scheme) kern" where
  "copyuvm pgdir sz =
     kbind setupkvm (\<lambda>d. if d = 0 then kret 0 else
     kbind (copyuvm_loop (page_steps 0 sz) pgdir d) (\<lambda>ok.
     if ok then kret d else kseq (freevm d) (kret 0)))"

definition uva2ka :: "addr \<Rightarrow> addr \<Rightarrow> (addr, 'a vmstate_scheme) kern" where
  "uva2ka pgdir uva =
     kbind (walkpgdir pgdir uva 0) (\<lambda>pte.
     kbind (kload pte) (\<lambda>e.
     if e AND PTE_P = 0 then kret 0
     else if e AND PTE_U = 0 then kret 0
     else P2V (PTE_ADDR e)))"

lemma page_offset: "unat (va - PGROUNDDOWN va) = unat va mod 4096"
proof -
  have "PGROUNDDOWN va \<le> va" by (simp add: word_le_nat_alt unat_PGROUNDDOWN)
  then show ?thesis
    by (simp add: unat_sub unat_PGROUNDDOWN minus_div_mult_eq_mod)
qed

lemma page_rest: "unat (PGSIZE - (va - PGROUNDDOWN va)) = 4096 - unat va mod 4096"
proof -
  have "va - PGROUNDDOWN va \<le> PGSIZE" by (simp add: word_le_nat_alt page_offset PGSIZE_def)
  then show ?thesis by (simp add: unat_sub page_offset) (simp add: PGSIZE_def)
qed

text \<open>Each round takes at least one byte off \<^verbatim>\<open>len\<close>.\<close>

function copyout :: "addr \<Rightarrow> addr \<Rightarrow> addr \<Rightarrow> 32 word \<Rightarrow> (int, 'a vmstate_scheme) kern" where
  "copyout pgdir va buf len =
     (if len > 0
      then (let va0 = PGROUNDDOWN va in
        kbind (uva2ka pgdir va0) (\<lambda>pa0. if pa0 = 0 then kret (-1) else
        let n = (if PGSIZE - (va - va0) > len then len else PGSIZE - (va - va0)) in
        kseq (kmemmove (pa0 + (va - va0)) buf n)
        (copyout pgdir (va0 + PGSIZE) (buf + n) (len - n))))
      else kret 0)"
  by pat_completeness auto

termination
proof (relation "measure (\<lambda>(pgdir, va, buf, len). unat len)", simp)
  fix pgdir va buf len va0 n :: "32 word"
  assume len: "0 < len" and va0: "va0 = PGROUNDDOWN va"
    and n: "n = (if len < PGSIZE - (va - va0) then len else PGSIZE - (va - va0))"
  have "0 < unat (PGSIZE - (va - va0))" unfolding va0 page_rest by simp
  then have "0 < unat n" "n \<le> len" using len n by (auto simp: word_less_nat_alt word_le_nat_alt)
  then have "unat (len - n) < unat len" by (simp add: unat_sub word_le_nat_alt)
  then show "((pgdir, va0 + PGSIZE, buf + n, len - n), pgdir, va, buf, len)
      \<in> measure (\<lambda>(pgdir, va, buf, len). unat len)" by simp
qed

declare copyout.simps [simp del]

section \<open>What the paging hardware sees\<close>

text \<open>The kernel address of the byte that a virtual address denotes.\<close>

definition translate :: "mem \<Rightarrow> addr \<Rightarrow> addr \<Rightarrow> addr option" where
  "translate m pgdir va =
     (let pde = load32 m (pgdir + 4 * PDX va) in
      if pde AND PTE_P = 0 then None
      else let pte = load32 m (PTE_ADDR pde + KERNBASE + 4 * PTX va) in
        if pte AND PTE_P = 0 then None else Some (PTE_ADDR pte + KERNBASE + (va AND 0xFFF)))"

subsection \<open>Entries of a page\<close>

lemma and_3ff: "unat (x AND 0x3FF :: 32 word) < 1024"
proof -
  have "x AND 0x3FF = take_bit 10 x" by (simp add: take_bit_eq_mask mask_eq_exp_minus_1)
  then show ?thesis using take_bit_nat_less_exp [of 10 "unat x"] by (simp add: unsigned_take_bit_eq)
qed

lemma PDX_lt: "unat (PDX va) < 1024" and PTX_lt: "unat (PTX va) < 1024"
  by (simp_all add: PDX_def PTX_def and_3ff)

lemma unat_4_times: "unat i < 1024 \<Longrightarrow> unat (4 * i :: 32 word) = 4 * unat i"
  by (simp add: unat_word_ariths)

lemma entry_in_page:
  assumes "p mod PGSIZE = 0" and "unat i < 1024" and "j \<in> {0, 1, 2, 3}"
  shows "in_page p (p + 4 * i + j)"
proof -
  have top: "unat p + 4096 \<le> 2 ^ 32" by (rule page_top(2) [OF assms(1)])
  have "unat (p + 4 * i) = unat p + 4 * unat i"
    using top assms(2) unat_4_times [OF assms(2)] by (simp add: unat_word_ariths)
  moreover from this have "unat (p + 4 * i + j) = unat p + 4 * unat i + unat j"
    using top assms(2,3) by (auto simp: unat_word_ariths)
  moreover have "unat j < 4" using assms(3) by auto
  ultimately show ?thesis using assms(2) by (simp add: in_page_def)
qed

lemma load_entry_cong:
  assumes "p mod PGSIZE = 0" and "unat i < 1024" and "\<And>a. in_page p a \<Longrightarrow> m' a = m a"
  shows "load32 m' (p + 4 * i) = load32 m (p + 4 * i)"
  using entry_in_page [OF assms(1,2)] entry_in_page [OF assms(1,2), of 0] assms(3)
  by (simp add: load32_def)

lemma store_entry_out:
  assumes "p mod PGSIZE = 0" and "unat i < 1024" and "\<not> in_page p a"
  shows "store32 (p + 4 * i) w m a = m a"
  using entry_in_page [OF assms(1,2)] entry_in_page [OF assms(1,2), of 0] assms(3)
  by (auto simp: store32_apply)

lemma load_store_entry:
  assumes "unat i < 1024" and "unat j < 1024"
  shows "load32 (store32 (p + 4 * i) w m) (p + 4 * j) = (if j = i then w else load32 m (p + 4 * j))"
proof (cases "j = i")
  case False
  have "4 \<le> unat (4 * j - 4 * i)" if "unat i < 1024" "unat j < 1024" "j \<noteq> i" for i j :: "32 word"
  proof -
    have "unat j \<noteq> unat i" using that(3) by (simp add: word_unat_eq_iff)
    moreover have "unat (4 * j - 4 * i) =
        (if unat i \<le> unat j then 4 * unat j - 4 * unat i else 4 * unat j + 2 ^ 32 - 4 * unat i)"
      using that unat_4_times [of i] unat_4_times [of j]
      by (simp add: unat_sub_if')
    ultimately show ?thesis using that by auto
  qed
  note far = this [OF assms False] this [OF assms(2,1) False [symmetric]]
  have "p + 4 * j - (p + 4 * i) = 4 * j - 4 * i" "p + 4 * i - (p + 4 * j) = 4 * i - 4 * j" by simp_all
  then show ?thesis using far False by (simp add: load_store_other)
qed simp

subsection \<open>Well-formed page directories\<close>

text \<open>
  Every present directory entry leads to a page of its own; neither those pages nor the directory
  are on the free list \<open>ps\<close>.
\<close>

definition table_of :: "mem \<Rightarrow> addr \<Rightarrow> 32 word \<Rightarrow> addr" where
  "table_of m pgdir i = PTE_ADDR (load32 m (pgdir + 4 * i)) + KERNBASE"

definition has_table :: "mem \<Rightarrow> addr \<Rightarrow> 32 word \<Rightarrow> bool" where
  "has_table m pgdir i \<longleftrightarrow> load32 m (pgdir + 4 * i) AND PTE_P \<noteq> 0"

definition pgdir_ok :: "'a vmstate_scheme \<Rightarrow> addr list \<Rightarrow> addr \<Rightarrow> bool" where
  "pgdir_ok s ps pgdir \<longleftrightarrow> page_ok s pgdir \<and> pgdir \<notin> set ps \<and>
     (\<forall>i. unat i < 1024 \<longrightarrow> has_table (m_mem s) pgdir i \<longrightarrow>
        (let t = table_of (m_mem s) pgdir i in page_ok s t \<and> t \<notin> set ps \<and> t \<noteq> pgdir \<and>
          (\<forall>j. unat j < 1024 \<longrightarrow> has_table (m_mem s) pgdir j \<longrightarrow> table_of (m_mem s) pgdir j = t \<longrightarrow> j = i)))"

lemma translate_tables:
  "translate m pgdir va =
     (if has_table m pgdir (PDX va)
      then (let pte = load32 m (table_of m pgdir (PDX va) + 4 * PTX va) in
        if pte AND PTE_P = 0 then None else Some (PTE_ADDR pte + KERNBASE + (va AND 0xFFF)))
      else None)"
  by (simp add: translate_def has_table_def table_of_def Let_def)

lemma page_ok_nz: "page_ok s p \<Longrightarrow> unat i < 1024 \<Longrightarrow> p + 4 * i \<noteq> 0"
proof
  assume ok: "page_ok s p" and i: "unat i < 1024" and "p + 4 * i = 0"
  have "in_page p (p + 4 * i + 0)" using ok i by (intro entry_in_page) (auto simp: page_ok_def)
  then have "unat p = 0" using \<open>p + 4 * i = 0\<close> by (simp add: in_page_def)
  then show False using ok by (auto simp: page_ok_def KERNBASE_def word_le_nat_alt)
qed

lemma walkpgdir_present:
  assumes "pgdir_ok s ps pgdir" and "has_table (m_mem s) pgdir (PDX va)"
  shows "walkpgdir pgdir va alloc s rs
    = Ret (table_of (m_mem s) pgdir (PDX va) + 4 * PTX va) s rs"
proof -
  let ?t = "table_of (m_mem s) pgdir (PDX va)" and ?e = "load32 (m_mem s) (pgdir + 4 * PDX va)"
  have "page_ok s ?t" using assms PDX_lt by (auto simp: pgdir_ok_def Let_def)
  then have "PTE_ADDR ?e < PHYSTOP" by (simp add: page_ok_def table_of_def)
  also have "PHYSTOP < KERNBASE" by (simp add: PHYSTOP_def KERNBASE_def)
  finally have "PTE_ADDR ?e \<le> KERNBASE" by simp
  moreover have "pgdir + 4 * PDX va \<noteq> 0"
    using assms(1) page_ok_nz [OF _ PDX_lt] by (auto simp: pgdir_ok_def)
  ultimately show ?thesis
    using assms(2) by (simp add: walkpgdir_def kload_def P2V_run has_table_def table_of_def Let_def)
qed

lemma walkpgdir_absent:
  assumes "page_ok s pgdir" and "\<not> has_table (m_mem s) pgdir (PDX va)"
  shows "walkpgdir pgdir va 0 s rs = Ret 0 s rs"
    and "kmem_free s \<Longrightarrow> kmem_inv s [] \<Longrightarrow> alloc \<noteq> 0 \<Longrightarrow> walkpgdir pgdir va alloc s rs = Ret 0 (kalloced s) rs"
    and "kmem_free s \<Longrightarrow> kmem_inv s (q # ps) \<Longrightarrow> alloc \<noteq> 0 \<Longrightarrow> walkpgdir pgdir va alloc s rs
      = Ret (q + 4 * PTX va) ((kalloced s)\<lparr>m_mem := store32 (pgdir + 4 * PDX va)
          ((q - KERNBASE) OR PTE_P OR PTE_W OR PTE_U) (memset q 0 PGSIZE (m_mem s))\<rparr>) rs"
proof -
  have nz: "pgdir + 4 * PDX va \<noteq> 0" using assms(1) page_ok_nz PDX_lt by blast
  then show "walkpgdir pgdir va 0 s rs = Ret 0 s rs"
    using assms(2) by (simp add: walkpgdir_def kload_def has_table_def Let_def)
  show "walkpgdir pgdir va alloc s rs = Ret 0 (kalloced s) rs"
    if "kmem_free s" "kmem_inv s []" "alloc \<noteq> 0"
    using assms(2) nz that kalloc_run [OF that(1), of rs]
    by (simp add: walkpgdir_def kload_def has_table_def Let_def kmem_inv_def)
  assume f: "kmem_free s" "kmem_inv s (q # ps)" "alloc \<noteq> 0"
  then have q: "km_freelist s = q" "q \<noteq> 0" "KERNBASE \<le> q"
    by (auto simp: kmem_inv_def page_ok_def)
  show "walkpgdir pgdir va alloc s rs
      = Ret (q + 4 * PTX va) ((kalloced s)\<lparr>m_mem := store32 (pgdir + 4 * PDX va)
          ((q - KERNBASE) OR PTE_P OR PTE_W OR PTE_U) (memset q 0 PGSIZE (m_mem s))\<rparr>) rs"
    using assms(2) nz f(3) q kalloc_run [OF f(1), of rs]
    by (simp add: walkpgdir_def kload_def has_table_def Let_def kmemset_def V2P_run kstore_def)
qed

subsection \<open>Bits of entries and addresses\<close>

lemma aligned_bits: "p mod PGSIZE = 0 \<longleftrightarrow> take_bit 12 p = 0"
  by (simp add: PGSIZE_def take_bit_eq_mod)

lemma fff: "(0xFFF :: 32 word) = mask 12"
  by (simp add: mask_eq_exp_minus_1)

lemma PTE_ADDR_entry:
  assumes "pa mod PGSIZE = 0" and "perm AND NOT 0xFFF = 0"
  shows "PTE_ADDR (pa OR perm OR PTE_P) = pa" and "(pa OR perm OR PTE_P) AND PTE_P \<noteq> 0"
proof -
  have "\<not> bit pa n" if "n < 12" for n
    using assms(1) that unfolding aligned_bits by (metis bit_0_eq bit_take_bit_iff bot_apply bot_bool_def)
  moreover have "\<not> bit perm n" if "12 \<le> n" "n < 32" for n
  proof -
    have "\<not> bit (perm AND NOT (mask 12)) n" using assms(2) by (simp add: fff)
    then show ?thesis using that by (simp add: bit_simps)
  qed
  ultimately show "PTE_ADDR (pa OR perm OR PTE_P) = pa"
    unfolding PTE_ADDR_def PTE_P_def fff
    by (intro bit_word_eqI) (auto simp: bit_simps bit_1_iff not_less, metis not_le)
  have "bit ((pa OR perm OR PTE_P) AND PTE_P) 0" by (simp add: PTE_P_def bit_simps)
  then show "(pa OR perm OR PTE_P) AND PTE_P \<noteq> 0" by force
qed

lemma bit_eqI_22:
  fixes a b :: "32 word"
  assumes "\<And>n. n < 22 \<Longrightarrow> bit a n = bit b n" and "\<And>n. 22 \<le> n \<Longrightarrow> n < 32 \<Longrightarrow> bit a n = bit b n"
  shows "a = b"
proof (rule bit_word_eqI)
  fix n assume "n < LENGTH(32)"
  then show "bit a n = bit b n" using assms by (cases "n < 22") auto
qed

lemma PGADDR_split: "PGADDR (PDX va) (PTX va) (va AND 0xFFF) = va"
proof -
  have *: "(0x3FF :: 32 word) = mask 10" by (simp add: mask_eq_exp_minus_1)
  show ?thesis
    unfolding PGADDR_def PDX_def PTX_def fff *
    by (intro bit_eqI_22) (auto simp: bit_simps)
qed

lemma PGROUNDDOWN_split: "PGROUNDDOWN va = PGADDR (PDX va) (PTX va) 0"
proof -
  have *: "(0x3FF :: 32 word) = mask 10" "PGSIZE - 1 = mask 12"
    by (simp_all add: mask_eq_exp_minus_1 PGSIZE_def)
  show ?thesis
    unfolding PGADDR_def PDX_def PTX_def PGROUNDDOWN_def *
    by (intro bit_eqI_22) (auto simp: bit_simps)
qed

lemma same_page_iff: "PGROUNDDOWN a = PGROUNDDOWN b \<longleftrightarrow> PDX a = PDX b \<and> PTX a = PTX b"
proof -
  have *: "(0x3FF :: 32 word) = mask 10" "PGSIZE - 1 = mask 12"
    by (simp_all add: mask_eq_exp_minus_1 PGSIZE_def)
  have "PDX (PGROUNDDOWN x) = PDX x" "PTX (PGROUNDDOWN x) = PTX x" for x
    unfolding PDX_def PTX_def PGROUNDDOWN_def *
    by (intro bit_word_eqI; auto simp: bit_simps)+
  then show ?thesis by (metis PGROUNDDOWN_split)
qed

lemma PGROUNDDOWN_aligned:
  assumes "va mod PGSIZE = 0"
  shows "PGROUNDDOWN va = va" and "PGROUNDDOWN (va + PGSIZE - 1) = va"
proof -
  have u: "unat va mod 4096 = 0" "unat va + 4096 \<le> 2 ^ 32" using page_top [OF assms] by auto
  then obtain k where k: "unat va = 4096 * k" by auto
  then show "PGROUNDDOWN va = va" by (intro word_unat_eqI) (simp add: unat_PGROUNDDOWN)
  have "unat (va + PGSIZE - 1) = unat va + 4095"
    using u(2) by (simp add: PGSIZE_def unat_word_ariths)
  then show "PGROUNDDOWN (va + PGSIZE - 1) = va"
    using k by (intro word_unat_eqI) (simp add: unat_PGROUNDDOWN)
qed

subsection \<open>Mapping one page\<close>

lemma kmem_inv_mem:
  assumes "kmem_inv s ps" and "\<And>p a. p \<in> set ps \<Longrightarrow> in_page p a \<Longrightarrow> m a = m_mem s a"
  shows "kmem_inv (s\<lparr>m_mem := m\<rparr>) ps"
proof -
  have "load32 m p = load32 (m_mem s) p" if "p \<in> set ps" for p
    using assms that by (intro load32_page) (auto simp: kmem_inv_def list_all_iff page_ok_def)
  then show ?thesis
    using assms(1) free_list_cong [of ps m "m_mem s"] page_ok_cong [of "s\<lparr>m_mem := m\<rparr>" s]
    by (simp add: kmem_inv_def)
qed

lemma pgdir_okD:
  assumes "pgdir_ok s ps pgdir"
  shows "page_ok s pgdir" and "pgdir \<notin> set ps"
    and "unat i < 1024 \<Longrightarrow> has_table (m_mem s) pgdir i \<Longrightarrow> page_ok s (table_of (m_mem s) pgdir i)
      \<and> table_of (m_mem s) pgdir i \<notin> set ps \<and> table_of (m_mem s) pgdir i \<noteq> pgdir"
    and "unat i < 1024 \<Longrightarrow> has_table (m_mem s) pgdir i \<Longrightarrow> unat j < 1024 \<Longrightarrow> has_table (m_mem s) pgdir j \<Longrightarrow>
      table_of (m_mem s) pgdir j = table_of (m_mem s) pgdir i \<Longrightarrow> j = i"
  using assms unfolding pgdir_ok_def Let_def by blast+

text \<open>Writing an entry of a table leaves the directory and the other tables alone.\<close>

lemma store_pte:
  fixes w :: "32 word"
  assumes ok: "pgdir_ok s ps pgdir" and has: "has_table (m_mem s) pgdir (PDX va)"
  defines "t \<equiv> table_of (m_mem s) pgdir (PDX va)"
  defines "m' \<equiv> store32 (t + 4 * PTX va) w (m_mem s)"
  shows "unat i < 1024 \<Longrightarrow> has_table m' pgdir i = has_table (m_mem s) pgdir i \<and>
      table_of m' pgdir i = table_of (m_mem s) pgdir i"
    and "has_table (m_mem s) pgdir (PDX va') \<Longrightarrow>
      load32 m' (table_of (m_mem s) pgdir (PDX va') + 4 * PTX va') =
        (if PDX va' = PDX va \<and> PTX va' = PTX va then w
         else load32 (m_mem s) (table_of (m_mem s) pgdir (PDX va') + 4 * PTX va'))"
    and "p mod PGSIZE = 0 \<Longrightarrow> p \<noteq> t \<Longrightarrow> in_page p a \<Longrightarrow> m' a = m_mem s a"
proof -
  note t = pgdir_okD(3) [OF ok PDX_lt has, folded t_def]
  have al: "t mod PGSIZE = 0" "pgdir mod PGSIZE = 0"
    using t pgdir_okD(1) [OF ok] by (auto simp: page_ok_def)
  show other: "m' a = m_mem s a" if "p mod PGSIZE = 0" "p \<noteq> t" "in_page p a" for p a
    unfolding m'_def
    using pages_apart [OF that(1) al(1) that(2,3)] by (intro store_entry_out [OF al(1) PTX_lt]) auto
  show "has_table m' pgdir i = has_table (m_mem s) pgdir i \<and>
      table_of m' pgdir i = table_of (m_mem s) pgdir i" if i: "unat i < 1024" for i
  proof -
    have "load32 m' (pgdir + 4 * i) = load32 (m_mem s) (pgdir + 4 * i)"
      using other [OF al(2)] t by (intro load_entry_cong [OF al(2) i]) metis
    then show ?thesis by (simp add: has_table_def table_of_def)
  qed
  assume has': "has_table (m_mem s) pgdir (PDX va')"
  let ?t' = "table_of (m_mem s) pgdir (PDX va')"
  have al': "?t' mod PGSIZE = 0"
    using pgdir_okD(3) [OF ok PDX_lt has'] by (simp add: page_ok_def)
  show "load32 m' (?t' + 4 * PTX va') =
      (if PDX va' = PDX va \<and> PTX va' = PTX va then w else load32 (m_mem s) (?t' + 4 * PTX va'))"
  proof (cases "PDX va' = PDX va")
    case True
    then show ?thesis
      using load_store_entry [OF PTX_lt PTX_lt, of t va w "m_mem s" va']
      by (simp add: m'_def t_def)
  next
    case False
    then have "?t' \<noteq> t"
      using pgdir_okD(4) [OF ok PDX_lt has PDX_lt has'] by (auto simp: t_def)
    then have "load32 m' (?t' + 4 * PTX va') = load32 (m_mem s) (?t' + 4 * PTX va')"
      using other [OF al'] by (intro load_entry_cong [OF al' PTX_lt]) auto
    then show ?thesis using False by simp
  qed
qed

lemma pgdir_ok_cong:
  assumes "pgdir_ok s ps pgdir" and "km_end s' = km_end s"
    and "\<And>i. unat i < 1024 \<Longrightarrow> has_table (m_mem s') pgdir i = has_table (m_mem s) pgdir i \<and>
      table_of (m_mem s') pgdir i = table_of (m_mem s) pgdir i"
  shows "pgdir_ok s' ps pgdir"
  using assms page_ok_cong [of s' s] unfolding pgdir_ok_def Let_def by metis

lemma map_entry:
  assumes ok: "pgdir_ok s ps pgdir" and kmem: "kmem_inv s ps"
    and has: "has_table (m_mem s) pgdir (PDX va)" and va: "va mod PGSIZE = 0"
    and pa: "pa mod PGSIZE = 0" "perm AND NOT 0xFFF = 0"
  defines "s' \<equiv> s\<lparr>m_mem := store32 (table_of (m_mem s) pgdir (PDX va) + 4 * PTX va)
    (pa OR perm OR PTE_P) (m_mem s)\<rparr>"
  shows "translate (m_mem s') pgdir va' = (if PGROUNDDOWN va' = va
      then Some (pa + KERNBASE + (va' AND 0xFFF)) else translate (m_mem s) pgdir va')"
    and "kmem_inv s' ps" and "pgdir_ok s' ps pgdir"
proof -
  note st = store_pte [OF ok has, where w = "pa OR perm OR PTE_P"]
  have mem: "m_mem s' = store32 (table_of (m_mem s) pgdir (PDX va) + 4 * PTX va) (pa OR perm OR PTE_P) (m_mem s)"
    by (simp add: s'_def)
  show "pgdir_ok s' ps pgdir"
  proof (rule pgdir_ok_cong [OF ok])
    show "km_end s' = km_end s" by (simp add: s'_def)
    show "has_table (m_mem s') pgdir i = has_table (m_mem s) pgdir i \<and>
        table_of (m_mem s') pgdir i = table_of (m_mem s) pgdir i" if "unat i < 1024" for i
      unfolding mem using that by (rule st(1))
  qed
  show "kmem_inv s' ps"
    unfolding s'_def
  proof (intro kmem_inv_mem [OF kmem] st(3))
    fix p assume "p \<in> set ps"
    then show "p mod PGSIZE = 0" "p \<noteq> table_of (m_mem s) pgdir (PDX va)"
      using kmem pgdir_okD(3) [OF ok PDX_lt has] by (auto simp: kmem_inv_def list_all_iff page_ok_def)
  qed
  have same: "PGROUNDDOWN va' = va \<longleftrightarrow> PDX va' = PDX va \<and> PTX va' = PTX va"
    using same_page_iff [of va' va] PGROUNDDOWN_aligned(1) [OF va] by simp
  show "translate (m_mem s') pgdir va' = (if PGROUNDDOWN va' = va
      then Some (pa + KERNBASE + (va' AND 0xFFF)) else translate (m_mem s) pgdir va')"
    using st(1) [OF PDX_lt, of va'] st(2) [of va'] has PTE_ADDR_entry [OF pa]
    unfolding translate_tables mem same by (auto simp: Let_def)
qed

lemma page_phys_aligned:
  assumes "page_ok s q"
  shows "(q - KERNBASE) mod PGSIZE = 0"
proof (rule page_alignedI)
  have "unat q mod 4096 = 0" "KERNBASE \<le> q" using assms page_top(1) by (auto simp: page_ok_def)
  moreover from this have "unat (q - KERNBASE) = unat q - 2147483648"
    by (simp add: unat_sub KERNBASE_def)
  ultimately show "unat (q - KERNBASE) mod 4096 = 0" by (auto simp: mod_eq_0_iff_dvd dvd_diff_nat)
qed

lemma new_table_entry:
  assumes "page_ok s q"
  shows "PTE_ADDR ((q - KERNBASE) OR PTE_P OR PTE_W OR PTE_U) = q - KERNBASE"
    and "((q - KERNBASE) OR PTE_P OR PTE_W OR PTE_U) AND PTE_P \<noteq> 0"
proof -
  have eq: "(q - KERNBASE) OR PTE_P OR PTE_W OR PTE_U = (q - KERNBASE) OR (PTE_W OR PTE_U) OR PTE_P"
    by (simp add: ac_simps)
  have perm: "(PTE_W OR PTE_U) AND NOT 0xFFF = 0" by (simp add: PTE_W_def PTE_U_def)
  note en = PTE_ADDR_entry [OF page_phys_aligned [OF assms] perm]
  show "PTE_ADDR ((q - KERNBASE) OR PTE_P OR PTE_W OR PTE_U) = q - KERNBASE"
    and "((q - KERNBASE) OR PTE_P OR PTE_W OR PTE_U) AND PTE_P \<noteq> 0"
    unfolding eq by (rule en)+
qed

text \<open>A fresh table \<open>q\<close>: its entries are 0, and all other pages are as before.\<close>

definition with_table :: "addr \<Rightarrow> 32 word \<Rightarrow> addr \<Rightarrow> mem \<Rightarrow> mem" where
  "with_table pgdir i q m = store32 (pgdir + 4 * i) ((q - KERNBASE) OR PTE_P OR PTE_W OR PTE_U)
     (memset q 0 PGSIZE m)"

lemma with_table_loads:
  assumes q: "page_ok s q" "q \<noteq> pgdir" and d: "pgdir mod PGSIZE = 0" and k: "unat k < 1024"
  shows "\<not> in_page q a \<Longrightarrow> \<not> in_page pgdir a \<Longrightarrow> with_table pgdir k q m a = m a"
    and "unat i < 1024 \<Longrightarrow> load32 (with_table pgdir k q m) (q + 4 * i) = 0"
    and "unat i < 1024 \<Longrightarrow> has_table (with_table pgdir k q m) pgdir i \<longleftrightarrow> i = k \<or> has_table m pgdir i"
    and "unat i < 1024 \<Longrightarrow> table_of (with_table pgdir k q m) pgdir i = (if i = k then q else table_of m pgdir i)"
proof -
  have al: "q mod PGSIZE = 0" using q(1) by (simp add: page_ok_def)
  show "with_table pgdir k q m a = m a" if "\<not> in_page q a" "\<not> in_page pgdir a"
    using that by (simp add: with_table_def store_entry_out [OF d k] memset_page [OF al])
  show "load32 (with_table pgdir k q m) (q + 4 * i) = 0" if i: "unat i < 1024"
  proof -
    have "load32 (with_table pgdir k q m) (q + 4 * i) = load32 (\<lambda>_. 0) (q + 4 * i)"
    proof (rule load_entry_cong [OF al i])
      fix a assume a: "in_page q a"
      then have "\<not> in_page pgdir a" using pages_apart [OF al d q(2)] by metis
      then show "with_table pgdir k q m a = 0"
        using a by (simp add: with_table_def store_entry_out [OF d k] memset_page [OF al])
    qed
    then show ?thesis by (simp add: load32_def)
  qed
  let ?w = "(q - KERNBASE) OR PTE_P OR PTE_W OR PTE_U"
  have "load32 (with_table pgdir k q m) (pgdir + 4 * i) = (if i = k then ?w else load32 m (pgdir + 4 * i))"
    if i: "unat i < 1024" for i
  proof -
    have "load32 (memset q 0 PGSIZE m) (pgdir + 4 * i) = load32 m (pgdir + 4 * i)"
      using pages_apart [OF d al] q(2)
      by (intro load_entry_cong [OF d i]) (metis memset_page [OF al])
    then show ?thesis unfolding with_table_def load_store_entry [OF k i] by simp
  qed
  then show "unat i < 1024 \<Longrightarrow> has_table (with_table pgdir k q m) pgdir i \<longleftrightarrow> i = k \<or> has_table m pgdir i"
    and "unat i < 1024 \<Longrightarrow> table_of (with_table pgdir k q m) pgdir i = (if i = k then q else table_of m pgdir i)"
    using new_table_entry [OF q(1)] by (simp_all add: has_table_def table_of_def)
qed

lemma new_table:
  assumes ok: "pgdir_ok s (q # ps) pgdir" and kmem: "kmem_inv s (q # ps)"
    and absent: "\<not> has_table (m_mem s) pgdir (PDX va)"
  defines "s1 \<equiv> (kalloced s)\<lparr>m_mem := with_table pgdir (PDX va) q (m_mem s)\<rparr>"
  shows "translate (m_mem s1) pgdir va' = translate (m_mem s) pgdir va'"
    and "kmem_inv s1 ps" and "pgdir_ok s1 ps pgdir"
proof -
  note d = pgdir_okD [OF ok]
  have q: "page_ok s q" "q \<notin> set ps" "q \<noteq> pgdir" using kmem d(2) by (auto simp: kmem_inv_def)
  have al: "q mod PGSIZE = 0" "pgdir mod PGSIZE = 0" using q(1) d(1) by (auto simp: page_ok_def)
  have mem: "m_mem s1 = with_table pgdir (PDX va) q (m_mem s)" by (simp add: s1_def)
  note new = with_table_loads [OF q(1,3) al(2) PDX_lt [of va], where m = "m_mem s", folded mem]
  have keep: "m_mem s1 a = m_mem s a" if "p mod PGSIZE = 0" "p \<noteq> q" "p \<noteq> pgdir" "in_page p a" for p a
    using new(1) pages_apart [OF that(1) al(1) that(2,4)] pages_apart [OF that(1) al(2) that(3,4)] by metis
  show "translate (m_mem s1) pgdir va' = translate (m_mem s) pgdir va'"
  proof (cases "PDX va' = PDX va")
    case True
    then show ?thesis
      using new(3,4) [OF PDX_lt, of va'] new(2) [OF PTX_lt, of va'] absent
      unfolding translate_tables by (simp add: Let_def)
  next
    case False
    let ?t = "table_of (m_mem s) pgdir (PDX va')"
    have "load32 (m_mem s1) (?t + 4 * PTX va') = load32 (m_mem s) (?t + 4 * PTX va')"
      if "has_table (m_mem s) pgdir (PDX va')"
    proof -
      have t: "?t mod PGSIZE = 0" "?t \<noteq> q" "?t \<noteq> pgdir"
        using d(3) [OF PDX_lt that] by (auto simp: page_ok_def)
      show ?thesis by (rule load_entry_cong [OF t(1) PTX_lt]) (rule keep [OF t])
    qed
    then show ?thesis
      using new(3,4) [OF PDX_lt, of va'] False unfolding translate_tables by (simp add: Let_def)
  qed
  show "kmem_inv s1 ps"
    unfolding s1_def
  proof (rule kmem_inv_mem [OF kmem_inv_kalloced [OF kmem]])
    fix p a assume p: "p \<in> set ps" "in_page p a"
    then have "p mod PGSIZE = 0" "p \<noteq> q" "p \<noteq> pgdir"
      using kmem q(2) d(2) by (auto simp: kmem_inv_def list_all_iff page_ok_def)
    then show "with_table pgdir (PDX va) q (m_mem s) a = m_mem (kalloced s) a"
      using keep [of p a] p(2) by (simp add: mem)
  qed
  have po: "page_ok s1 = page_ok s" by (rule page_ok_cong) (simp add: s1_def)
  have fresh: "table_of (m_mem s) pgdir j \<noteq> q" if "unat j < 1024" "has_table (m_mem s) pgdir j" for j
    using d(3) [OF that] by auto
  show "pgdir_ok s1 ps pgdir"
    unfolding pgdir_ok_def Let_def po using d q new(3,4) fresh by (smt (verit) list.set_intros(2))
qed

lemma mappages_one:
  "va mod PGSIZE = 0 \<Longrightarrow> mappages pgdir va PGSIZE pa perm = mappages_loop 0 pgdir va pa perm"
  by (simp add: mappages_def PGROUNDDOWN_aligned Let_def)

lemma mappages_entry:
  assumes walk: "walkpgdir pgdir va 1 s rs = Ret (table_of (m_mem s1) pgdir (PDX va) + 4 * PTX va) s1 rs"
    and ok: "pgdir_ok s1 ps pgdir" and has: "has_table (m_mem s1) pgdir (PDX va)"
    and va: "va mod PGSIZE = 0" and none: "translate (m_mem s1) pgdir va = None"
  shows "mappages pgdir va PGSIZE pa perm s rs = Ret 0 (s1\<lparr>m_mem :=
    store32 (table_of (m_mem s1) pgdir (PDX va) + 4 * PTX va) (pa OR perm OR PTE_P) (m_mem s1)\<rparr>) rs"
proof -
  let ?pte = "table_of (m_mem s1) pgdir (PDX va) + 4 * PTX va"
  have "?pte \<noteq> 0" using pgdir_okD(3) [OF ok PDX_lt has] page_ok_nz [OF _ PTX_lt] by blast
  moreover have "load32 (m_mem s1) ?pte AND PTE_P = 0"
    using none has unfolding translate_tables by (auto simp: Let_def split: if_splits)
  ultimately show ?thesis
    using walk unfolding mappages_one [OF va] by (simp add: kload_def kstore_def)
qed

section \<open>Properties\<close>

text \<open>C9: \<^verbatim>\<open>mappages\<close> of one page makes the hardware translate exactly that page: afterwards every address
  in it denotes the byte at the same offset of the physical page, every other address denotes what
  it did, and the directory and the free list stay well formed. It returns -1, with nothing mapped,
  exactly when a page table is missing and no page is left for it.\<close>

theorem mappages_translates:
  assumes "kmem_free s" and "kmem_inv s ps" and "pgdir_ok s ps pgdir"
    and "va mod PGSIZE = 0" and "pa mod PGSIZE = 0" and "perm AND NOT 0xFFF = 0"
    and "translate (m_mem s) pgdir va = None"
  shows "if has_table (m_mem s) pgdir (PDX va) \<or> ps \<noteq> []
    then (\<exists>s' ps'. mappages pgdir va PGSIZE pa perm s rs = Ret 0 s' rs \<and>
      (\<forall>va'. translate (m_mem s') pgdir va' = (if PGROUNDDOWN va' = va
        then Some (pa + KERNBASE + (va' AND 0xFFF)) else translate (m_mem s) pgdir va')) \<and>
      kmem_inv s' ps' \<and> pgdir_ok s' ps' pgdir)
    else (\<exists>s'. mappages pgdir va PGSIZE pa perm s rs = Ret (-1) s' rs \<and> m_mem s' = m_mem s)"
proof (cases "has_table (m_mem s) pgdir (PDX va)")
  case True
  then show ?thesis
    using mappages_entry [OF walkpgdir_present [OF assms(3) True] assms(3) True assms(4,7), of pa perm rs]
      map_entry [OF assms(3,2) True assms(4-6)] by auto
next
  case False
  note po = pgdir_okD(1) [OF assms(3)]
  show ?thesis
  proof (cases ps)
    case Nil
    then show ?thesis
      using False walkpgdir_absent(2) [OF po False assms(1), of 1 rs] assms(2)
      unfolding mappages_one [OF assms(4)] by simp
  next
    case (Cons q qs)
    note ok = assms(3) [unfolded Cons] and kmem = assms(2) [unfolded Cons]
    let ?s = "(kalloced s)\<lparr>m_mem := with_table pgdir (PDX va) q (m_mem s)\<rparr>"
    note new = new_table [OF ok kmem False]
    have q: "page_ok s q" "q \<noteq> pgdir" "pgdir mod PGSIZE = 0"
      using kmem pgdir_okD(1,2) [OF ok] by (auto simp: kmem_inv_def page_ok_def)
    have has: "has_table (m_mem ?s) pgdir (PDX va)" "table_of (m_mem ?s) pgdir (PDX va) = q"
      using with_table_loads(3,4) [OF q PDX_lt [of va] PDX_lt [of va], where m = "m_mem s"] by simp_all
    have walk: "walkpgdir pgdir va 1 s rs = Ret (table_of (m_mem ?s) pgdir (PDX va) + 4 * PTX va) ?s rs"
      using walkpgdir_absent(3) [OF po False assms(1) kmem, of 1 rs] has(2) by (simp add: with_table_def)
    have none: "translate (m_mem ?s) pgdir va = None" using new(1) assms(7) by simp
    show ?thesis
      using mappages_entry [OF walk new(3) has(1) assms(4) none, of pa perm]
        map_entry [OF new(3,2) has(1) assms(4-6)] Cons new(1) by auto
  qed
qed

definition boot_vm :: vmstate where
  "boot_vm = constate.extend (boot_con\<lparr>km_freelist := 0x80201000\<rparr>)
     \<lparr>vm_kpgdir = 0x80200000, vm_cr3 = 0x200000\<rparr>"

lemma boot_vm_fields:
  "m_mem boot_vm = (\<lambda>_. 0)" "km_freelist boot_vm = 0x80201000" "km_end boot_vm = 0x80110000"
  "kmem_free boot_vm"
  by (simp_all add: boot_vm_def boot_con_def boot_kmem_def one_cpu_def constate.defs kstate.defs
      machine.defs kmem_free_def cpu_ok_def self_def ncli_def mine_def)

lemma boot_vm_ok: "kmem_inv boot_vm [0x80201000]" "pgdir_ok boot_vm [0x80201000] 0x80200000"
  by (simp_all add: kmem_inv_def pgdir_ok_def boot_vm_fields page_ok_def has_table_def load32_def
      PGSIZE_def KERNBASE_def PHYSTOP_def)

theorem mappages_translates_witness:
  "\<exists>s'. mappages 0x80200000 0x1000 PGSIZE 0x300000 6 boot_vm [] = Ret 0 s' [] \<and>
     translate (m_mem s') 0x80200000 0x1234 = Some 0x80300234"
proof -
  have none: "translate (m_mem boot_vm) 0x80200000 0x1000 = None"
    by (simp add: translate_def boot_vm_fields load32_def)
  have "PGROUNDDOWN 0x1234 = 0x1000" by (simp add: PGROUNDDOWN_def PGSIZE_def)
  then show ?thesis
    using mappages_translates [OF boot_vm_fields(4) boot_vm_ok, of "0x1000" "0x300000" 6 "[]"] none
    by (auto simp: PGSIZE_def KERNBASE_def)
qed

text \<open>C31: The directory index, the table index and the offset determine an address: \<^verbatim>\<open>PGADDR\<close> of the three
  gives it back, and both indices are in the range of a table.\<close>

theorem PGADDR_roundtrip:
  "PGADDR (PDX va) (PTX va) (va AND 0xFFF) = va \<and> unat (PDX va) < 1024 \<and> unat (PTX va) < 1024"
  using PGADDR_split PDX_lt PTX_lt by simp

end
