(* ===== verification/Proc.thy ===== *)
theory Proc
  imports ReadyQueue Vm
begin

unbundle bit_operations_syntax

text \<open>
  Processes: \<^verbatim>\<open>struct proc\<close> and the process table of \<^verbatim>\<open>proc.c\<close>, with \<^verbatim>\<open>pinit\<close>, \<^verbatim>\<open>allocproc\<close>,
  \<^verbatim>\<open>growproc\<close>, \<^verbatim>\<open>schedlog\<close>, \<^verbatim>\<open>sched\<close>, \<^verbatim>\<open>yield\<close>, \<^verbatim>\<open>sleep\<close>, \<^verbatim>\<open>wakeup1\<close>, \<^verbatim>\<open>wakeup\<close>, \<^verbatim>\<open>kill\<close> and \<^verbatim>\<open>procdump\<close>,
  and \<^verbatim>\<open>switchuvm\<close> of \<^verbatim>\<open>vm.c\<close>. A pointer into the table is an index, a null pointer is \<open>None\<close>. The
  debug prints guarded by the flags that \<^verbatim>\<open>proc.c\<close> sets to 0 are left out; \<open>dbgprintf_off\<close> says that
  they do nothing. \<open>pt_inv\<close> is the invariant that ties the table to the skip list; every operation
  here is shown to keep it.
\<close>

section \<open>State\<close>

datatype procstate = UNUSED | EMBRYO | SLEEPING | RUNNABLE | RUNNING | ZOMBIE

text \<open>What the kernel sleeps on: the addresses of these objects.\<close>

datatype channel =
    ChProc nat | ChTicks | ChLog | ChInput | ChBuf nat | ChSlockBuf nat | ChSlockInode nat
  | ChPipeRead addr | ChPipeWrite addr

text \<open>\<open>p_name\<close> holds the characters of \<^verbatim>\<open>name\<close> before the terminating zero.\<close>

record proc =
  p_sz :: "32 word"
  p_pgdir :: addr
  p_kstack :: addr
  p_state :: procstate
  p_pid :: int
  p_parent :: "nat option"
  p_tf :: addr
  p_context :: addr
  p_chan :: "channel option"
  p_killed :: int
  p_ofile :: "nat option list"
  p_cwd :: "nat option"
  p_name :: string
  p_niceness :: int
  p_vdeadline :: int
  p_ticks_left :: int
  p_maxlevel :: int

text \<open>
  The globals of \<^verbatim>\<open>proc.c\<close>, and \<^verbatim>\<open>ticks\<close>. \<open>pt_esp0\<close> is \<^verbatim>\<open>ts.esp0\<close> of each CPU, the stack on which traps
  from user mode start. \<open>pt_trapret\<close> and \<open>pt_forkret\<close> are code addresses, \<open>pt_before\<close> is the word of
  memory that \<^verbatim>\<open>sl.nodeList[-1].valid\<close> names, \<open>pt_first\<close> is the static variable of \<^verbatim>\<open>forkret\<close>.
\<close>

record pstate = vmstate +
  pt_proc :: "proc list"
  pt_initproc :: "nat option"
  pt_nextpid :: int
  pt_bfs :: bfs
  pt_ticks :: "32 word"
  pt_schedlog_active :: int
  pt_schedlog_lasttick :: int
  pt_esp0 :: "nat \<Rightarrow> 32 word"
  pt_trapret :: addr
  pt_forkret :: addr
  pt_before :: int
  pt_first :: int

definition KSTACKSIZE :: "32 word" where "KSTACKSIZE = 4096"

text \<open>Sizes and offsets in \<^verbatim>\<open>struct trapframe\<close> and \<^verbatim>\<open>struct context\<close>.\<close>

definition sizeof_trapframe :: "32 word" where "sizeof_trapframe = 76"
definition sizeof_context :: "32 word" where "sizeof_context = 20"
definition tf_eax :: "32 word" where "tf_eax = 28"
definition ctx_ebp :: "32 word" where "ctx_ebp = 12"
definition ctx_eip :: "32 word" where "ctx_eip = 16"

definition up_proc :: "nat \<Rightarrow> (proc \<Rightarrow> proc) \<Rightarrow> 'a pstate_scheme \<Rightarrow> 'a pstate_scheme" where
  "up_proc i f s = s\<lparr>pt_proc := (pt_proc s)[i := f (pt_proc s ! i)]\<rparr>"

abbreviation proc_at :: "'a pstate_scheme \<Rightarrow> nat \<Rightarrow> proc" where
  "proc_at s i \<equiv> pt_proc s ! i"

text \<open>Following a process pointer.\<close>

definition kptr :: "nat option \<Rightarrow> (nat, 'a pstate_scheme) kern" where
  "kptr p = kget (\<lambda>s. kopt (case p of None \<Rightarrow> None | Some i \<Rightarrow> if i < length (pt_proc s) then Some i else None))"

section \<open>Operations\<close>

definition pinit :: "(unit, 'a pstate_scheme) kern" where
  "pinit = initlock LPtable ''ptable''"

text \<open>
  \<^verbatim>\<open>ticks + PRIO_RATIO(n) * BFS_DEFAULT_QUANTUM\<close>, as the preprocessor expands it: the macro has no
  parentheses, so the quantum multiplies the constant alone. The sum is unsigned and stored in a
  signed field.
\<close>

definition deadline :: "32 word \<Rightarrow> int \<Rightarrow> int" where
  "deadline ticks n = sint (ticks + word_of_int n + 21 * word_of_int BFS_DEFAULT_QUANTUM)"

text \<open>\<^verbatim>\<open>nextpid++\<close>, undefined when the counter is at its end.\<close>

definition take_pid :: "(int, 'a pstate_scheme) kern" where
  "take_pid = kget (\<lambda>s. if pt_nextpid s = 2 ^ 31 - 1 then (\<lambda>s rs. Undef)
     else kseq (kmod (\<lambda>s. s\<lparr>pt_nextpid := pt_nextpid s + 1\<rparr>)) (kret (pt_nextpid s)))"

definition allocproc :: "(nat option, 'a pstate_scheme) kern" where
  "allocproc =
     kseq (acquire LPtable) (
     kget (\<lambda>s. case List.find (\<lambda>i. p_state (proc_at s i) = UNUSED) [0..<NPROC] of
       None \<Rightarrow> kseq (release LPtable) (kret None)
     | Some i \<Rightarrow>
       kseq (kmod (up_proc i (\<lambda>p. p\<lparr>p_state := EMBRYO\<rparr>))) (
       kseq (kbind take_pid (\<lambda>pid. kmod (up_proc i (\<lambda>p. p\<lparr>p_pid := pid\<rparr>)))) (
       kseq (release LPtable) (
       kbind kalloc (\<lambda>k.
       kseq (kmod (up_proc i (\<lambda>p. p\<lparr>p_kstack := k\<rparr>))) (
       if k = 0 then kseq (kmod (up_proc i (\<lambda>p. p\<lparr>p_state := UNUSED\<rparr>))) (kret None) else
       let sp = k + KSTACKSIZE - sizeof_trapframe in
       kseq (kmod (up_proc i (\<lambda>p. p\<lparr>p_tf := sp\<rparr>))) (
       let sp = sp - 4 in
       kseq (kget (\<lambda>s. kstore sp (pt_trapret s))) (
       let sp = sp - sizeof_context in
       kseq (kmod (up_proc i (\<lambda>p. p\<lparr>p_context := sp\<rparr>))) (
       kseq (kmemset sp 0 sizeof_context) (
       kseq (kget (\<lambda>s. kstore (sp + ctx_eip) (pt_forkret s))) (
       kseq (kmod (up_proc i (\<lambda>p. p\<lparr>p_niceness := 0\<rparr>))) (
       kseq (kmod (\<lambda>s. up_proc i (\<lambda>p. p\<lparr>p_vdeadline := deadline (pt_ticks s) (p_niceness p)\<rparr>) s)) (
       kret (Some i)))))))))))))))"

definition switchuvm :: "nat option \<Rightarrow> (unit, 'a pstate_scheme) kern" where
  "switchuvm p = (case p of None \<Rightarrow> panic ''switchuvm: no process'' | Some i \<Rightarrow>
     kget (\<lambda>s.
     if p_kstack (proc_at s i) = 0 then panic ''switchuvm: no kstack''
     else if p_pgdir (proc_at s i) = 0 then panic ''switchuvm: no pgdir''
     else
     kseq pushcli (
     kseq (kbind mycpu (\<lambda>c. kmod (\<lambda>s. s\<lparr>pt_esp0 := (pt_esp0 s)(c := p_kstack (proc_at s i) + KSTACKSIZE)\<rparr>))) (
     kseq (kget (\<lambda>s. kbind (V2P (p_pgdir (proc_at s i))) (\<lambda>pa. kmod (\<lambda>s. s\<lparr>vm_cr3 := pa\<rparr>))))
     popcli))))"

definition growproc :: "int \<Rightarrow> (int, 'a pstate_scheme) kern" where
  "growproc n =
     kbind myproc (\<lambda>p. kbind (kptr p) (\<lambda>i. kget (\<lambda>s.
     let sz = p_sz (proc_at s i); pgdir = p_pgdir (proc_at s i) in
     kbind (if n > 0 then allocuvm pgdir sz (sz + word_of_int n)
            else if n < 0 then deallocuvm pgdir sz (sz + word_of_int n)
            else kret sz) (\<lambda>sz'.
     if n \<noteq> 0 \<and> sz' = 0 then kret (-1) else
     kseq (kmod (up_proc i (\<lambda>p. p\<lparr>p_sz := sz'\<rparr>))) (
     kseq (switchuvm (Some i))
     (kret 0))))))"

definition schedlog :: "int \<Rightarrow> (unit, 'a pstate_scheme) kern" where
  "schedlog n = kmod (\<lambda>s. s\<lparr>pt_schedlog_active := 1,
     pt_schedlog_lasttick := sint (pt_ticks s + word_of_int n)\<rparr>)"

text \<open>\<^verbatim>\<open>swtch\<close> to the scheduler is a wait: the other threads run until this one is picked again.\<close>

definition sched :: "(unit, 'a pstate_scheme) kern" where
  "sched =
     kbind myproc (\<lambda>p.
     kbind (holding LPtable) (\<lambda>h. if \<not> h then panic ''sched ptable.lock'' else
     kbind mycpu (\<lambda>c. kget (\<lambda>s. if c_ncli (m_cpus s ! c) \<noteq> 1 then panic ''sched locks'' else
     kbind (kptr p) (\<lambda>i. kget (\<lambda>s.
     if p_state (proc_at s i) = RUNNING then panic ''sched running''
     else if m_if s then panic ''sched interruptible'' else
     kbind mycpu (\<lambda>c. kget (\<lambda>s. let intena = c_intena (m_cpus s ! c) in
     kseq kwait (
     kbind mycpu (\<lambda>c. kmod (up_cpu c (\<lambda>k. k\<lparr>c_intena := intena\<rparr>)))))))))))) "

definition yield :: "(unit, 'a pstate_scheme) kern" where
  "yield =
     kseq (acquire LPtable) (
     kbind myproc (\<lambda>p. kbind (kptr p) (\<lambda>i.
     kseq (kmod (up_proc i (\<lambda>p. p\<lparr>p_state := RUNNABLE\<rparr>))) (
     kseq (kbind myproc (\<lambda>p. kbind (kptr p) (\<lambda>i. kget (\<lambda>s.
       kwhen (p_ticks_left (proc_at s i) \<le> 0)
         (kmod (\<lambda>s. up_proc i (\<lambda>p. p\<lparr>p_vdeadline := deadline (pt_ticks s) (p_niceness p)\<rparr>) s)))))) (
     kseq sched
     (release LPtable))))))"

definition sleep :: "channel option \<Rightarrow> lockid option \<Rightarrow> (unit, 'a pstate_scheme) kern" where
  "sleep chan lk =
     kbind myproc (\<lambda>p. case p of None \<Rightarrow> panic ''sleep'' | Some _ \<Rightarrow>
     (case lk of None \<Rightarrow> panic ''sleep without lk'' | Some l \<Rightarrow>
     kbind (kptr p) (\<lambda>i.
     kseq (kwhen (l \<noteq> LPtable) (kseq (acquire LPtable) (release l))) (
     kseq (kmod (up_proc i (\<lambda>p. p\<lparr>p_chan := chan\<rparr>))) (
     kseq (kmod (up_proc i (\<lambda>p. p\<lparr>p_state := SLEEPING\<rparr>))) (
     kseq sched (
     kseq (kmod (up_proc i (\<lambda>p. p\<lparr>p_chan := None\<rparr>)))
     (kwhen (l \<noteq> LPtable) (kseq (release LPtable) (acquire l))))))))))"

definition woken :: "channel option \<Rightarrow> proc \<Rightarrow> proc" where
  "woken chan p = (if p_state p = SLEEPING \<and> p_chan p = chan then p\<lparr>p_state := RUNNABLE\<rparr> else p)"

definition wakeup1 :: "channel option \<Rightarrow> (unit, 'a pstate_scheme) kern" where
  "wakeup1 chan = kmod (\<lambda>s. s\<lparr>pt_proc := map (woken chan) (pt_proc s)\<rparr>)"

definition wakeup :: "channel option \<Rightarrow> (unit, 'a pstate_scheme) kern" where
  "wakeup chan = kseq (acquire LPtable) (kseq (wakeup1 chan) (release LPtable))"

definition kill :: "int \<Rightarrow> (int, 'a pstate_scheme) kern" where
  "kill pid =
     kseq (acquire LPtable) (
     kget (\<lambda>s. case List.find (\<lambda>i. p_pid (proc_at s i) = pid) [0..<NPROC] of
       None \<Rightarrow> kseq (release LPtable) (kret (-1))
     | Some i \<Rightarrow>
       kseq (kmod (up_proc i (\<lambda>p. p\<lparr>p_killed := 1\<rparr>))) (
       kseq (kget (\<lambda>s. kwhen (p_state (proc_at s i) = SLEEPING)
         (kmod (up_proc i (\<lambda>p. p\<lparr>p_state := RUNNABLE\<rparr>))))) (
       kseq (release LPtable)
       (kret 0)))))"

primrec state_name :: "procstate \<Rightarrow> string" where
  "state_name UNUSED = ''unused''"
| "state_name EMBRYO = ''embryo''"
| "state_name SLEEPING = ''sleep ''"
| "state_name RUNNABLE = ''runble''"
| "state_name RUNNING = ''run   ''"
| "state_name ZOMBIE = ''zombie''"

definition procdump :: "(unit, 'a pstate_scheme) kern" where
  "procdump = kfor [0..<NPROC] (\<lambda>i. kget (\<lambda>s. let p = proc_at s i in
     kwhen (p_state p \<noteq> UNUSED) (
     kseq (cprintf ''%d %s %s'' [AWord (word_of_int (p_pid p)), AStr (Some (state_name (p_state p))),
       AStr (Some (p_name p))]) (
     kseq (kwhen (p_state p = SLEEPING) (
       kbind (kload (p_context p + ctx_ebp)) (\<lambda>ebp. kget (\<lambda>s.
       kfor (takeWhile (\<lambda>pc. pc \<noteq> 0) (getcallerpcs (ebp + 8) (m_mem s))) (\<lambda>pc.
         cprintf '' %p'' [AWord pc])))))
     (cprintf (nl []) [])))))"

lemma dbgprintf_off: "dbgprintf 0 fmt args = kret ()"
  by (simp add: dbgprintf_def)

section \<open>Frames\<close>

text \<open>The process the executing CPU runs.\<close>

definition cur :: "'a machine_scheme \<Rightarrow> nat option" where
  "cur s = c_proc (m_cpus s ! mine s)"

lemma more_section [simp]:
  "vmstate.more (acquired l s) = vmstate.more s" "vmstate.more (released l s) = vmstate.more s"
  "vmstate.more (pushed s) = vmstate.more s" "vmstate.more (popped s) = vmstate.more s"
  "vmstate.more (up_cpu c f s) = vmstate.more s"
  by (simp_all add: acquired_def released_def up_lock_def pushed_def popped_def up_cpu_def)

lemma more_fields:
  assumes "vmstate.more s' = vmstate.more s"
  shows "pt_proc s' = pt_proc s" "pt_initproc s' = pt_initproc s" "pt_nextpid s' = pt_nextpid s"
    "pt_bfs s' = pt_bfs s" "pt_ticks s' = pt_ticks s" "pt_first s' = pt_first s"
    "pt_schedlog_active s' = pt_schedlog_active s" "pt_schedlog_lasttick s' = pt_schedlog_lasttick s"
    "pt_esp0 s' = pt_esp0 s" "pt_before s' = pt_before s"
    "pt_trapret s' = pt_trapret s" "pt_forkret s' = pt_forkret s"
  using assms by (cases s; cases s'; simp)+

lemmas pt_section [simp] =
  more_fields [OF more_section(1)] more_fields [OF more_section(2)] more_fields [OF more_section(3)]
  more_fields [OF more_section(4)] more_fields [OF more_section(5)]

lemma up_proc_machine [simp]:
  "m_cpus (up_proc i f s) = m_cpus s" "m_if (up_proc i f s) = m_if s" "m_locks (up_proc i f s) = m_locks s"
  "m_mem (up_proc i f s) = m_mem s" "m_args (up_proc i f s) = m_args s" "self (up_proc i f s) = self s"
  "mine (up_proc i f s) = mine s" "ncli (up_proc i f s) = ncli s" "cpu_ok (up_proc i f s) = cpu_ok s"
  "holds l (up_proc i f s) = holds l s" "cur (up_proc i f s) = cur s"
  "m_lapicid (up_proc i f s) = m_lapicid s"
  by (simp_all add: up_proc_def self_def mine_def ncli_def cpu_ok_def holds_def cur_def)

lemma up_proc_table [simp]:
  "pt_proc (up_proc i f s) = (pt_proc s)[i := f (proc_at s i)]"
  "pt_nextpid (up_proc i f s) = pt_nextpid s" "pt_bfs (up_proc i f s) = pt_bfs s"
  "pt_ticks (up_proc i f s) = pt_ticks s" "pt_initproc (up_proc i f s) = pt_initproc s"
  "pt_trapret (up_proc i f s) = pt_trapret s" "pt_forkret (up_proc i f s) = pt_forkret s"
  by (simp_all add: up_proc_def)

lemma cur_section [simp]:
  "cur (acquired l s) = cur s" "cur (released l s) = cur s" "cur (pushed s) = cur s" "cur (popped s) = cur s"
  by (simp_all add: cur_def acquired_def released_def pushed_def popped_def c_proc_up_cpu up_cpu_if)

lemma same_locks_cur: "same_locks s s' \<Longrightarrow> cur s' = cur s"
  by (simp add: same_locks_def cur_def mine_def)

lemma pushed_popped_locks:
  assumes "cpu_ok s"
  shows "same_locks s (popped (pushed s))"
proof -
  have "mine s < length (m_cpus s)" using assms mine_lt by (auto simp: cpu_ok_def)
  then show ?thesis
    using assms by (auto simp: same_locks_def popped_pushed holds_def ncli_def cpu_ok_def c_proc_up_cpu split: if_splits)
qed

lemma myproc_run:
  assumes "cpu_ok s"
  shows "myproc s rs = Ret (cur s) (popped (pushed s)) rs"
proof -
  have s: "self s \<noteq> None" "0 < ncli (pushed s)" using assms by (auto simp: cpu_ok_def)
  have "popcli (pushed s) rs = Ret () (popped (pushed s)) rs"
    by (rule popcli_run) (use s in auto)
  moreover have "c_proc (m_cpus (pushed s) ! mine s) = cur s"
    by (simp add: cur_def pushed_def c_proc_up_cpu)
  ultimately show ?thesis
    using s by (simp add: myproc_def pushcli_run mycpu_run)
qed

lemma myproc_nested:
  assumes "cpu_ok s" and "0 < ncli s"
  shows "myproc s rs = Ret (cur s) s rs"
  using myproc_run [OF assms(1)] assms by (simp add: popped_pushed)

lemma kptr_run: "i < length (pt_proc s) \<Longrightarrow> kptr (Some i) s rs = Ret i s rs"
  by (simp add: kptr_def)

section \<open>Waiting\<close>

lemma shrinks_kptr [shrinks_intros]: "shrinks (kptr p)"
  unfolding kptr_def by (intro shrinks_intros)

lemma strict_sched: "strict sched"
  unfolding sched_def
  by (intro strict_bind2 strict_branch strict_get strict_prims strict_seq1 shrinks_intros)

lemma strict_sleep: "strict (sleep chan lk)"
  unfolding sleep_def
  by (intro strict_bind2 strict_branch strict_prims strict_seq2 strict_seq1 [OF strict_sched] shrinks_intros)

lemma shrinks_sleep [shrinks_intros]: "shrinks (sleep chan lk)" "shrinks sched"
  using strict_sleep strict_sched by (auto intro: strict_shrinks)

lemma shrinks_wakeup [shrinks_intros]: "shrinks (wakeup chan)"
  unfolding wakeup_def wakeup1_def by (intro shrinks_intros)

section \<open>The invariant of the table\<close>

definition proc_ok :: "int \<Rightarrow> proc \<Rightarrow> bool" where
  "proc_ok n p \<longleftrightarrow> 0 \<le> p_pid p \<and> p_pid p < n \<and> (p_state p \<noteq> UNUSED \<longrightarrow> 0 < p_pid p) \<and>
     (p_state p \<in> {SLEEPING, RUNNABLE, RUNNING} \<longrightarrow> p_kstack p \<noteq> 0 \<and> KERNBASE \<le> p_pgdir p)"

text \<open>The entries that the runnable processes should have in the skip list.\<close>

definition ready :: "proc list \<Rightarrow> (int \<times> int) set" where
  "ready ps = {(p_vdeadline p, p_pid p) | p. p \<in> set ps \<and> p_state p = RUNNABLE}"

text \<open>
  Slots that are in use have different pids, all handed out before; a stale entry of the skip list
  does not exist: each belongs to a runnable process and carries its current deadline.
\<close>

definition table_ok :: "proc list \<Rightarrow> int \<Rightarrow> bool" where
  "table_ok ps n \<longleftrightarrow> length ps = NPROC \<and> list_all (proc_ok n) ps \<and> 0 < n \<and>
     (\<forall>i j. i < NPROC \<longrightarrow> j < NPROC \<longrightarrow> i \<noteq> j \<longrightarrow> p_pid (ps ! i) = p_pid (ps ! j) \<longrightarrow> p_pid (ps ! i) = 0)"

definition queue_ok :: "proc list \<Rightarrow> bfs \<Rightarrow> bool" where
  "queue_ok ps b \<longleftrightarrow> sl_inv (bfs_sl b) \<and> distinct (entries (bfs_sl b)) \<and>
     set (entries (bfs_sl b)) \<subseteq> ready ps"

definition pt_inv :: "'a pstate_scheme \<Rightarrow> bool" where
  "pt_inv s \<longleftrightarrow> table_ok (pt_proc s) (pt_nextpid s) \<and> queue_ok (pt_proc s) (pt_bfs s)"

lemma pt_inv_cong:
  "pt_proc s' = pt_proc s \<Longrightarrow> pt_nextpid s' = pt_nextpid s \<Longrightarrow> pt_bfs s' = pt_bfs s \<Longrightarrow>
    pt_inv s' = pt_inv s"
  by (simp add: pt_inv_def)

lemma pt_inv_section [simp]:
  "pt_inv (acquired l s) = pt_inv s" "pt_inv (released l s) = pt_inv s"
  "pt_inv (pushed s) = pt_inv s" "pt_inv (popped s) = pt_inv s" "pt_inv (up_cpu c f s) = pt_inv s"
  by (simp_all add: pt_inv_def)

lemma pt_inv_length: "pt_inv s \<Longrightarrow> length (pt_proc s) = NPROC"
  by (simp add: pt_inv_def table_ok_def)

text \<open>A slot may change in any way that keeps its pid, or gives it a fresh one, as long as a
  runnable process stays runnable under the same deadline.\<close>

definition slot_step :: "int \<Rightarrow> int \<Rightarrow> proc \<Rightarrow> proc \<Rightarrow> bool" where
  "slot_step n n' p p' \<longleftrightarrow> proc_ok n' p' \<and> (p_pid p' = p_pid p \<or> p_pid p' = 0 \<or> n \<le> p_pid p') \<and>
     (p_state p = RUNNABLE \<longrightarrow>
        p_state p' = RUNNABLE \<and> p_vdeadline p' = p_vdeadline p \<and> p_pid p' = p_pid p)"

lemma proc_ok_mono: "proc_ok n p \<Longrightarrow> n \<le> n' \<Longrightarrow> proc_ok n' p"
  by (auto simp: proc_ok_def)

lemma table_ok_slot:
  assumes "table_ok ps n" and "i < NPROC" and "n \<le> n'" and "proc_ok n' p"
    and "p_pid p = p_pid (ps ! i) \<or> p_pid p = 0 \<or> n \<le> p_pid p"
  shows "table_ok (ps[i := p]) n'"
proof -
  have len: "length ps = NPROC" and ok: "\<And>j. j < NPROC \<Longrightarrow> proc_ok n (ps ! j)"
    using assms(1) by (auto simp: table_ok_def list_all_length)
  have lt: "p_pid (ps ! j) < n" if "j < NPROC" for j using ok [OF that] by (simp add: proc_ok_def)
  have "list_all (proc_ok n') (ps[i := p])"
    using ok assms len by (auto simp: list_all_length nth_list_update intro: proc_ok_mono)
  moreover have "p_pid (ps[i := p] ! j) = 0"
    if "j < NPROC" "k < NPROC" "j \<noteq> k" "p_pid (ps[i := p] ! j) = p_pid (ps[i := p] ! k)" for j k
  proof -
    have old: "p_pid (ps ! j) = p_pid (ps ! k) \<Longrightarrow> p_pid (ps ! j) = 0"
      using assms(1) that by (auto simp: table_ok_def)
    show ?thesis
      using that len old lt [OF that(1)] lt [OF that(2)] assms(2,5)
      by (cases "i = j"; cases "i = k") auto
  qed
  ultimately show ?thesis using assms len by (auto simp: table_ok_def)
qed

lemma table_ok_update:
  "table_ok ps n \<Longrightarrow> i < NPROC \<Longrightarrow> n \<le> n' \<Longrightarrow> slot_step n n' (ps ! i) p \<Longrightarrow> table_ok (ps[i := p]) n'"
  by (rule table_ok_slot) (auto simp: slot_step_def)

lemma ready_update:
  assumes "i < length ps" and "slot_step n n' (ps ! i) p"
  shows "ready ps \<subseteq> ready (ps[i := p])"
proof
  fix e assume "e \<in> ready ps"
  then obtain j where j: "j < length ps" "e = (p_vdeadline (ps ! j), p_pid (ps ! j))"
      "p_state (ps ! j) = RUNNABLE"
    by (auto simp: ready_def in_set_conv_nth)
  have "\<exists>q. q = ps[i := p] ! j \<and> p_state q = RUNNABLE \<and> e = (p_vdeadline q, p_pid q)"
    using assms(2) j by (cases "j = i") (auto simp: slot_step_def)
  moreover have "ps[i := p] ! j \<in> set (ps[i := p])" using j(1) by (intro nth_mem) simp
  ultimately show "e \<in> ready (ps[i := p])" unfolding ready_def by blast
qed

lemma pt_inv_update:
  assumes "pt_inv s" and "i < NPROC" and "slot_step (pt_nextpid s) n (proc_at s i) p"
    and "pt_nextpid s \<le> n" and "pt_proc s' = (pt_proc s)[i := p]" and "pt_nextpid s' = n"
    and "pt_bfs s' = pt_bfs s"
  shows "pt_inv s'"
  using assms table_ok_update [OF _ assms(2,4,3)] ready_update [of i "pt_proc s", OF _ assms(3)]
  by (auto simp: pt_inv_def queue_ok_def table_ok_def)

lemma pt_inv_up_proc:
  assumes "pt_inv s" and "i < NPROC" and "slot_step (pt_nextpid s) (pt_nextpid s) (proc_at s i) (f (proc_at s i))"
  shows "pt_inv (up_proc i f s)"
  by (rule pt_inv_update [OF assms(1,2,3)]) auto

lemma pt_inv_proc:
  assumes "pt_inv s" and "i < NPROC"
  shows "proc_ok (pt_nextpid s) (proc_at s i)"
  using assms by (simp add: pt_inv_def table_ok_def list_all_length)

section \<open>Giving up the CPU\<close>

text \<open>
  The state in which the scheduler puts process \<open>i\<close> on a CPU: the table lock is held on its behalf
  and is the only one.
\<close>

definition on_cpu :: "nat \<Rightarrow> 'a pstate_scheme \<Rightarrow> bool" where
  "on_cpu i r \<longleftrightarrow> cpu_ok r \<and> holds LPtable r \<and> ncli r = 1 \<and> cur r = Some i \<and> pt_inv r \<and> i < NPROC \<and>
     p_state (proc_at r i) = RUNNING"

text \<open>The state in which a process may leave the CPU.\<close>

definition may_switch :: "nat \<Rightarrow> 'a pstate_scheme \<Rightarrow> bool" where
  "may_switch i s \<longleftrightarrow> cpu_ok s \<and> holds LPtable s \<and> ncli s = 1 \<and> cur s = Some i \<and> i < length (pt_proc s) \<and>
     p_state (proc_at s i) \<noteq> RUNNING"

text \<open>\<^verbatim>\<open>intena\<close> belongs to the thread, not to the CPU: it is carried over the switch.\<close>

definition switched :: "'a machine_scheme \<Rightarrow> 'a machine_scheme \<Rightarrow> 'a machine_scheme" where
  "switched s r = up_cpu (mine r) (\<lambda>k. k\<lparr>c_intena := c_intena (m_cpus s ! mine s)\<rparr>) r"

lemma sched_head:
  assumes "may_switch i s"
  shows "sched s rs = kseq kwait (kbind mycpu (\<lambda>c.
    kmod (up_cpu c (\<lambda>k. k\<lparr>c_intena := c_intena (m_cpus s ! mine s)\<rparr>)))) s rs"
proof -
  have s: "cpu_ok s" "0 < ncli s" "self s \<noteq> None" "\<not> m_if s" "holds LPtable s" "cur s = Some i"
      "c_ncli (m_cpus s ! mine s) = 1" "i < length (pt_proc s)" "p_state (proc_at s i) \<noteq> RUNNING"
    using assms by (auto simp: may_switch_def cpu_ok_def ncli_def)
  show ?thesis
    using s by (simp add: sched_def myproc_nested holding_run mycpu_run kptr_run Let_def)
qed

lemma sched_blocks: "may_switch i s \<Longrightarrow> sched s [] = Block s"
  by (simp add: sched_head)

lemma sched_run:
  assumes "may_switch i s" and "self r \<noteq> None" and "\<not> m_if r"
  shows "sched s (r # rs) = Ret () (switched s r) rs"
  using assms by (simp add: sched_head mycpu_run switched_def)

lemma switched_fields [simp]:
  "self (switched s r) = self r" "mine (switched s r) = mine r" "m_if (switched s r) = m_if r"
  "m_locks (switched s r) = m_locks r" "m_mem (switched s r) = m_mem r"
  "length (m_cpus (switched s r)) = length (m_cpus r)" "holds l (switched s r) = holds l r"
  "vmstate.more (switched s r) = vmstate.more r" "cur (switched s r) = cur r"
  by (simp_all add: switched_def holds_def cur_def c_proc_up_cpu)

lemmas pt_switched [simp] = more_fields [OF switched_fields(8)]

lemma switched_ok [simp]:
  "self r \<noteq> None \<Longrightarrow> ncli (switched s r) = ncli r" "self r \<noteq> None \<Longrightarrow> cpu_ok (switched s r) = cpu_ok r"
  "pt_inv (switched s r) = pt_inv r"
  using mine_lt [of r] by (auto simp: switched_def ncli_def cpu_ok_def pt_inv_def)

lemma sched_panics:
  assumes "cpu_ok s" and "0 < ncli s"
  shows "\<not> holds LPtable s \<Longrightarrow> sched s rs = Panic ''sched ptable.lock'' s"
    and "holds LPtable s \<Longrightarrow> ncli s \<noteq> 1 \<Longrightarrow> sched s rs = Panic ''sched locks'' s"
    and "holds LPtable s \<Longrightarrow> ncli s = 1 \<Longrightarrow> cur s = Some i \<Longrightarrow> i < length (pt_proc s) \<Longrightarrow>
      p_state (proc_at s i) = RUNNING \<Longrightarrow> sched s rs = Panic ''sched running'' s"
proof -
  have s: "self s \<noteq> None" "\<not> m_if s" "ncli s = c_ncli (m_cpus s ! mine s)"
    using assms by (auto simp: cpu_ok_def ncli_def)
  show "\<not> holds LPtable s \<Longrightarrow> sched s rs = Panic ''sched ptable.lock'' s"
    using assms by (simp add: sched_def myproc_nested holding_run)
  show "holds LPtable s \<Longrightarrow> ncli s \<noteq> 1 \<Longrightarrow> sched s rs = Panic ''sched locks'' s"
    using assms s by (simp add: sched_def myproc_nested holding_run mycpu_run)
  show "holds LPtable s \<Longrightarrow> ncli s = 1 \<Longrightarrow> cur s = Some i \<Longrightarrow> i < length (pt_proc s) \<Longrightarrow>
      p_state (proc_at s i) = RUNNING \<Longrightarrow> sched s rs = Panic ''sched running'' s"
    using assms s by (simp add: sched_def myproc_nested holding_run mycpu_run kptr_run)
qed

text \<open>The state in which a thread enters one of the operations: on a CPU, without a spin lock.\<close>

definition in_proc :: "nat \<Rightarrow> 'a pstate_scheme \<Rightarrow> bool" where
  "in_proc i s \<longleftrightarrow> cpu_ok s \<and> cur s = Some i \<and> i < NPROC \<and> pt_inv s \<and> p_state (proc_at s i) = RUNNING"

lemma in_procD:
  assumes "in_proc i s"
  shows "cpu_ok s" "cur s = Some i" "i < NPROC" "i < length (pt_proc s)" "pt_inv s" "self s \<noteq> None"
    "length (pt_proc s) = NPROC" "p_state (proc_at s i) = RUNNING" "0 \<le> ncli s"
    "proc_ok (pt_nextpid s) (proc_at s i)"
  using assms pt_inv_length [of s] pt_inv_proc [of s i] by (auto simp: in_proc_def cpu_ok_def)

subsection \<open>yield\<close>

definition requeued :: "32 word \<Rightarrow> proc \<Rightarrow> proc" where
  "requeued t p = p\<lparr>p_state := RUNNABLE,
     p_vdeadline := (if p_ticks_left p \<le> 0 then deadline t (p_niceness p) else p_vdeadline p)\<rparr>"

definition left_cpu :: "nat \<Rightarrow> 'a pstate_scheme \<Rightarrow> 'a pstate_scheme" where
  "left_cpu i s = up_proc i (requeued (pt_ticks s)) (acquired LPtable s)"

lemma slot_step_requeued:
  "proc_ok n p \<Longrightarrow> p_state p = RUNNING \<Longrightarrow> slot_step n n p (requeued t p)"
  by (simp add: slot_step_def requeued_def proc_ok_def)

lemma left_cpu_switch:
  assumes "in_proc i s" and "ncli s = 0"
  shows "may_switch i (left_cpu i s)" and "pt_inv (left_cpu i s)"
proof -
  have s: "cpu_ok s" "cur s = Some i" "i < NPROC" "pt_inv s" "length (pt_proc s) = NPROC" "self s \<noteq> None"
    using in_procD [OF assms(1)] by auto
  show "may_switch i (left_cpu i s)"
    using s assms(2) by (simp add: may_switch_def left_cpu_def requeued_def)
  show "pt_inv (left_cpu i s)"
    unfolding left_cpu_def
    using s in_procD(8,10) [OF assms(1)] by (intro pt_inv_up_proc) (auto intro: slot_step_requeued)
qed

lemma yield_head:
  assumes "in_proc i s" and "ncli s = 0" and "lk_locked (m_locks s LPtable) = 0"
  shows "yield s rs = kseq sched (release LPtable) (left_cpu i s) rs"
proof -
  have s: "cpu_ok s" "cur s = Some i" "i < length (pt_proc s)" "self s \<noteq> None"
    using in_procD [OF assms(1)] by auto
  have eq: "up_proc i (\<lambda>p. p\<lparr>p_vdeadline := deadline (pt_ticks s) (p_niceness p)\<rparr>)
      (up_proc i (\<lambda>p. p\<lparr>p_state := RUNNABLE\<rparr>) (acquired LPtable s)) = left_cpu i s"
    if "p_ticks_left (proc_at s i) \<le> 0"
    using s(3) that by (simp add: left_cpu_def up_proc_def requeued_def)
  have eq': "up_proc i (\<lambda>p. p\<lparr>p_state := RUNNABLE\<rparr>) (acquired LPtable s) = left_cpu i s"
    if "\<not> p_ticks_left (proc_at s i) \<le> 0"
    using s(3) that by (simp add: left_cpu_def up_proc_def requeued_def)
  show ?thesis
  proof (cases "p_ticks_left (proc_at s i) \<le> 0")
    case True
    show ?thesis unfolding eq [OF True, symmetric]
      using True s assms(2,3) by (simp add: yield_def acquire_run myproc_nested kptr_run)
  next
    case False
    show ?thesis unfolding eq' [OF False, symmetric]
      using False s assms(2,3) by (simp add: yield_def acquire_run myproc_nested kptr_run)
  qed
qed

lemma release_switched:
  assumes "on_cpu i r"
  shows "release LPtable (switched s r) rs = Ret () (released LPtable (switched s r)) rs"
  using assms by (intro release_run) (auto simp: on_cpu_def cpu_ok_def)

lemma on_cpu_self: "on_cpu i r \<Longrightarrow> self r \<noteq> None \<and> \<not> m_if r"
  by (simp add: on_cpu_def cpu_ok_def)

lemma yield_run:
  assumes "in_proc i s" and "ncli s = 0" and "lk_locked (m_locks s LPtable) = 0"
  shows "yield s [] = Block (left_cpu i s)"
    and "on_cpu i r \<Longrightarrow> yield s (r # rs) = Ret () (released LPtable (switched (left_cpu i s) r)) rs"
  using left_cpu_switch [OF assms(1,2)] on_cpu_self [of i r] release_switched [of i r]
  by (simp_all add: yield_head [OF assms] sched_blocks sched_run)

subsection \<open>sleep and wakeup\<close>

definition asleep :: "channel option \<Rightarrow> proc \<Rightarrow> proc" where
  "asleep chan p = p\<lparr>p_chan := chan, p_state := SLEEPING\<rparr>"

text \<open>What \<^verbatim>\<open>sleep\<close> hands over: \<open>t\<close> is the state with the table lock held and \<^verbatim>\<open>lk\<close> released.\<close>

definition fell_asleep :: "nat \<Rightarrow> channel option \<Rightarrow> lockid \<Rightarrow> 'a pstate_scheme \<Rightarrow> 'a pstate_scheme" where
  "fell_asleep i chan l s = up_proc i (asleep chan)
     (if l = LPtable then s else released l (acquired LPtable s))"

definition can_sleep :: "nat \<Rightarrow> lockid \<Rightarrow> 'a pstate_scheme \<Rightarrow> bool" where
  "can_sleep i l s \<longleftrightarrow> in_proc i s \<and> ncli s = 1 \<and> holds l s \<and>
     (l \<noteq> LPtable \<longrightarrow> lk_locked (m_locks s LPtable) = 0)"

lemma fell_asleep_switch:
  assumes "can_sleep i l s"
  shows "may_switch i (fell_asleep i chan l s)" and "pt_inv (fell_asleep i chan l s)"
proof -
  note P = in_procD [of i s]
  have s: "in_proc i s" "ncli s = 1" "holds l s" using assms by (auto simp: can_sleep_def)
  let ?t = "if l = LPtable then s else released l (acquired LPtable s)"
  have t: "pt_proc ?t = pt_proc s" "pt_nextpid ?t = pt_nextpid s" "pt_inv ?t" "cpu_ok ?t" "cur ?t = Some i"
      "holds LPtable ?t" "ncli ?t = 1"
    using s P by auto
  show "may_switch i (fell_asleep i chan l s)"
    using t P [OF s(1)] by (simp add: may_switch_def fell_asleep_def asleep_def)
  show "pt_inv (fell_asleep i chan l s)"
    unfolding fell_asleep_def
    by (rule pt_inv_up_proc) (use t P [OF s(1)] in \<open>auto simp: slot_step_def proc_ok_def asleep_def\<close>)
qed

definition woke_up :: "nat \<Rightarrow> lockid \<Rightarrow> 'a pstate_scheme \<Rightarrow> 'a pstate_scheme" where
  "woke_up i l r =
     (let r1 = up_proc i (\<lambda>p. p\<lparr>p_chan := None\<rparr>) r
      in if l = LPtable then r1 else acquired l (released LPtable r1))"

lemma up_proc_twice:
  "i < length (pt_proc s) \<Longrightarrow> up_proc i g (up_proc i f s) = up_proc i (\<lambda>p. g (f p)) s"
  by (simp add: up_proc_def)

lemma sleep_head:
  assumes "can_sleep i l s"
  shows "sleep chan (Some l) s rs = kseq sched (kseq (kmod (up_proc i (\<lambda>p. p\<lparr>p_chan := None\<rparr>)))
     (kwhen (l \<noteq> LPtable) (kseq (release LPtable) (acquire l)))) (fell_asleep i chan l s) rs"
proof -
  have s: "cpu_ok s" "cur s = Some i" "i < length (pt_proc s)" "self s \<noteq> None" "ncli s = 1" "holds l s"
      "l \<noteq> LPtable \<Longrightarrow> lk_locked (m_locks s LPtable) = 0"
    using in_procD [of i s] assms by (auto simp: can_sleep_def)
  have "kwhen (l \<noteq> LPtable) (kseq (acquire LPtable) (release l)) s rs
      = Ret () (if l = LPtable then s else released l (acquired LPtable s)) rs"
    using s by (simp add: acquire_run release_run)
  moreover have "asleep chan = (\<lambda>p. p\<lparr>p_chan := chan, p_state := SLEEPING\<rparr>)"
    by (simp add: fun_eq_iff asleep_def)
  ultimately show ?thesis
    using s by (simp add: sleep_def myproc_nested kptr_run up_proc_twice fell_asleep_def)
qed

lemma sleep_run:
  assumes "can_sleep i l s"
  shows "sleep chan (Some l) s [] = Block (fell_asleep i chan l s)"
    and "on_cpu i r \<Longrightarrow> l \<noteq> LPtable \<Longrightarrow> lk_locked (m_locks r l) = 0 \<Longrightarrow>
      sleep chan (Some l) s (r # rs) = Ret () (woke_up i l (switched (fell_asleep i chan l s) r)) rs"
    and "on_cpu i r \<Longrightarrow> l = LPtable \<Longrightarrow>
      sleep chan (Some l) s (r # rs) = Ret () (woke_up i l (switched (fell_asleep i chan l s) r)) rs"
proof -
  note sw = fell_asleep_switch(1) [OF assms, of chan]
  show "sleep chan (Some l) s [] = Block (fell_asleep i chan l s)"
    using sw by (simp add: sleep_head [OF assms] sched_blocks)
  assume r: "on_cpu i r"
  let ?r = "switched (fell_asleep i chan l s) r"
  let ?r1 = "up_proc i (\<lambda>p. p\<lparr>p_chan := None\<rparr>) ?r"
  have ok: "cpu_ok ?r1" "0 < ncli ?r1" "holds LPtable ?r1" "cpu_ok ?r"
    using r on_cpu_self [OF r] by (auto simp: on_cpu_def)
  show "sleep chan (Some l) s (r # rs) = Ret () (woke_up i l ?r) rs" if "l = LPtable"
    unfolding sleep_head [OF assms] using that sw on_cpu_self [OF r] by (simp add: sched_run woke_up_def)
  show "sleep chan (Some l) s (r # rs) = Ret () (woke_up i l ?r) rs"
    if "l \<noteq> LPtable" "lk_locked (m_locks r l) = 0"
    using that sw on_cpu_self [OF r] ok
    by (simp add: sleep_head [OF assms] sched_run woke_up_def release_run acquire_run Let_def)
qed

text \<open>
  The same call while another CPU has the table lock: it waits inside \<^verbatim>\<open>acquire(&ptable.lock)\<close>, and
  goes on from a state \<open>s\<close> in which the table lock is free. The CPU is nested once more while it waits.
\<close>

definition must_wait :: "nat \<Rightarrow> lockid \<Rightarrow> 'a pstate_scheme \<Rightarrow> bool" where
  "must_wait i l s \<longleftrightarrow> in_proc i s \<and> ncli s = 1 \<and> holds l s \<and>
     lk_locked (m_locks s LPtable) \<noteq> 0 \<and> \<not> holds LPtable s"

lemma waiting_table [simp]:
  "pt_proc (up_lock l f s) = pt_proc s" "pt_inv (up_lock l f s) = pt_inv s" "pt_proc (pushed s) = pt_proc s"
  by (simp_all add: pt_inv_def up_lock_def pushed_def up_cpu_def)

lemma sleep_waits:
  assumes "must_wait i l c" and "l \<noteq> LPtable"
  shows "sleep chan (Some l) c [] = Block (up_lock LPtable (\<lambda>k. k\<lparr>lk_locked := 1\<rparr>) (pushed c))"
    and "can_sleep i l s \<Longrightarrow> sleep chan (Some l) c (pushed s # rs) = sleep chan (Some l) s rs"
proof -
  let ?rest = "kseq (release l) (kseq (kmod (up_proc i (\<lambda>p. p\<lparr>p_chan := chan\<rparr>))) (
     kseq (kmod (up_proc i (\<lambda>p. p\<lparr>p_state := SLEEPING\<rparr>))) (
     kseq sched (kseq (kmod (up_proc i (\<lambda>p. p\<lparr>p_chan := None\<rparr>))) (kseq (release LPtable) (acquire l))))))"
  have head: "sleep chan (Some l) t qs = kseq (acquire LPtable) ?rest t qs"
    if "in_proc i t" "ncli t = 1" for t :: "'a pstate_scheme" and qs
    using that in_procD [OF that(1)] assms(2)
    by (simp add: sleep_def myproc_nested kptr_run kseq_def kbind_def split: outcome.split)
  have c: "in_proc i c" "ncli c = 1" "cpu_ok c" "lk_locked (m_locks c LPtable) \<noteq> 0" "\<not> holds LPtable c"
    using assms(1) in_procD(1) by (auto simp: must_wait_def)
  note wait = acquire_waits [OF c(3-5)]
  show "sleep chan (Some l) c [] = Block (up_lock LPtable (\<lambda>k. k\<lparr>lk_locked := 1\<rparr>) (pushed c))"
    by (simp add: head [OF c(1,2)] wait(1))
  assume "can_sleep i l s"
  then have s: "in_proc i s" "ncli s = 1" "cpu_ok s" "lk_locked (m_locks s LPtable) = 0"
    using assms(2) in_procD(1) by (auto simp: can_sleep_def)
  show "sleep chan (Some l) c (pushed s # rs) = sleep chan (Some l) s rs"
    unfolding head [OF c(1,2)] head [OF s(1,2)] kseq_def kbind_def wait(2) [OF s(3,4)] ..
qed

lemma slot_step_woken: "proc_ok n p \<Longrightarrow> slot_step n n p (woken chan p)"
  by (auto simp: slot_step_def woken_def proc_ok_def)

text \<open>Updating every slot in one go.\<close>

lemma pt_inv_map:
  assumes "pt_inv s" and "\<And>p. proc_ok (pt_nextpid s) p \<Longrightarrow> slot_step (pt_nextpid s) (pt_nextpid s) p (f p) \<and> p_pid (f p) = p_pid p"
  shows "pt_inv (s\<lparr>pt_proc := map f (pt_proc s)\<rparr>)"
proof -
  have t: "length (pt_proc s) = NPROC" "\<And>p. p \<in> set (pt_proc s) \<Longrightarrow> proc_ok (pt_nextpid s) p"
    using assms(1) by (auto simp: pt_inv_def table_ok_def list_all_iff)
  have st: "p_state (f p) = RUNNABLE \<and> p_vdeadline (f p) = p_vdeadline p \<and> p_pid (f p) = p_pid p"
    if "p \<in> set (pt_proc s)" "p_state p = RUNNABLE" for p
    using assms(2) [OF t(2) [OF that(1)]] that(2) by (auto simp: slot_step_def)
  have "ready (pt_proc s) \<subseteq> ready (map f (pt_proc s))"
    using st unfolding ready_def by (smt (verit) Collect_mono_iff image_eqI list.set_map)
  moreover have "table_ok (map f (pt_proc s)) (pt_nextpid s)"
    using assms t by (auto simp: pt_inv_def table_ok_def list_all_iff slot_step_def)
  ultimately show ?thesis using assms(1) by (auto simp: pt_inv_def queue_ok_def)
qed

definition wakened :: "channel option \<Rightarrow> 'a pstate_scheme \<Rightarrow> 'a pstate_scheme" where
  "wakened chan s = (let t = acquired LPtable s in released LPtable (t\<lparr>pt_proc := map (woken chan) (pt_proc t)\<rparr>))"

lemma upd_pt_proc [simp]:
  "self (s\<lparr>pt_proc := x\<rparr>) = self s" "mine (s\<lparr>pt_proc := x\<rparr>) = mine s" "ncli (s\<lparr>pt_proc := x\<rparr>) = ncli s"
  "cpu_ok (s\<lparr>pt_proc := x\<rparr>) = cpu_ok s" "holds l (s\<lparr>pt_proc := x\<rparr>) = holds l s" "cur (s\<lparr>pt_proc := x\<rparr>) = cur s"
  by (simp_all add: self_def mine_def ncli_def cpu_ok_def holds_def cur_def)

lemma wakeup_run:
  assumes "cpu_ok s" and "lk_locked (m_locks s LPtable) = 0"
  shows "wakeup chan s rs = Ret () (wakened chan s) rs"
  using assms by (auto simp: wakeup_def wakeup1_def acquire_run release_run wakened_def Let_def cpu_ok_def)

lemma wakened_keeps:
  assumes "cpu_ok s" and "lk_locked (m_locks s LPtable) = 0"
  shows "same_locks s (wakened chan s)" and "pt_proc (wakened chan s) = map (woken chan) (pt_proc s)"
    and "pt_inv s \<Longrightarrow> pt_inv (wakened chan s)" and "m_mem (wakened chan s) = m_mem s"
proof -
  show "same_locks s (wakened chan s)"
    unfolding wakened_def Let_def by (rule same_locks_section) (use assms in auto)
  show "pt_proc (wakened chan s) = map (woken chan) (pt_proc s)" "m_mem (wakened chan s) = m_mem s"
    by (simp_all add: wakened_def Let_def)
  show "pt_inv (wakened chan s)" if "pt_inv s"
  proof -
    have "pt_inv (s\<lparr>pt_proc := map (woken chan) (pt_proc s)\<rparr>)"
      by (rule pt_inv_map [OF that]) (intro conjI slot_step_woken, simp_all add: woken_def)
    then show ?thesis by (simp add: wakened_def Let_def pt_inv_def)
  qed
qed

subsection \<open>kill\<close>

definition killed_proc :: "proc \<Rightarrow> proc" where
  "killed_proc p = p\<lparr>p_killed := 1, p_state := (if p_state p = SLEEPING then RUNNABLE else p_state p)\<rparr>"

lemma kill_run:
  assumes "cpu_ok s" and "lk_locked (m_locks s LPtable) = 0"
  shows "List.find (\<lambda>i. p_pid (proc_at s i) = pid) [0..<NPROC] = None \<Longrightarrow>
      kill pid s rs = Ret (-1) (released LPtable (acquired LPtable s)) rs"
    and "List.find (\<lambda>i. p_pid (proc_at s i) = pid) [0..<NPROC] = Some i \<Longrightarrow> length (pt_proc s) = NPROC \<Longrightarrow>
      kill pid s rs = Ret 0 (released LPtable (up_proc i killed_proc (acquired LPtable s))) rs"
proof -
  have s: "cpu_ok s" "self s \<noteq> None" "0 \<le> ncli s" using assms by (auto simp: cpu_ok_def)
  show "kill pid s rs = Ret (-1) (released LPtable (acquired LPtable s)) rs"
    if "List.find (\<lambda>i. p_pid (proc_at s i) = pid) [0..<NPROC] = None"
    using that s assms by (simp add: kill_def acquire_run release_run)
  assume i: "List.find (\<lambda>i. p_pid (proc_at s i) = pid) [0..<NPROC] = Some i" and "length (pt_proc s) = NPROC"
  then have lt: "i < length (pt_proc s)" by (auto simp: find_Some_iff)
  have k: "killed_proc = (\<lambda>p. p\<lparr>p_killed := 1, p_state := (if p_state p = SLEEPING then RUNNABLE else p_state p)\<rparr>)"
    by (simp add: fun_eq_iff killed_proc_def)
  have "up_proc i killed_proc (acquired LPtable s) =
      (if p_state (proc_at s i) = SLEEPING then up_proc i (\<lambda>p. p\<lparr>p_state := RUNNABLE\<rparr>) else (\<lambda>s. s))
        (up_proc i (\<lambda>p. p\<lparr>p_killed := 1\<rparr>) (acquired LPtable s))"
    using lt by (auto simp: up_proc_def k)
  then show "kill pid s rs = Ret 0 (released LPtable (up_proc i killed_proc (acquired LPtable s))) rs"
    using i lt s assms
    by (cases "p_state (proc_at s i) = SLEEPING") (simp_all add: kill_def acquire_run release_run)
qed

lemma slot_step_killed: "proc_ok n p \<Longrightarrow> slot_step n n p (killed_proc p)"
  by (auto simp: slot_step_def proc_ok_def killed_proc_def)

subsection \<open>allocproc\<close>

text \<open>The slot taken, under the table lock.\<close>

definition claimed :: "nat \<Rightarrow> 'a pstate_scheme \<Rightarrow> 'a pstate_scheme" where
  "claimed i s = released LPtable ((up_proc i (\<lambda>p. p\<lparr>p_state := EMBRYO, p_pid := pt_nextpid s\<rparr>)
     (acquired LPtable s))\<lparr>pt_nextpid := pt_nextpid s + 1\<rparr>)"

text \<open>The new kernel stack: a trap frame to be filled in, the return address, a context.\<close>

definition new_stack :: "addr \<Rightarrow> 32 word \<Rightarrow> 32 word \<Rightarrow> mem \<Rightarrow> mem" where
  "new_stack k tr fr m = store32 (k + 4012) fr (memset (k + 3996) 0 20 (store32 (k + 4016) tr m))"

definition new_proc :: "addr \<Rightarrow> 32 word \<Rightarrow> proc \<Rightarrow> proc" where
  "new_proc k t p = p\<lparr>p_kstack := k, p_tf := k + 4020, p_context := k + 3996, p_niceness := 0,
     p_vdeadline := deadline t 0\<rparr>"

definition born :: "nat \<Rightarrow> 'a pstate_scheme \<Rightarrow> 'a pstate_scheme" where
  "born i s = (let s1 = claimed i s; k = km_freelist s in
     up_proc i (new_proc k (pt_ticks s))
       ((kalloced s1)\<lparr>m_mem := new_stack k (pt_trapret s) (pt_forkret s) (m_mem s)\<rparr>))"

definition unborn :: "nat \<Rightarrow> 'a pstate_scheme \<Rightarrow> 'a pstate_scheme" where
  "unborn i s = up_proc i (\<lambda>p. p\<lparr>p_kstack := 0, p_state := UNUSED\<rparr>) (kalloced (claimed i s))"

lemma upd_nextpid [simp]:
  "self (s\<lparr>pt_nextpid := x\<rparr>) = self s" "mine (s\<lparr>pt_nextpid := x\<rparr>) = mine s" "ncli (s\<lparr>pt_nextpid := x\<rparr>) = ncli s"
  "cpu_ok (s\<lparr>pt_nextpid := x\<rparr>) = cpu_ok s" "holds l (s\<lparr>pt_nextpid := x\<rparr>) = holds l s"
  "cur (s\<lparr>pt_nextpid := x\<rparr>) = cur s"
  by (simp_all add: self_def mine_def ncli_def cpu_ok_def holds_def cur_def)

lemma km_up_proc [simp]:
  "km_use_lock (up_proc i f s) = km_use_lock s" "km_freelist (up_proc i f s) = km_freelist s"
  "km_end (up_proc i f s) = km_end s" "km_data (up_proc i f s) = km_data s"
  by (simp_all add: up_proc_def)

lemma kload_run: "p \<noteq> 0 \<Longrightarrow> kload p s rs = Ret (load32 (m_mem s) p) s rs"
  by (simp add: kload_def)

lemma kstore_run: "p \<noteq> 0 \<Longrightarrow> kstore p w s rs = Ret () (s\<lparr>m_mem := store32 p w (m_mem s)\<rparr>) rs"
  by (simp add: kstore_def)

lemma kmemset_run: "p \<noteq> 0 \<Longrightarrow> kmemset p c n s rs = Ret () (s\<lparr>m_mem := memset p c n (m_mem s)\<rparr>) rs"
  by (simp add: kmemset_def)

lemma up_proc_mem: "(up_proc i f s)\<lparr>m_mem := m\<rparr> = up_proc i f (s\<lparr>m_mem := m\<rparr>)"
  by (simp add: up_proc_def)

lemma claimed_fields [simp]:
  "m_mem (claimed i s) = m_mem s" "km_freelist (claimed i s) = km_freelist s"
  "km_use_lock (claimed i s) = km_use_lock s" "km_end (claimed i s) = km_end s"
  "pt_ticks (claimed i s) = pt_ticks s" "pt_bfs (claimed i s) = pt_bfs s"
  "pt_trapret (claimed i s) = pt_trapret s" "pt_forkret (claimed i s) = pt_forkret s"
  "pt_proc (claimed i s) = (pt_proc s)[i := (proc_at s i)\<lparr>p_state := EMBRYO, p_pid := pt_nextpid s\<rparr>]"
  "pt_nextpid (claimed i s) = pt_nextpid s + 1" "pt_initproc (claimed i s) = pt_initproc s"
  by (simp_all add: claimed_def)

lemma more_kalloced [simp]: "vmstate.more (kalloced s) = vmstate.more s"
  by (simp add: kalloced_def Let_def)

lemma more_kfreed [simp]: "vmstate.more (kfreed v s) = vmstate.more s"
  by (simp add: kfreed_def Let_def)

lemmas pt_kalloced [simp] = more_fields [OF more_kalloced]
lemmas pt_kfreed [simp] = more_fields [OF more_kfreed]

lemma same_locks_claimed:
  "cpu_ok s \<Longrightarrow> lk_locked (m_locks s LPtable) = 0 \<Longrightarrow> same_locks s (claimed i s)"
  unfolding claimed_def by (rule same_locks_section) auto

lemma allocproc_none:
  assumes "cpu_ok s" and "lk_locked (m_locks s LPtable) = 0"
    and "List.find (\<lambda>i. p_state (proc_at s i) = UNUSED) [0..<NPROC] = None"
  shows "allocproc s rs = Ret None (released LPtable (acquired LPtable s)) rs"
  using assms by (auto simp: allocproc_def acquire_run release_run cpu_ok_def)

lemma allocproc_run:
  assumes "kmem_free s" and "lk_locked (m_locks s LPtable) = 0"
    and i: "List.find (\<lambda>i. p_state (proc_at s i) = UNUSED) [0..<NPROC] = Some i"
    and "length (pt_proc s) = NPROC" and n: "pt_nextpid s \<noteq> 2 ^ 31 - 1"
  shows "km_freelist s = 0 \<Longrightarrow> allocproc s rs = Ret None (unborn i s) rs"
    and "page_ok s (km_freelist s) \<Longrightarrow> allocproc s rs = Ret (Some i) (born i s) rs"
proof -
  have s: "cpu_ok s" "self s \<noteq> None" "0 \<le> ncli s" using assms(1) by (auto simp: kmem_free_def cpu_ok_def)
  have lt: "i < length (pt_proc s)" using i assms(4) by (auto simp: find_Some_iff)
  have same: "same_locks s (claimed i s)" using s assms by (intro same_locks_claimed) auto
  then have free: "kmem_free (claimed i s)"
    using assms(1) same_locks_ok [OF same] by (auto simp: kmem_free_def same_locks_def)
  have claim: "kseq (kmod (up_proc i (\<lambda>p. p\<lparr>p_state := EMBRYO\<rparr>))) (
       kseq (kbind take_pid (\<lambda>pid. kmod (up_proc i (\<lambda>p. p\<lparr>p_pid := pid\<rparr>)))) (
       kseq (release LPtable) m)) (acquired LPtable s) rs = m (claimed i s) rs" for m :: "(nat option, 'a pstate_scheme) kern"
  proof -
    have "up_proc i (\<lambda>p. p\<lparr>p_pid := pt_nextpid s\<rparr>) ((up_proc i (\<lambda>p. p\<lparr>p_state := EMBRYO\<rparr>) (acquired LPtable s))
          \<lparr>pt_nextpid := pt_nextpid s + 1\<rparr>)
        = (up_proc i (\<lambda>p. p\<lparr>p_state := EMBRYO, p_pid := pt_nextpid s\<rparr>) (acquired LPtable s))
          \<lparr>pt_nextpid := pt_nextpid s + 1\<rparr>"
      using lt by (simp add: up_proc_def)
    then show ?thesis
      using s n by (simp add: take_pid_def release_run claimed_def)
  qed
  note head = allocproc_def acquire_run claim kalloc_run [OF free]
  show "allocproc s rs = Ret None (unborn i s) rs" if "km_freelist s = 0"
    using s assms i lt that by (simp add: head unborn_def up_proc_twice)
  assume p: "page_ok s (km_freelist s)"
  let ?k = "km_freelist s"
  have "unat ?k + 4096 \<le> 2 ^ 32" "KERNBASE \<le> ?k" using p page_top(2) by (auto simp: page_ok_def)
  then have nz: "?k \<noteq> 0" "?k + 4016 \<noteq> 0" "?k + 3996 \<noteq> 0" "?k + 4012 \<noteq> 0"
    by (auto simp: word_unat_eq_iff unat_word_ariths KERNBASE_def word_le_nat_alt)
  define a b c d where abcd: "a = ?k + KSTACKSIZE - sizeof_trapframe" "b = a - 4" "c = b - sizeof_context"
    "d = c + ctx_eip"
  have addrs: "a = ?k + 4020" "b = ?k + 4016" "c = ?k + 3996" "d = ?k + 4012"
    by (simp_all add: abcd KSTACKSIZE_def sizeof_trapframe_def sizeof_context_def ctx_eip_def)
  have "allocproc s rs = Ret (Some i)
     (up_proc i (\<lambda>p. p\<lparr>p_kstack := ?k, p_tf := a, p_context := c, p_niceness := 0,
       p_vdeadline := deadline (pt_ticks s) 0\<rparr>)
       ((kalloced (claimed i s))\<lparr>m_mem := store32 d (pt_forkret s) (memset c 0 sizeof_context
         (store32 b (pt_trapret s) (m_mem s)))\<rparr>)) rs"
    using s assms i lt nz [folded addrs]
    by (simp add: head Let_def kstore_run kmemset_run abcd [symmetric] up_proc_mem up_proc_twice)
  then have "allocproc s rs = Ret (Some i)
     (up_proc i (\<lambda>p. p\<lparr>p_kstack := ?k, p_tf := ?k + 4020, p_context := ?k + 3996, p_niceness := 0,
       p_vdeadline := deadline (pt_ticks s) 0\<rparr>)
       ((kalloced (claimed i s))\<lparr>m_mem := new_stack ?k (pt_trapret s) (pt_forkret s) (m_mem s)\<rparr>)) rs"
    unfolding addrs new_stack_def sizeof_context_def .
  moreover have "new_proc ?k (pt_ticks s) = (\<lambda>p. p\<lparr>p_kstack := ?k, p_tf := ?k + 4020,
      p_context := ?k + 3996, p_niceness := 0, p_vdeadline := deadline (pt_ticks s) 0\<rparr>)"
    by (simp add: fun_eq_iff new_proc_def)
  ultimately show "allocproc s rs = Ret (Some i) (born i s) rs" by (simp add: born_def Let_def)
qed

lemma find_UNUSED:
  assumes "List.find (\<lambda>i. p_state (proc_at s i) = UNUSED) [0..<NPROC] = Some i"
  shows "i < NPROC" and "p_state (proc_at s i) = UNUSED"
  using assms by (auto simp: find_Some_iff)

lemma born_fields:
  assumes "length (pt_proc s) = NPROC" and "i < NPROC"
  shows "pt_proc (born i s) = (pt_proc s)[i := new_proc (km_freelist s) (pt_ticks s)
      ((proc_at s i)\<lparr>p_state := EMBRYO, p_pid := pt_nextpid s\<rparr>)]"
    and "pt_nextpid (born i s) = pt_nextpid s + 1" and "pt_bfs (born i s) = pt_bfs s"
    and "m_mem (born i s) = new_stack (km_freelist s) (pt_trapret s) (pt_forkret s) (m_mem s)"
    and "km_freelist (born i s) = km_freelist (kalloced s)" and "km_end (born i s) = km_end s"
    and "km_use_lock (born i s) = km_use_lock s"
  using assms by (simp_all add: born_def Let_def)

lemma pt_inv_born:
  assumes "pt_inv s" and "i < NPROC" and "p_state (proc_at s i) = UNUSED"
  shows "pt_inv (born i s)" and "pt_inv (unborn i s)"
proof -
  have len: "length (pt_proc s) = NPROC" and n: "0 < pt_nextpid s"
    using assms(1) by (auto simp: pt_inv_def table_ok_def)
  note B = born_fields [OF len assms(2)]
  show "pt_inv (born i s)"
    by (rule pt_inv_update [OF assms(1,2) _ _ B(1,2,3)])
      (use assms(3) n in \<open>auto simp: slot_step_def new_proc_def proc_ok_def\<close>)
  have U: "pt_proc (unborn i s) = (pt_proc s)[i := (proc_at s i)\<lparr>p_pid := pt_nextpid s, p_kstack := 0, p_state := UNUSED\<rparr>]"
    using len assms(2) by (simp add: unborn_def)
  show "pt_inv (unborn i s)"
    by (rule pt_inv_update [OF assms(1,2) _ _ U, where n = "pt_nextpid s + 1"])
      (use assms(3) n in \<open>auto simp: slot_step_def proc_ok_def unborn_def\<close>)
qed

lemma same_locks_born:
  assumes "kmem_free s" and "lk_locked (m_locks s LPtable) = 0"
  shows "same_locks s (born i s)"
proof -
  have 1: "same_locks s (claimed i s)" using assms by (intro same_locks_claimed) (auto simp: kmem_free_def)
  then have "kmem_free (claimed i s)"
    using assms(1) same_locks_ok [OF 1] by (auto simp: kmem_free_def same_locks_def)
  then have "same_locks s (kalloced (claimed i s))"
    using same_locks_kmem(2) same_locks_trans [OF 1] by blast
  then show ?thesis by (simp add: born_def Let_def same_locks_def)
qed

lemma new_stack_words:
  assumes "k mod PGSIZE = 0"
  shows "load32 (new_stack k tr fr m) (k + 4016) = tr" and "load32 (new_stack k tr fr m) (k + 4012) = fr"
    and "load32 (new_stack k tr fr m) (k + 4008) = 0"
    and "\<not> in_page k a \<Longrightarrow> new_stack k tr fr m a = m a"
proof -
  have top: "unat k + 4096 \<le> 2 ^ 32" by (rule page_top(2) [OF assms])
  have at: "unat (k + 3996) = unat k + 3996" using top by (simp add: unat_word_ariths)
  have set: "memset (k + 3996) 0 20 m' a
      = (if unat k + 3996 \<le> unat a \<and> unat a < unat k + 4016 then 0 else m' a)" for m' a
    using top by (simp add: memset_stosb stosb_spec at)
  have off: "unat (k + of_nat j) = unat k + j" if "j < 4096" for j
    using top that by (simp add: unat_word_ariths unat_of_nat)
  have ld: "load32 (memset (k + 3996) 0 20 m') (k + 4016) = load32 m' (k + 4016)"
      "load32 (memset (k + 3996) 0 20 m') (k + 4008) = 0" for m'
    using off [of 4016] off [of 4017] off [of 4018] off [of 4019]
      off [of 4008] off [of 4009] off [of 4010] off [of 4011] by (simp_all add: load32_def set add.assoc)
  show "load32 (new_stack k tr fr m) (k + 4016) = tr"
    unfolding new_stack_def by (subst load_store_other) (simp_all add: ld)
  show "load32 (new_stack k tr fr m) (k + 4012) = fr" by (simp add: new_stack_def)
  show "load32 (new_stack k tr fr m) (k + 4008) = 0"
    unfolding new_stack_def by (subst load_store_other) (simp_all add: ld)
  show "new_stack k tr fr m a = m a" if "\<not> in_page k a"
  proof -
    have "a \<noteq> k + of_nat j" if "j < 4096" for j
      using off [OF that] that \<open>\<not> in_page k a\<close> by (auto simp: in_page_def)
    from this [of 4012] this [of 4013] this [of 4014] this [of 4015]
      this [of 4016] this [of 4017] this [of 4018] this [of 4019]
    show ?thesis using that by (auto simp: new_stack_def store32_apply set add.assoc in_page_def)
  qed
qed

section \<open>A small system\<close>

text \<open>
  For the concrete instances below: process 1 runs, process 2 is runnable, process 3 sleeps on the
  clock; the other slots are as the loader leaves them.
\<close>

lemma kmem_inv_born:
  assumes "length (pt_proc s) = NPROC" and "i < NPROC" and inv: "kmem_inv s (k # ps)"
  shows "kmem_inv (born i s) ps"
proof -
  have k: "km_freelist s = k" "k mod PGSIZE = 0" "k \<notin> set ps"
    using inv by (auto simp: kmem_inv_def page_ok_def)
  note B = born_fields [OF assms(1,2)]
  have "load32 (m_mem (born i s)) q = load32 (m_mem s) q" if "q \<in> set ps" for q
  proof (rule load32_page)
    show q: "q mod PGSIZE = 0" using inv that by (auto simp: kmem_inv_def list_all_iff page_ok_def)
    show "m_mem (born i s) a = m_mem s a" if "in_page q a" for a
      using pages_apart [OF q k(2)] that k \<open>q \<in> set ps\<close> new_stack_words(4) [OF k(2)] B(4) by metis
  qed
  then have "free_list (m_mem (born i s)) (load32 (m_mem s) k) ps"
    using inv free_list_cong [of ps "m_mem (born i s)" "m_mem s"] by (simp add: kmem_inv_def)
  then show ?thesis
    using inv k(1) page_ok_cong [of "born i s" s] B by (auto simp: kmem_inv_def)
qed

definition zero_proc :: proc where
  "zero_proc = \<lparr>p_sz = 0, p_pgdir = 0, p_kstack = 0, p_state = UNUSED, p_pid = 0, p_parent = None, p_tf = 0,
     p_context = 0, p_chan = None, p_killed = 0, p_ofile = replicate 16 None, p_cwd = None, p_name = [],
     p_niceness = 0, p_vdeadline = 0, p_ticks_left = 0, p_maxlevel = 0\<rparr>"

definition sample_proc :: "int \<Rightarrow> procstate \<Rightarrow> int \<Rightarrow> proc" where
  "sample_proc pid st dl = zero_proc\<lparr>p_pid := pid, p_state := st, p_kstack := 0x80300000,
     p_pgdir := 0x80200000, p_vdeadline := dl\<rparr>"

definition sample_table :: "proc list" where
  "sample_table = (replicate NPROC zero_proc)[0 := sample_proc 1 RUNNING 1050,
     1 := sample_proc 2 RUNNABLE 1060, 2 := (sample_proc 3 SLEEPING 1070)\<lparr>p_chan := Some ChTicks\<rparr>]"

definition small :: pstate where
  "small = vmstate.extend (boot_vm\<lparr>m_cpus := [\<lparr>c_apicid = 0, c_ncli = 0, c_intena = 0, c_proc = Some 0\<rparr>]\<rparr>)
     \<lparr>pt_proc = sample_table, pt_initproc = Some 0, pt_nextpid = 4, pt_bfs = started_bfs, pt_ticks = 10,
      pt_schedlog_active = 0, pt_schedlog_lasttick = 0, pt_esp0 = (\<lambda>_. 0), pt_trapret = 0x80106000,
      pt_forkret = 0x80104000, pt_before = 7, pt_first = 1\<rparr>"

lemma table_ok_zero: "table_ok (replicate NPROC zero_proc) 4"
  by (simp add: table_ok_def list_all_iff proc_ok_def zero_proc_def)

lemma sample_table_nth:
  "length sample_table = 64" "i < 64 \<Longrightarrow> 3 \<le> i \<Longrightarrow> sample_table ! i = zero_proc"
  "sample_table ! 0 = sample_proc 1 RUNNING 1050" "sample_table ! 1 = sample_proc 2 RUNNABLE 1060"
  "sample_table ! 2 = (sample_proc 3 SLEEPING 1070)\<lparr>p_chan := Some ChTicks\<rparr>"
  by (simp_all add: sample_table_def NPROC_def)

lemma nat_below_3: "i = 0 \<or> i = 1 \<or> i = 2 \<or> 3 \<le> (i :: nat)"
  by auto

lemma sample_pid: "i < 64 \<Longrightarrow> p_pid (sample_table ! i) = (if i < 3 then int i + 1 else 0)"
  using nat_below_3 [of i] sample_table_nth by (auto simp: sample_proc_def zero_proc_def)

lemma sample_table_ok: "table_ok sample_table 4"
proof -
  have slots: "proc_ok 4 (sample_proc 1 RUNNING d)" "proc_ok 4 (sample_proc 2 RUNNABLE d)"
      "proc_ok 4 ((sample_proc 3 SLEEPING d)\<lparr>p_chan := c\<rparr>)" for d c
    by (simp_all add: proc_ok_def sample_proc_def KERNBASE_def zero_proc_def)
  have "proc_ok 4 (sample_table ! i)" if "i < 64" for i
    using nat_below_3 [of i] slots sample_table_nth that by (auto simp: proc_ok_def zero_proc_def)
  then show ?thesis
    using sample_pid sample_table_nth(1) by (auto simp: table_ok_def list_all_length NPROC_def split: if_splits)
qed

lemma small_fields:
  "pt_proc small = sample_table" "pt_nextpid small = 4" "pt_bfs small = started_bfs" "pt_ticks small = 10"
  "m_mem small = (\<lambda>_. 0)" "km_freelist small = 0x80201000" "km_end small = 0x80110000" "kmem_free small"
  "lk_locked (m_locks small l) = 0" "cpu_ok small" "cur small = Some 0" "ncli small = 0" "con_ok small"
  "pt_trapret small = 0x80106000" "pt_forkret small = 0x80104000" "pt_initproc small = Some 0"
  "m_if small" "self small = Some 0"
  by (simp_all add: small_def boot_vm_def boot_con_def boot_kmem_def one_cpu_def vmstate.defs constate.defs
      kstate.defs machine.defs kmem_free_def cpu_ok_def self_def ncli_def mine_def cur_def con_ok_def screen_ok_def)

lemma small_inv: "pt_inv small"
  using sample_table_ok started_inv by (simp add: pt_inv_def small_fields queue_ok_def)

lemma small_in_proc: "in_proc 0 small"
  using small_inv by (simp add: in_proc_def small_fields sample_table_def NPROC_def sample_proc_def)

section \<open>Properties\<close>

text \<open>C32: \<^verbatim>\<open>yield\<close> of a running process keeps the table invariant and switches away with the table lock held
  and the process runnable; its deadline is recomputed exactly when the quantum is used up, and no
  other process is touched. Once back on a CPU it returns with the lock free.\<close>

theorem yield_requeues:
  assumes "in_proc i s" and "ncli s = 0" and "lk_locked (m_locks s LPtable) = 0" and "on_cpu i r"
  shows "(\<exists>t. yield s [] = Block t \<and> pt_inv t \<and> holds LPtable t \<and> ncli t = 1 \<and>
      p_state (proc_at t i) = RUNNABLE \<and>
      p_vdeadline (proc_at t i) = (if p_ticks_left (proc_at s i) \<le> 0
        then deadline (pt_ticks s) (p_niceness (proc_at s i)) else p_vdeadline (proc_at s i)) \<and>
      (\<forall>j. j \<noteq> i \<longrightarrow> proc_at t j = proc_at s j)) \<and>
    (\<exists>s'. yield s (r # rs) = Ret () s' rs \<and> ncli s' = 0 \<and> lk_locked (m_locks s' LPtable) = 0 \<and>
      pt_proc s' = pt_proc r)"
proof -
  let ?t = "left_cpu i s"
  have sw: "may_switch i ?t" "pt_inv ?t" using left_cpu_switch [OF assms(1,2)] by auto
  have "i < length (pt_proc s)" by (rule in_procD(4) [OF assms(1)])
  then have "p_state (proc_at ?t i) = RUNNABLE"
      "p_vdeadline (proc_at ?t i) = (if p_ticks_left (proc_at s i) \<le> 0
        then deadline (pt_ticks s) (p_niceness (proc_at s i)) else p_vdeadline (proc_at s i))"
      "\<forall>j. j \<noteq> i \<longrightarrow> proc_at ?t j = proc_at s j"
    by (simp_all add: left_cpu_def requeued_def)
  then show ?thesis
    using yield_run(1) [OF assms(1-3)] sw yield_run(2) [OF assms, of rs] assms(4) on_cpu_self [OF assms(4)]
    by (auto simp: may_switch_def on_cpu_def)
qed

definition small_back :: pstate where
  "small_back = acquired LPtable small"

lemma small_back_on: "on_cpu 0 small_back"
  using small_inv small_in_proc by (simp add: small_back_def on_cpu_def small_fields in_proc_def)

theorem yield_requeues_witness:
  "(\<exists>t. yield small [] = Block t \<and> p_state (proc_at t 0) = RUNNABLE \<and> p_vdeadline (proc_at t 0) = 1060) \<and>
   (\<exists>s'. yield small [small_back] = Ret () s' [])"
proof -
  have "p_ticks_left (proc_at small 0) = 0" "p_niceness (proc_at small 0) = 0"
    by (simp_all add: small_fields sample_table_def sample_proc_def zero_proc_def NPROC_def)
  moreover have "deadline 10 0 = 1060" by (simp add: deadline_def BFS_DEFAULT_QUANTUM_def)
  ultimately show ?thesis
    using yield_requeues [OF small_in_proc small_fields(12,9) small_back_on, of "[]"]
    by (auto simp: small_fields(4))
qed

text \<open>C5: \<^verbatim>\<open>sleep\<close> cannot miss a wakeup. Others can run at two points of it. If another CPU has the
  table lock, \<^verbatim>\<open>sleep\<close> waits with the caller's lock still held and the table untouched, and then goes
  on from the state in which it gets the table lock. And the state it hands over at the switch has
  the process sleeping on the channel, the caller's lock free and the table lock still held. So a
  waker that takes the caller's lock can only look at the table when the process sleeps, and its
  \<^verbatim>\<open>wakeup\<close> makes the process runnable. Once the process is on a CPU again, \<^verbatim>\<open>sleep\<close> returns with
  exactly the caller's lock held and the channel cleared.\<close>

theorem sleep_misses_no_wakeup:
  assumes "can_sleep i l s" and "l \<noteq> LPtable" and "on_cpu i r" and "lk_locked (m_locks r l) = 0"
  shows "(\<exists>t. sleep (Some ch) (Some l) s [] = Block t \<and> pt_inv t \<and> holds LPtable t \<and> ncli t = 1 \<and>
      lk_locked (m_locks t l) = 0 \<and> p_state (proc_at t i) = SLEEPING \<and>
      (\<forall>w. cpu_ok w \<longrightarrow> lk_locked (m_locks w LPtable) = 0 \<longrightarrow> pt_proc w = pt_proc t \<longrightarrow>
        (\<exists>w'. wakeup (Some ch) w ws = Ret () w' ws \<and> p_state (proc_at w' i) = RUNNABLE))) \<and>
    (\<exists>s'. sleep (Some ch) (Some l) s (r # rs) = Ret () s' rs \<and> holds l s' \<and> ncli s' = 1 \<and>
      \<not> holds LPtable s' \<and> p_chan (proc_at s' i) = None) \<and>
    (\<forall>c. must_wait i l c \<longrightarrow>
      (\<exists>t. sleep (Some ch) (Some l) c [] = Block t \<and> holds l t \<and> \<not> holds LPtable t \<and>
        pt_proc t = pt_proc c) \<and>
      sleep (Some ch) (Some l) c (pushed s # rs) = sleep (Some ch) (Some l) s rs)"
proof -
  let ?t = "fell_asleep i (Some ch) l s" and ?s = "woke_up i l (switched (fell_asleep i (Some ch) l s) r)"
  have len: "i < length (pt_proc s)" "i < length (pt_proc r)"
    using assms(1,3) in_procD(4) pt_inv_length [of r] by (auto simp: can_sleep_def on_cpu_def)
  have sw: "may_switch i ?t" "pt_inv ?t" using fell_asleep_switch [OF assms(1)] by auto
  have free: "lk_locked (m_locks ?t l) = 0" using assms(2) by (simp add: fell_asleep_def)
  have st: "p_state (proc_at ?t i) = SLEEPING" "p_chan (proc_at ?t i) = Some ch" "length (pt_proc ?t) = length (pt_proc s)"
    using len by (auto simp: fell_asleep_def asleep_def)
  have wake: "\<exists>w'. wakeup (Some ch) w ws = Ret () w' ws \<and> p_state (proc_at w' i) = RUNNABLE"
    if "cpu_ok w" "lk_locked (m_locks w LPtable) = 0" "pt_proc w = pt_proc ?t" for w
    using wakeup_run [OF that(1,2)] wakened_keeps(2) [OF that(1,2)] that(3) st len(1) by (auto simp: woken_def)
  have "holds l ?s \<and> ncli ?s = 1 \<and> \<not> holds LPtable ?s \<and> p_chan (proc_at ?s i) = None"
    using assms(2,3) on_cpu_self [OF assms(3)] len(2) by (auto simp: woke_up_def Let_def on_cpu_def)
  moreover have "(\<exists>t. sleep (Some ch) (Some l) c [] = Block t \<and> holds l t \<and> \<not> holds LPtable t \<and>
        pt_proc t = pt_proc c) \<and> sleep (Some ch) (Some l) c (pushed s # rs) = sleep (Some ch) (Some l) s rs"
    if c: "must_wait i l c" for c
    using sleep_waits [OF c assms(2), where chan = "Some ch"] assms(1,2) c by (auto simp: must_wait_def holds_def)
  ultimately show ?thesis
    using sleep_run(1) [OF assms(1)] sleep_run(2) [OF assms(1,3,2,4)] sw free st wake
    by (simp add: may_switch_def)
qed

definition small_locked :: pstate where
  "small_locked = acquired LTicks small"

lemma small_can_sleep: "can_sleep 0 LTicks small_locked"
  using small_in_proc small_inv by (simp add: can_sleep_def small_locked_def small_fields in_proc_def)

definition small_contended :: pstate where
  "small_contended = up_lock LPtable (\<lambda>k. k\<lparr>lk_locked := 1, lk_cpu := Some 7\<rparr>) small_locked"

lemma small_must_wait: "must_wait 0 LTicks small_contended"
proof -
  have "mine small_locked = 0" by (simp add: small_locked_def mine_def small_fields)
  moreover have "in_proc 0 small_contended"
    using small_can_sleep by (simp add: small_contended_def can_sleep_def in_proc_def cpu_ok_def cur_def)
  ultimately show ?thesis
    using small_can_sleep by (simp add: must_wait_def can_sleep_def small_contended_def holds_def)
qed

theorem sleep_misses_no_wakeup_witness:
  "(\<exists>t. sleep (Some ChTicks) (Some LTicks) small_locked [] = Block t \<and> p_state (proc_at t 0) = SLEEPING) \<and>
   (\<exists>s'. sleep (Some ChTicks) (Some LTicks) small_locked [small_back] = Ret () s' [] \<and> holds LTicks s') \<and>
   (\<exists>t. sleep (Some ChTicks) (Some LTicks) small_contended [] = Block t \<and> holds LTicks t)"
proof -
  have "lk_locked (m_locks small_back LTicks) = 0" by (simp add: small_back_def small_fields)
  from sleep_misses_no_wakeup [OF small_can_sleep _ small_back_on this, of ChTicks "[]" "[]"]
  show ?thesis using small_must_wait by auto
qed

text \<open>C34: \<^verbatim>\<open>kill\<close> keeps the table invariant. It returns 0 exactly when some slot has the pid, in use or
  not; the first such slot gets \<^verbatim>\<open>killed\<close> set and becomes RUNNABLE if it was SLEEPING, every other field
  of it and every other slot stays as it was. Otherwise \<^verbatim>\<open>kill\<close> returns -1 and the table is as before.\<close>

theorem kill_marks:
  assumes "cpu_ok s" and "lk_locked (m_locks s LPtable) = 0" and "pt_inv s"
  shows "\<exists>v s'. kill pid s rs = Ret v s' rs \<and> pt_inv s' \<and> same_locks s s' \<and>
    (if \<exists>i<NPROC. p_pid (proc_at s i) = pid
     then v = 0 \<and> (\<exists>i<NPROC. p_pid (proc_at s i) = pid \<and> (\<forall>j<i. p_pid (proc_at s j) \<noteq> pid) \<and>
       proc_at s' i = (proc_at s i)\<lparr>p_killed := 1,
         p_state := (if p_state (proc_at s i) = SLEEPING then RUNNABLE else p_state (proc_at s i))\<rparr> \<and>
       (\<forall>j. j \<noteq> i \<longrightarrow> proc_at s' j = proc_at s j))
     else v = -1 \<and> pt_proc s' = pt_proc s)"
proof (cases "List.find (\<lambda>i. p_pid (proc_at s i) = pid) [0..<NPROC]")
  case None
  then have no: "\<not> (\<exists>i<NPROC. p_pid (proc_at s i) = pid)" by (auto simp: find_None_iff)
  have "same_locks s (released LPtable (acquired LPtable s))"
    by (rule same_locks_section) (use assms in auto)
  then show ?thesis using kill_run(1) [OF assms(1,2) None] assms(3) no by auto
next
  case (Some i)
  then have i: "i < NPROC" "p_pid (proc_at s i) = pid" "\<forall>j<i. p_pid (proc_at s j) \<noteq> pid"
    by (auto simp: find_upt)
  let ?s = "released LPtable (up_proc i killed_proc (acquired LPtable s))"
  have len: "length (pt_proc s) = NPROC" by (rule pt_inv_length [OF assms(3)])
  have "pt_inv (up_proc i killed_proc s)"
    by (rule pt_inv_up_proc [OF assms(3) i(1)]) (intro slot_step_killed pt_inv_proc assms(3) i(1))
  then have "pt_inv ?s" by (simp add: pt_inv_def)
  moreover have "same_locks s ?s" by (rule same_locks_section) (use assms in auto)
  moreover have "proc_at ?s i = killed_proc (proc_at s i)" "\<forall>j. j \<noteq> i \<longrightarrow> proc_at ?s j = proc_at s j"
    using len i by simp_all
  ultimately show ?thesis using kill_run(2) [OF assms(1,2) Some len] i unfolding killed_proc_def by auto
qed

theorem kill_marks_witness:
  "(\<exists>s'. kill 3 small [] = Ret 0 s' [] \<and> p_killed (proc_at s' 2) = 1 \<and> p_state (proc_at s' 2) = RUNNABLE) \<and>
   p_state (proc_at small 2) = SLEEPING \<and> (\<exists>s'. kill 9 small [] = Ret (-1) s' [])"
proof -
  have pid: "p_pid (proc_at small i) = (if i < 3 then int i + 1 else 0)" if "i < NPROC" for i
    using sample_pid that by (simp add: small_fields NPROC_def)
  have two: "p_state (proc_at small 2) = SLEEPING"
    by (simp add: small_fields sample_table_def sample_proc_def zero_proc_def NPROC_def)
  have some: "(\<exists>i<NPROC. p_pid (proc_at small i) = 3)" "\<not> (\<exists>i<NPROC. p_pid (proc_at small i) = 9)"
    using pid by (auto simp: NPROC_def intro!: exI [of _ 2] split: if_splits)
  have only: "i = 2" if "i < NPROC" "p_pid (proc_at small i) = 3" for i
    using pid [OF that(1)] that(2) by (simp split: if_splits)
  note nine = kill_marks [OF small_fields(10,9) small_inv, of 9 "[]", unfolded if_not_P [OF some(2)]]
  note three = kill_marks [OF small_fields(10,9) small_inv, of 3 "[]", unfolded if_P [OF some(1)]]
  obtain s' i where "kill 3 small [] = Ret 0 s' []" and i: "i < NPROC" "p_pid (proc_at small i) = 3"
      "proc_at s' i = (proc_at small i)\<lparr>p_killed := 1,
         p_state := (if p_state (proc_at small i) = SLEEPING then RUNNABLE else p_state (proc_at small i))\<rparr>"
    using three by blast
  then have "kill 3 small [] = Ret 0 s' [] \<and> p_killed (proc_at s' 2) = 1 \<and> p_state (proc_at s' 2) = RUNNABLE"
    using only [OF i(1,2)] two by simp
  then show ?thesis using nine two by blast
qed

text \<open>C33: \<^verbatim>\<open>allocproc\<close> gives out a free slot under a pid that no other slot has, with a page of its own as
  kernel stack whose context starts at \<^verbatim>\<open>forkret\<close> and returns to \<^verbatim>\<open>trapret\<close>, and a deadline one quantum
  ratio away; without a free slot or page it returns null. The table invariant holds in every case.\<close>

theorem allocproc_fresh:
  assumes "kmem_free s" and "lk_locked (m_locks s LPtable) = 0" and "pt_inv s" and "kmem_inv s ps"
    and "pt_nextpid s < 2 ^ 31 - 1"
  shows "\<exists>v s'. allocproc s rs = Ret v s' rs \<and> pt_inv s' \<and>
    (v = None \<longleftrightarrow> (\<forall>i<NPROC. p_state (proc_at s i) \<noteq> UNUSED) \<or> ps = []) \<and>
    (\<forall>i. v = Some i \<longrightarrow> i < NPROC \<and> p_state (proc_at s i) = UNUSED \<and> p_state (proc_at s' i) = EMBRYO \<and>
       (\<forall>j<NPROC. j \<noteq> i \<longrightarrow> proc_at s' j = proc_at s j \<and> p_pid (proc_at s' j) \<noteq> p_pid (proc_at s' i)) \<and>
       p_kstack (proc_at s' i) = hd ps \<and> kmem_inv s' (tl ps) \<and>
       load32 (m_mem s') (p_context (proc_at s' i) + ctx_eip) = pt_forkret s \<and>
       load32 (m_mem s') (p_context (proc_at s' i) + sizeof_context) = pt_trapret s \<and>
       p_vdeadline (proc_at s' i) = deadline (pt_ticks s) 0)"
proof -
  have ok: "cpu_ok s" using assms(1) by (simp add: kmem_free_def)
  have len: "length (pt_proc s) = NPROC" by (rule pt_inv_length [OF assms(3)])
  show ?thesis
  proof (cases "List.find (\<lambda>i. p_state (proc_at s i) = UNUSED) [0..<NPROC]")
    case None
    then have "\<forall>i<NPROC. p_state (proc_at s i) \<noteq> UNUSED" by (auto simp: find_None_iff)
    then show ?thesis using allocproc_none [OF ok assms(2) None] assms(3) by auto
  next
    case (Some i)
    note i = find_UNUSED [OF Some]
    note run = allocproc_run [OF assms(1,2) Some len]
    show ?thesis
    proof (cases ps)
      case Nil
      then have "km_freelist s = 0" using assms(4) by (simp add: kmem_inv_def)
      then show ?thesis using run(1) assms(5) pt_inv_born(2) [OF assms(3) i] Nil by auto
    next
      case (Cons k ps')
      then have k: "km_freelist s = k" "page_ok s k" "k mod PGSIZE = 0" "k \<notin> set ps'"
        using assms(4) by (auto simp: kmem_inv_def page_ok_def)
      note B = born_fields [OF len i(1)]
      have inv: "kmem_inv (born i s) ps'" using kmem_inv_born [OF len i(1)] assms(4) Cons by simp
      have pid: "p_pid (proc_at s j) < pt_nextpid s" if "j < NPROC" for j
        using pt_inv_proc [OF assms(3) that] by (simp add: proc_ok_def)
      have "proc_at (born i s) i = new_proc k (pt_ticks s) ((proc_at s i)\<lparr>p_state := EMBRYO, p_pid := pt_nextpid s\<rparr>)"
          "\<And>j. j \<noteq> i \<Longrightarrow> proc_at (born i s) j = proc_at s j"
        using B(1) i len k by simp_all
      moreover have "load32 (m_mem (born i s)) (k + 3996 + ctx_eip) = pt_forkret s"
          "load32 (m_mem (born i s)) (k + 3996 + sizeof_context) = pt_trapret s"
        using new_stack_words(1,2) [OF k(3)] B(4) k(1) by (simp_all add: ctx_eip_def sizeof_context_def add.commute)
      ultimately show ?thesis
        using run(2) k assms(5) pt_inv_born(1) [OF assms(3) i] i inv Cons pid
        by (auto simp: new_proc_def dest: less_imp_neq)
    qed
  qed
qed

lemma small_kmem: "kmem_inv small [0x80201000]"
  by (simp add: kmem_inv_def small_fields page_ok_def load32_def PGSIZE_def PHYSTOP_def KERNBASE_def)

theorem allocproc_fresh_witness:
  "\<exists>i s'. allocproc small [] = Ret (Some i) s' [] \<and> p_state (proc_at s' i) = EMBRYO \<and>
     p_vdeadline (proc_at s' i) = 1060"
proof -
  have "3 < NPROC \<and> p_state (proc_at small 3) = UNUSED"
    by (simp add: small_fields sample_table_def zero_proc_def NPROC_def)
  moreover have "deadline 10 0 = 1060" by (simp add: deadline_def BFS_DEFAULT_QUANTUM_def)
  moreover obtain v s' where "allocproc small [] = Ret v s' []"
      "(v = None \<longleftrightarrow> (\<forall>i<NPROC. p_state (proc_at small i) \<noteq> UNUSED) \<or> [0x80201000 :: 32 word] = [])"
      "\<And>i. v = Some i \<Longrightarrow> p_state (proc_at s' i) = EMBRYO \<and> p_vdeadline (proc_at s' i) = deadline (pt_ticks small) 0"
    using allocproc_fresh [OF small_fields(8,9) small_inv small_kmem, of "[]"] small_fields(2) by auto
  ultimately show ?thesis by (metis list.distinct(1) not_Some_eq small_fields(4))
qed

text \<open>C35: \<^verbatim>\<open>kill(0)\<close> succeeds although no process has pid 0: it finds the pid of a free slot and marks the
  slot. \<^verbatim>\<open>allocproc\<close> does not reset the mark, so the process that gets the slot next is born killed.\<close>

theorem kill_0_marks_a_free_slot:
  assumes "kmem_free s" and "lk_locked (m_locks s LPtable) = 0" and "pt_inv s" and "kmem_inv s (k # ps)"
    and "pt_nextpid s < 2 ^ 31 - 1"
    and "List.find (\<lambda>i. p_state (proc_at s i) = UNUSED) [0..<NPROC] = Some i" and "p_pid (proc_at s i) = 0"
  shows "\<exists>s1 s2. kill 0 s rs = Ret 0 s1 rs \<and> allocproc s1 rs = Ret (Some i) s2 rs \<and>
    p_pid (proc_at s2 i) = pt_nextpid s \<and> p_killed (proc_at s2 i) = 1"
proof -
  note i = find_UNUSED [OF assms(6)]
  have ok: "cpu_ok s" using assms(1) by (simp add: kmem_free_def)
  have len: "length (pt_proc s) = NPROC" by (rule pt_inv_length [OF assms(3)])
  have "p_state (proc_at s j) = UNUSED" if "j < NPROC" "p_pid (proc_at s j) = 0" for j
    using pt_inv_proc [OF assms(3) that(1)] that(2) by (auto simp: proc_ok_def)
  then have find0: "List.find (\<lambda>i. p_pid (proc_at s i) = 0) [0..<NPROC] = Some i"
    using assms(6,7) i by (auto simp: find_upt)
  let ?s = "released LPtable (up_proc i killed_proc (acquired LPtable s))"
  have same: "same_locks s ?s" by (rule same_locks_section) (use ok assms(2) in auto)
  have free: "kmem_free ?s" "lk_locked (m_locks ?s LPtable) = 0"
    using assms(1) same_locks_ok [OF same ok] by (auto simp: kmem_free_def)
  have st: "p_state (proc_at ?s j) = p_state (proc_at s j)" if "j < NPROC" for j
    using len i that by (cases "j = i") (auto simp: killed_proc_def)
  have find1: "List.find (\<lambda>i. p_state (proc_at ?s i) = UNUSED) [0..<NPROC] = Some i"
    using assms(6) st by (auto simp: find_upt)
  have k: "page_ok ?s (km_freelist ?s)"
    using assms(4) page_ok_cong [of ?s s] by (auto simp: kmem_inv_def)
  have len1: "length (pt_proc ?s) = NPROC" using len by simp
  have "allocproc ?s rs = Ret (Some i) (born i ?s) rs"
    by (rule allocproc_run(2) [OF free find1 len1 _ k]) (use assms(5) in simp)
  moreover have "p_pid (proc_at (born i ?s) i) = pt_nextpid s" "p_killed (proc_at (born i ?s) i) = 1"
    using born_fields(1) [OF len1 i(1)] len i by (simp_all add: new_proc_def killed_proc_def)
  ultimately show ?thesis using kill_run(2) [OF ok assms(2) find0 len] by auto
qed

lemma small_find: "List.find (\<lambda>i. p_state (proc_at small i) = UNUSED) [0..<NPROC] = Some 3"
proof -
  have "p_state (sample_table ! i) \<noteq> UNUSED" if "i < 3" for i
  proof -
    have "i = 0 \<or> i = 1 \<or> i = 2" using that by auto
    then show ?thesis by (auto simp: sample_table_def sample_proc_def NPROC_def)
  qed
  moreover have "p_state (sample_table ! 3) = UNUSED" by (simp add: sample_table_def zero_proc_def NPROC_def)
  ultimately show ?thesis by (auto simp: find_upt small_fields NPROC_def)
qed

theorem kill_0_marks_a_free_slot_witness:
  "\<exists>s1 s2. kill 0 small [] = Ret 0 s1 [] \<and> allocproc s1 [] = Ret (Some 3) s2 [] \<and>
    p_pid (proc_at s2 3) = 4 \<and> p_killed (proc_at s2 3) = 1"
proof -
  have "p_pid (proc_at small 3) = 0"
    by (simp add: small_fields sample_table_def zero_proc_def NPROC_def)
  from kill_0_marks_a_free_slot [OF small_fields(8,9) small_inv small_kmem _ small_find this, of "[]"]
  show ?thesis by (simp add: small_fields(2))
qed

end
