(* ===== verification/Scheduler.thy ===== *)
theory Scheduler
  imports Proc
begin

unbundle bit_operations_syntax

text \<open>
  The per-CPU scheduler of \<^verbatim>\<open>proc.c\<close>: the scan that brings the skip list up to date with the process
  table, the choice of the first entry, the log lines and the switch. The skip list is used through
  the contract \<open>ready_queue\<close>. It is shown that after the scan the list holds exactly the runnable
  processes, and that the process the scheduler switches to is runnable and has the earliest
  virtual deadline of all runnable ones.
\<close>

section \<open>Operations\<close>

text \<open>
  A call of one of the skip list functions, on the globals \<^verbatim>\<open>sl\<close> and \<^verbatim>\<open>seed\<close>; the lines it prints go to
  the console.
\<close>

primrec print_event :: "bfs_event \<Rightarrow> (unit, 'a pstate_scheme) kern" where
  "print_event (Inserted pid lev) =
     dbgprintf 1 (nl ''inserted|[%d]%d'') [AWord (word_of_int pid), AWord (word_of_int lev)]"
| "print_event (Removed pid lev) =
     dbgprintf 1 (nl ''removed|[%d]%d'') [AWord (word_of_int pid), AWord (word_of_int lev)]"

definition kbfs :: "(bfs \<Rightarrow> ('b \<times> bfs) option) \<Rightarrow> ('b, 'a pstate_scheme) kern" where
  "kbfs f = kget (\<lambda>s. kbind (kopt (f (pt_bfs s))) (\<lambda>(r, b).
     kseq (kmod (\<lambda>s. s\<lparr>pt_bfs := b\<rparr>)) (
     kseq (kfor (drop (length (bfs_out (pt_bfs s))) (bfs_out b)) print_event)
     (kret r))))"

text \<open>The two arms of the scan: enter a runnable process, take any other one out.\<close>

definition scan_enter :: "int \<Rightarrow> int \<Rightarrow> bfs \<Rightarrow> bfs option" where
  "scan_enter v pid b = do {
     r \<leftarrow> slSearch v pid (bfs_sl b);
     if r = None then do { (_, b) \<leftarrow> slInsert v pid CHANCE b; Some b } else Some b
   }"

definition scan_leave :: "int \<Rightarrow> int \<Rightarrow> bfs \<Rightarrow> bfs option" where
  "scan_leave v pid b = do {
     r \<leftarrow> slSearch v pid (bfs_sl b);
     if r \<noteq> None then do { (_, b) \<leftarrow> slDelete v pid b; Some b } else Some b
   }"

definition scan_slot :: "nat \<Rightarrow> (unit, 'a pstate_scheme) kern" where
  "scan_slot i = kget (\<lambda>s. let p = proc_at s i in
     if p_state p = UNUSED then kret ()
     else if p_state p = RUNNABLE
     then kbfs (\<lambda>b. map_option (Pair ()) (scan_enter (p_vdeadline p) (p_pid p) b))
     else kbfs (\<lambda>b. map_option (Pair ()) (scan_leave (p_vdeadline p) (p_pid p) b)))"

definition sched_scan :: "(unit, 'a pstate_scheme) kern" where
  "sched_scan = kfor [0..<NPROC] scan_slot"

primrec state_num :: "procstate \<Rightarrow> 32 word" where
  "state_num UNUSED = 0"
| "state_num EMBRYO = 1"
| "state_num SLEEPING = 2"
| "state_num RUNNABLE = 3"
| "state_num RUNNING = 4"
| "state_num ZOMBIE = 5"

text \<open>One process in a line of the log.\<close>

definition log_slot :: "int \<Rightarrow> nat \<Rightarrow> (unit, 'a pstate_scheme) kern" where
  "log_slot highest_idx k = kget (\<lambda>s. let pp = proc_at s k in
     kseq (if p_state pp = UNUSED then cprintf ''[-]---:0:-(-)(-)(-)'' []
       else kbind (kopt (slSearch (p_vdeadline pp) (p_pid pp) (bfs_sl (pt_bfs s)))) (\<lambda>r.
         let maxlevel = (if r = None then -1 else p_maxlevel pp) in
         cprintf ''[%d]%s:%d:%d(%d)(%d)(%d)''
           [AWord (word_of_int (p_pid pp)), AStr (Some (p_name pp)), AWord (state_num (p_state pp)),
            AWord (word_of_int (p_niceness pp)), AWord (word_of_int maxlevel),
            AWord (word_of_int (p_vdeadline pp)), AWord (word_of_int (p_ticks_left pp))]))
     (kwhen (int k \<noteq> highest_idx) (cprintf '','' [])))"

definition sched_log :: "(unit, 'a pstate_scheme) kern" where
  "sched_log = kget (\<lambda>s. kwhen (pt_schedlog_active s \<noteq> 0) (
     if pt_ticks s > word_of_int (pt_schedlog_lasttick s)
     then kmod (\<lambda>s. s\<lparr>pt_schedlog_active := 0\<rparr>)
     else
       kseq (cprintf ''%d|'' [AWord (pt_ticks s)]) (
       kget (\<lambda>s. let used = filter (\<lambda>k. p_state (proc_at s k) \<noteq> UNUSED) [0..<NPROC];
           highest_idx = (if used = [] then -1 else int (last used)) in
       kseq (kfor [0..<nat (highest_idx + 1)] (log_slot highest_idx))
       (cprintf (nl []) [])))))"

text \<open>
  \<^verbatim>\<open>nextProc\<close> starts at the slot \<^verbatim>\<open>pid - 1\<close> and ends at the last slot with that pid; \<^verbatim>\<open>firstNode\<close> is looked
  at again after it has been taken out of the list.
\<close>

definition find_next :: "int \<Rightarrow> 'a pstate_scheme \<Rightarrow> nat option" where
  "find_next pid s =
     (let found = filter (\<lambda>i. p_pid (proc_at s i) = pid) [0..<NPROC];
          nextProc = (if found = [] then pid - 1 else int (last found))
      in if 0 \<le> nextProc \<and> nextProc < int NPROC then Some (nat nextProc) else None)"

definition put_on :: "nat \<Rightarrow> nat \<Rightarrow> int \<Rightarrow> (unit, 'a pstate_scheme) kern" where
  "put_on c i maxlevel =
     kseq (kmod (up_cpu c (\<lambda>k. k\<lparr>c_proc := Some i\<rparr>))) (
     kseq (switchuvm (Some i)) (
     kseq (kmod (up_proc i (\<lambda>p. p\<lparr>p_state := RUNNING\<rparr>))) (
     kseq (kget (\<lambda>s. kwhen (p_ticks_left (proc_at s i) \<le> 0)
       (kmod (up_proc i (\<lambda>p. p\<lparr>p_ticks_left := BFS_DEFAULT_QUANTUM\<rparr>))))) (
     kseq (kmod (up_proc i (\<lambda>p. p\<lparr>p_maxlevel := maxlevel\<rparr>)))
     sched_log))))"

definition run_first :: "nat \<Rightarrow> int \<Rightarrow> (unit, 'a pstate_scheme) kern" where
  "run_first c f = kget (\<lambda>s.
     kbind (kopt (node (bfs_sl (pt_bfs s)) f)) (\<lambda>firstNode.
     kseq (kbfs (slDelete (sn_value firstNode) (sn_pid firstNode))) (
     kget (\<lambda>s. kbind (kopt (node (bfs_sl (pt_bfs s)) f)) (\<lambda>firstNode.
     kbind (kopt (find_next (sn_pid firstNode) s)) (\<lambda>i.
     kseq (put_on c i (sn_maxlevel firstNode)) (
     kseq kwait (
     kseq switchkvm
     (kmod (up_cpu c (\<lambda>k. k\<lparr>c_proc := None\<rparr>)))))))))))"

text \<open>
  The test reads \<^verbatim>\<open>firstNode->valid\<close> first: on an empty list that is the word in front of the array.
\<close>

definition sched_pick :: "nat \<Rightarrow> (unit, 'a pstate_scheme) kern" where
  "sched_pick c = kget (\<lambda>s. let sl = bfs_sl (pt_bfs s) in
     kbind (kopt (get_forward sl 0 0)) (\<lambda>f.
     kbind (if f = -1 then kret (pt_before s) else kopt (map_option sn_valid (node sl f))) (\<lambda>valid.
     kwhen (valid = 1 \<and> f > 0 \<and> f < int NPROC + 1) (run_first c f))))"

text \<open>One round. After \<^verbatim>\<open>sti\<close> interrupts come in and the other CPUs go on: a wait.\<close>

definition sched_round :: "nat \<Rightarrow> (unit, 'a pstate_scheme) kern" where
  "sched_round c =
     kseq (kmod (\<lambda>s. s\<lparr>m_if := True\<rparr>)) (
     kseq kwait (
     kseq (acquire LPtable) (
     kseq sched_scan (
     kseq (sched_pick c)
     (release LPtable)))))"

definition scheduler :: "(unit, 'a pstate_scheme) kern" where
  "scheduler =
     kseq (kmod (\<lambda>s. s\<lparr>pt_bfs := (pt_bfs s)\<lparr>bfs_sl := initSkipList (bfs_sl (pt_bfs s))\<rparr>\<rparr>)) (
     kbind mycpu (\<lambda>c.
     kseq (kmod (up_cpu c (\<lambda>k. k\<lparr>c_proc := None\<rparr>)))
     (kforever (kseq (sched_round c) (kret None)))))"

section \<open>Printing leaves the table alone\<close>

text \<open>The console is usable: its lock is free and the cursor is on the screen.\<close>

definition con_free :: "'a constate_scheme \<Rightarrow> bool" where
  "con_free s \<longleftrightarrow> con_ok s \<and> cpu_ok s \<and> (con_locking s \<noteq> 0 \<longrightarrow> lk_locked (m_locks s LCons) = 0)"

text \<open>Only memory, console and the skip list moved.\<close>

definition quiet :: "'a pstate_scheme \<Rightarrow> 'a pstate_scheme \<Rightarrow> bool" where
  "quiet s s' \<longleftrightarrow> same_locks s s' \<and> con_free s' \<and>
     (\<exists>b. vmstate.more s' = vmstate.more (s\<lparr>pt_bfs := b\<rparr>)) \<and> vm_cr3 s' = vm_cr3 s"


lemma more_bfs_cong:
  "vmstate.more s' = vmstate.more s \<Longrightarrow> vmstate.more (s'\<lparr>pt_bfs := b\<rparr>) = vmstate.more (s\<lparr>pt_bfs := b\<rparr>)"
  by (cases s; cases s') simp

lemma quietI:
  assumes "same_locks s s'" and "con_free s'" and "vmstate.more s' = vmstate.more (s\<lparr>pt_bfs := b\<rparr>)"
    and "vm_cr3 s' = vm_cr3 s"
  shows "quiet s s'"
  using assms by (auto simp: quiet_def)

lemma quiet_trans [trans]:
  assumes "quiet a b" and "quiet b c"
  shows "quiet a c"
proof -
  obtain x y where x: "vmstate.more b = vmstate.more (a\<lparr>pt_bfs := x\<rparr>)"
      and y: "vmstate.more c = vmstate.more (b\<lparr>pt_bfs := y\<rparr>)"
    using assms by (auto simp: quiet_def)
  have "vmstate.more c = vmstate.more (a\<lparr>pt_bfs := y\<rparr>)"
    using y more_bfs_cong [OF x, of y] by simp
  then show ?thesis using assms same_locks_trans by (auto simp: quiet_def)
qed

lemma quiet_refl: "con_free s \<Longrightarrow> quiet s s"
  by (rule quietI [where b = "pt_bfs s"]) auto

lemma quiet_fields:
  assumes "quiet s s'"
  shows "pt_proc s' = pt_proc s" "pt_nextpid s' = pt_nextpid s" "pt_initproc s' = pt_initproc s"
    "pt_ticks s' = pt_ticks s" "pt_before s' = pt_before s" "pt_esp0 s' = pt_esp0 s"
    "con_free s'" "same_locks s s'" "vm_cr3 s' = vm_cr3 s"
proof -
  obtain b where b: "vmstate.more s' = vmstate.more (s\<lparr>pt_bfs := b\<rparr>)" using assms by (auto simp: quiet_def)
  note F = more_fields [OF b]
  show "pt_proc s' = pt_proc s" "pt_nextpid s' = pt_nextpid s" "pt_initproc s' = pt_initproc s"
    "pt_ticks s' = pt_ticks s" "pt_before s' = pt_before s" "pt_esp0 s' = pt_esp0 s"
    using F by simp_all
  show "con_free s'" "same_locks s s'" "vm_cr3 s' = vm_cr3 s" using assms by (auto simp: quiet_def)
qed

lemma printed_more:
  assumes "printed s s'"
  shows "vmstate.more s' = vmstate.more s" "vm_cr3 s' = vm_cr3 s"
  using assms by (auto simp: printed_def)

lemma cr3_section [simp]:
  "vm_cr3 (acquired l s) = vm_cr3 s" "vm_cr3 (released l s) = vm_cr3 s" "vm_kpgdir (acquired l s) = vm_kpgdir s"
  "vm_kpgdir (released l s) = vm_kpgdir s"
  by (simp_all add: acquired_def released_def up_lock_def pushed_def popped_def up_cpu_def)

lemma con_released [simp]:
  "con_ok (released l s) = con_ok s" "con_locking (released l s) = con_locking s"
  by (simp_all add: con_ok_def screen_ok_def released_def up_lock_def popped_def up_cpu_def)

lemma printed_locked_frame:
  fixes s s' :: "'a pstate_scheme"
  assumes "printed_locked s s'" and "con_free s"
  shows "vmstate.more s' = vmstate.more s" "vm_cr3 s' = vm_cr3 s" "con_free s'" "same_locks s s'"
proof -
  have c: "con_ok s" "cpu_ok s" "con_locking s \<noteq> 0 \<longrightarrow> lk_locked (m_locks s LCons) = 0"
    using assms(2) by (auto simp: con_free_def)
  note K = printed_locked_keeps [OF assms(1) c(2,3)]
  have *: "vmstate.more s' = vmstate.more s \<and> vm_cr3 s' = vm_cr3 s \<and> con_locking s' = con_locking s \<and>
      con_panicked s' = con_panicked s"
  proof (cases "con_locking s = 0")
    case True
    then have p: "printed s s'" using assms(1) by (simp add: printed_locked_def)
    then show ?thesis using printed_more [OF p] printed_machine [OF p] by simp
  next
    case False
    then obtain s1 where p: "printed (acquired LCons s) s1" "s' = released LCons s1"
      using assms(1) by (auto simp: printed_locked_def)
    have "con_panicked (acquired LCons s) = con_panicked s" "con_panicked (released LCons s1) = con_panicked s1"
      by (simp_all add: acquired_def released_def up_lock_def pushed_def popped_def up_cpu_def)
    then show ?thesis using printed_more [OF p(1)] printed_machine [OF p(1)] p(2) by simp
  qed
  then show "vmstate.more s' = vmstate.more s" "vm_cr3 s' = vm_cr3 s" by auto
  show "same_locks s s'" by (rule K)
  show "con_free s'"
    using * K(1,2) c same_locks_ok [OF K(1) c(2)] by (auto simp: con_free_def con_ok_def same_locks_def)
qed

lemma cprintf_quiet:
  fixes s :: "'a pstate_scheme"
  assumes "con_free s" and "fmt_ok fmt args"
  obtains s' where "cprintf fmt args s rs = Ret () s' rs" and "quiet s s'" and "pt_bfs s' = pt_bfs s"
proof -
  obtain s' where s': "cprintf fmt args s rs = Ret () s' rs" "printed_locked s s'"
    using cprintf_run [of s fmt args rs] assms by (auto simp: con_free_def)
  note F = printed_locked_frame [OF s'(2) assms(1)]
  have "quiet s s'" using F by (intro quietI [where b = "pt_bfs s"]) auto
  then show ?thesis using that [OF s'(1)] more_fields(4) [OF F(1)] by blast
qed

text \<open>A computation that prints and does nothing else.\<close>

definition silent :: "(unit, 'a pstate_scheme) kern \<Rightarrow> bool" where
  "silent m \<longleftrightarrow> (\<forall>s rs. con_free s \<longrightarrow> (\<exists>s'. m s rs = Ret () s' rs \<and> quiet s s' \<and> pt_bfs s' = pt_bfs s))"

lemma silent_cprintf: "fmt_ok fmt args \<Longrightarrow> silent (cprintf fmt args)"
  unfolding silent_def by (metis cprintf_quiet)

lemma silent_ret: "silent (kret ())" "silent (Ret ())"
  by (auto simp: silent_def quiet_refl)

lemma silent_seq:
  assumes "silent m" and "silent m'"
  shows "silent (kseq m m')"
  unfolding silent_def
proof (intro allI impI)
  fix s :: "'a pstate_scheme" and rs assume "con_free s"
  then obtain s1 where 1: "m s rs = Ret () s1 rs" "quiet s s1" "pt_bfs s1 = pt_bfs s"
    using assms(1) unfolding silent_def by blast
  then obtain s2 where "m' s1 rs = Ret () s2 rs" "quiet s1 s2" "pt_bfs s2 = pt_bfs s1"
    using assms(2) quiet_fields(7) unfolding silent_def by blast
  then show "\<exists>s'. kseq m m' s rs = Ret () s' rs \<and> quiet s s' \<and> pt_bfs s' = pt_bfs s"
    using 1 quiet_trans by auto
qed

lemma silent_for: "(\<And>i. i \<in> set is \<Longrightarrow> silent (body i)) \<Longrightarrow> silent (kfor is body)"
  by (induction "is") (auto intro: silent_ret silent_seq)

lemma silent_event: "silent (print_event e)"
  by (cases e) (auto simp: dbgprintf_def fmt_ok.simps(2) nl_def intro!: silent_cprintf)

lemma kbfs_run:
  fixes s :: "'a pstate_scheme"
  assumes "f (pt_bfs s) = Some (r, b)" and "con_free s"
  obtains s' where "kbfs f s rs = Ret r s' rs" and "quiet s s'" and "pt_bfs s' = b"
proof -
  let ?s = "s\<lparr>pt_bfs := b\<rparr>"
  have same: "same_locks s ?s" by (simp add: same_locks_def holds_def ncli_def mine_def self_def)
  have c: "con_free ?s"
    using assms(2) same_locks_ok [OF same] by (auto simp: con_free_def con_ok_def screen_ok_def)
  have "silent (kfor (drop (length (bfs_out (pt_bfs s))) (bfs_out b)) print_event :: (unit, 'a pstate_scheme) kern)"
    by (intro silent_for silent_event)
  then obtain s' where s': "kfor (drop (length (bfs_out (pt_bfs s))) (bfs_out b)) print_event ?s rs = Ret () s' rs"
      "quiet ?s s'" "pt_bfs s' = b"
    using c unfolding silent_def by force
  have "quiet s ?s" using same c by (intro quietI [where b = b]) auto
  then show ?thesis
    using that [of s'] s' assms(1) quiet_trans by (auto simp: kbfs_def)
qed

section \<open>The scan\<close>

abbreviation queue :: "'a pstate_scheme \<Rightarrow> (int \<times> int) list" where
  "queue s \<equiv> entries (bfs_sl (pt_bfs s))"

text \<open>
  What the scan needs of the list: every entry is the current one of some slot in use, whatever the
  state of that process. The entries of processes that are not runnable are stale.
\<close>

definition in_use :: "proc list \<Rightarrow> (int \<times> int) set" where
  "in_use ps = {(p_vdeadline p, p_pid p) | p. p \<in> set ps \<and> p_state p \<noteq> UNUSED}"

definition scan_ok :: "'a pstate_scheme \<Rightarrow> bool" where
  "scan_ok s \<longleftrightarrow> table_ok (pt_proc s) (pt_nextpid s) \<and> sl_inv (bfs_sl (pt_bfs s)) \<and> distinct (queue s) \<and>
     set (queue s) \<subseteq> in_use (pt_proc s)"

lemma ready_in_use: "ready ps \<subseteq> in_use ps"
  unfolding ready_def in_use_def by force

lemma pt_inv_scan_ok: "pt_inv s \<Longrightarrow> scan_ok s"
  using ready_in_use [of "pt_proc s"] by (auto simp: pt_inv_def scan_ok_def queue_ok_def)

lemma scan_ok_length: "scan_ok s \<Longrightarrow> length (pt_proc s) = NPROC"
  by (simp add: scan_ok_def table_ok_def)

lemma in_use_index:
  assumes "length ps = NPROC"
  shows "e \<in> in_use ps \<longleftrightarrow>
    (\<exists>i<NPROC. p_state (ps ! i) \<noteq> UNUSED \<and> (p_vdeadline (ps ! i), p_pid (ps ! i)) = e)"
  using assms unfolding in_use_def in_set_conv_nth by (cases e) auto

lemma queue_room:
  assumes "scan_ok s" and "e \<in> in_use (pt_proc s)" and "e \<notin> set (queue s)"
  shows "length (queue s) < NPROC"
proof -
  have q: "distinct (queue s)" "set (queue s) \<subseteq> in_use (pt_proc s)" and len: "length (pt_proc s) = NPROC"
    using assms(1) scan_ok_length by (auto simp: scan_ok_def)
  have img: "in_use (pt_proc s) \<subseteq> (\<lambda>p. (p_vdeadline p, p_pid p)) ` set (pt_proc s)"
    by (auto simp: in_use_def)
  have "card (in_use (pt_proc s)) \<le> card (set (pt_proc s))"
    using card_mono [OF _ img] card_image_le [of "set (pt_proc s)"] by (meson finite_imageI finite_set le_trans)
  also have "\<dots> \<le> NPROC" using card_length [of "pt_proc s"] len by simp
  finally have "card (in_use (pt_proc s)) \<le> NPROC" .
  moreover have "card (set (queue s)) < card (in_use (pt_proc s))"
    using img q(2) assms(2,3) by (intro psubset_card_mono) (auto intro: finite_subset)
  ultimately show ?thesis using distinct_card [OF q(1)] by simp
qed

lemma pid_unique:
  assumes "table_ok ps n" and "i < NPROC" and "j < NPROC" and "p_pid (ps ! i) = p_pid (ps ! j)"
    and "p_state (ps ! i) \<noteq> UNUSED"
  shows "i = j"
proof (rule ccontr)
  assume "i \<noteq> j"
  then have "p_pid (ps ! i) = 0" using assms(1-4) unfolding table_ok_def by blast
  moreover have "proc_ok n (ps ! i)" using assms(1,2) by (simp add: table_ok_def list_all_length)
  ultimately show False using assms(5) by (simp add: proc_ok_def)
qed

text \<open>One slot: enter its entry, take it out, or leave the list alone.\<close>

abbreviation entry_at :: "'a pstate_scheme \<Rightarrow> nat \<Rightarrow> int \<times> int" where
  "entry_at s i \<equiv> (p_vdeadline (proc_at s i), p_pid (proc_at s i))"

definition scanned :: "'a pstate_scheme \<Rightarrow> nat \<Rightarrow> (int \<times> int) set" where
  "scanned s i = (if p_state (proc_at s i) = UNUSED then set (queue s)
     else if p_state (proc_at s i) = RUNNABLE then insert (entry_at s i) (set (queue s))
     else set (queue s) - {entry_at s i})"

lemma scan_slot_bfs:
  assumes "scan_ok s" and "i < NPROC" and "p_state (proc_at s i) \<noteq> UNUSED"
  obtains f b where "scan_slot i s rs = kbfs (\<lambda>b. map_option (Pair ()) (f b)) s rs"
    and "f (pt_bfs s) = Some b" and "sl_inv (bfs_sl b)" and "distinct (entries (bfs_sl b))"
    and "set (entries (bfs_sl b)) = scanned s i"
proof (cases "p_state (proc_at s i) = RUNNABLE")
  let ?p = "proc_at s i"
  have q: "sl_inv (bfs_sl (pt_bfs s))" "distinct (queue s)" using assms(1) by (auto simp: scan_ok_def)
  case True
  have "entry_at s i \<in> in_use (pt_proc s)"
    using assms by (auto simp: in_use_index [OF scan_ok_length [OF assms(1)]])
  then obtain b where b: "scan_enter (p_vdeadline ?p) (p_pid ?p) (pt_bfs s) = Some b" "sl_inv (bfs_sl b)"
      "distinct (entries (bfs_sl b))" "set (entries (bfs_sl b)) = insert (entry_at s i) (set (queue s))"
    using bfs_queue.enter [OF q, of "p_vdeadline ?p" "p_pid ?p"] queue_room [OF assms(1)]
    unfolding scan_enter_def by blast
  show ?thesis
    by (rule that [where f = "scan_enter (p_vdeadline ?p) (p_pid ?p)", OF _ b(1-3)]) (use True b(4) in \<open>simp_all add: scan_slot_def scanned_def Let_def\<close>)
next
  let ?p = "proc_at s i"
  have q: "sl_inv (bfs_sl (pt_bfs s))" "distinct (queue s)" using assms(1) by (auto simp: scan_ok_def)
  case False
  obtain b where b: "scan_leave (p_vdeadline ?p) (p_pid ?p) (pt_bfs s) = Some b" "sl_inv (bfs_sl b)"
      "distinct (entries (bfs_sl b))" "set (entries (bfs_sl b)) = set (queue s) - {entry_at s i}"
    using bfs_queue.leave [OF q, of "p_vdeadline ?p" "p_pid ?p"] unfolding scan_leave_def by blast
  show ?thesis
    by (rule that [where f = "scan_leave (p_vdeadline ?p) (p_pid ?p)", OF _ b(1-3)]) (use False assms(3) b(4) in \<open>simp_all add: scan_slot_def scanned_def Let_def\<close>)
qed

lemma scan_slot_run:
  assumes "scan_ok s" and "con_free s" and "i < NPROC"
  obtains s' where "scan_slot i s rs = Ret () s' rs" and "quiet s s'" and "scan_ok s'"
    and "set (queue s') = scanned s i"
proof (cases "p_state (proc_at s i) = UNUSED")
  case True
  then have "scan_slot i s rs = Ret () s rs" by (simp add: scan_slot_def Let_def)
  then show ?thesis using that quiet_refl [OF assms(2)] assms(1) True by (simp add: scanned_def)
next
  case False
  obtain f b where run: "scan_slot i s rs = kbfs (\<lambda>b. map_option (Pair ()) (f b)) s rs"
    and b: "f (pt_bfs s) = Some b" "sl_inv (bfs_sl b)" "distinct (entries (bfs_sl b))"
      "set (entries (bfs_sl b)) = scanned s i"
    by (rule scan_slot_bfs [OF assms(1,3) False])
  have "map_option (Pair ()) (f (pt_bfs s)) = Some ((), b)" using b(1) by simp
  then obtain s' where s': "scan_slot i s rs = Ret () s' rs" "quiet s s'" "pt_bfs s' = b"
    using kbfs_run [of "\<lambda>b. map_option (Pair ()) (f b)" s "()" b rs] assms(2) run by metis
  have "entry_at s i \<in> in_use (pt_proc s)"
    using assms(3) False by (auto simp: in_use_index [OF scan_ok_length [OF assms(1)]])
  then have "scanned s i \<subseteq> in_use (pt_proc s)" using assms(1) by (auto simp: scanned_def scan_ok_def)
  then have "scan_ok s'" using assms(1) b s'(3) quiet_fields [OF s'(2)] by (auto simp: scan_ok_def)
  then show ?thesis using that s' b(4) by simp
qed

text \<open>
  The slots of \<open>is\<close>: an entry of one of them is in the list afterwards if its process is runnable, any
  other entry if it was there before. Two slots in use never have the same entry.
\<close>

lemma scan_run:
  assumes "scan_ok s" and "con_free s" and "set is \<subseteq> {..<NPROC}"
  obtains s' where "kfor is scan_slot s rs = Ret () s' rs" and "quiet s s'" and "scan_ok s'"
    and "\<And>e. e \<in> set (queue s') \<longleftrightarrow>
      (if \<exists>i\<in>set is. p_state (proc_at s i) \<noteq> UNUSED \<and> entry_at s i = e
       then \<exists>i\<in>set is. p_state (proc_at s i) = RUNNABLE \<and> entry_at s i = e else e \<in> set (queue s))"
  using assms
proof (induction "is" arbitrary: s thesis)
  case Nil
  then show ?case using quiet_refl by auto
next
  case (Cons i "is")
  obtain s1 where 1: "scan_slot i s rs = Ret () s1 rs" "quiet s s1" "scan_ok s1" "set (queue s1) = scanned s i"
    using scan_slot_run [of s i rs] Cons.prems by auto
  note F = quiet_fields [OF 1(2)]
  have same: "proc_at s1 = proc_at s" using F(1) by simp
  obtain s2 where 2: "kfor is scan_slot s1 rs = Ret () s2 rs" "quiet s1 s2" "scan_ok s2"
      "\<And>e. e \<in> set (queue s2) \<longleftrightarrow>
        (if \<exists>i\<in>set is. p_state (proc_at s i) \<noteq> UNUSED \<and> entry_at s i = e
         then \<exists>i\<in>set is. p_state (proc_at s i) = RUNNABLE \<and> entry_at s i = e else e \<in> scanned s i)"
    using Cons.IH [OF _ 1(3) F(7)] Cons.prems(4) unfolding same 1(4) by auto
  have uniq: "j = i" if "j \<in> set is" "p_state (proc_at s j) \<noteq> UNUSED" "entry_at s j = entry_at s i" for j
    using pid_unique [of "pt_proc s" "pt_nextpid s" j i] Cons.prems(2,4) that by (auto simp: scan_ok_def)
  have "e \<in> set (queue s2) \<longleftrightarrow>
      (if \<exists>j\<in>set (i # is). p_state (proc_at s j) \<noteq> UNUSED \<and> entry_at s j = e
       then \<exists>j\<in>set (i # is). p_state (proc_at s j) = RUNNABLE \<and> entry_at s j = e else e \<in> set (queue s))" for e
    using uniq unfolding 2(4) scanned_def by (cases "entry_at s i = e") auto
  then show ?case
    using Cons.prems(1) [of s2] 1 2(1-3) quiet_trans [OF 1(2) 2(2)] by simp
qed

lemma sched_scan_fresh:
  assumes "scan_ok s" and "con_free s"
  obtains s' where "sched_scan s rs = Ret () s' rs" and "quiet s s'" and "pt_inv s'"
    and "set (queue s') = ready (pt_proc s)"
proof -
  obtain s' where s': "kfor [0..<NPROC] scan_slot s rs = Ret () s' rs" "quiet s s'" "scan_ok s'"
    and mem: "\<And>e. e \<in> set (queue s') \<longleftrightarrow>
      (if \<exists>i\<in>set [0..<NPROC]. p_state (proc_at s i) \<noteq> UNUSED \<and> entry_at s i = e
       then \<exists>i\<in>set [0..<NPROC]. p_state (proc_at s i) = RUNNABLE \<and> entry_at s i = e else e \<in> set (queue s))"
    by (rule scan_run [OF assms, of "[0..<NPROC]" rs]) auto
  have len: "length (pt_proc s) = NPROC" by (rule scan_ok_length [OF assms(1)])
  have ready: "e \<in> ready (pt_proc s) \<longleftrightarrow> (\<exists>i\<in>set [0..<NPROC]. p_state (proc_at s i) = RUNNABLE \<and> entry_at s i = e)" for e
    using len unfolding ready_def in_set_conv_nth by (cases e) (auto, blast)
  have "e \<in> set (queue s') \<longleftrightarrow> e \<in> ready (pt_proc s)" for e
  proof (cases "e \<in> in_use (pt_proc s)")
    case True
    then have "\<exists>i\<in>set [0..<NPROC]. p_state (proc_at s i) \<noteq> UNUSED \<and> entry_at s i = e"
      unfolding in_use_index [OF len] by auto
    then show ?thesis unfolding mem ready by simp
  next
    case False
    moreover have "e \<notin> set (queue s)" "e \<notin> ready (pt_proc s)"
      using False assms(1) ready_in_use by (auto simp: scan_ok_def)
    ultimately show ?thesis unfolding mem in_use_index [OF len] by auto
  qed
  then have q: "set (queue s') = ready (pt_proc s)" by blast
  then have "pt_inv s'"
    using s'(3) quiet_fields(1) [OF s'(2)] by (auto simp: pt_inv_def queue_ok_def scan_ok_def)
  then show ?thesis using that s' q by (simp add: sched_scan_def)
qed

lemmas sched_scan_run = sched_scan_fresh [OF pt_inv_scan_ok]

section \<open>Switching to a process\<close>

definition uvm_of :: "nat \<Rightarrow> 'a pstate_scheme \<Rightarrow> 'a pstate_scheme \<Rightarrow> 'a pstate_scheme" where
  "uvm_of i s t = t\<lparr>pt_esp0 := (pt_esp0 s)(mine s := p_kstack (proc_at s i) + KSTACKSIZE),
     vm_cr3 := p_pgdir (proc_at s i) - KERNBASE\<rparr>"

lemma popped_uvm: "popped (t\<lparr>pt_esp0 := e, vm_cr3 := v\<rparr>) = (popped t)\<lparr>pt_esp0 := e, vm_cr3 := v\<rparr>"
  by (simp add: popped_def up_cpu_def ncli_def mine_def self_def)

lemma switchuvm_run:
  assumes "cpu_ok s" and "p_kstack (proc_at s i) \<noteq> 0" and "KERNBASE \<le> p_pgdir (proc_at s i)"
  shows "switchuvm (Some i) s rs = Ret () (uvm_of i s (popped (pushed s))) rs"
proof -
  have s: "self s \<noteq> None" "0 \<le> ncli s" using assms(1) by (auto simp: cpu_ok_def)
  have nz: "p_pgdir (proc_at s i) \<noteq> 0" using assms(3) by (auto simp: KERNBASE_def)
  let ?t = "(pushed s)\<lparr>pt_esp0 := (pt_esp0 s)(mine s := p_kstack (proc_at s i) + KSTACKSIZE),
     vm_cr3 := p_pgdir (proc_at s i) - KERNBASE\<rparr>"
  have "self ?t = self s" "ncli ?t = ncli (pushed s)"
    using self_cong [of ?t "pushed s"] by (simp_all add: ncli_def mine_def)
  then have "popcli ?t rs = Ret () (popped ?t) rs"
    using s by (intro popcli_run) auto
  then show ?thesis
    using s nz assms by (simp add: switchuvm_def pushcli_run mycpu_run V2P_run uvm_of_def popped_uvm)
qed

text \<open>The log only prints and switches itself off.\<close>

definition logged :: "'a pstate_scheme \<Rightarrow> 'a pstate_scheme \<Rightarrow> bool" where
  "logged s s' \<longleftrightarrow> same_locks s s' \<and> con_free s' \<and> vm_cr3 s' = vm_cr3 s \<and> pt_proc s' = pt_proc s \<and>
     pt_nextpid s' = pt_nextpid s \<and> pt_bfs s' = pt_bfs s \<and> pt_esp0 s' = pt_esp0 s"

lemma quiet_logged: "quiet s s' \<Longrightarrow> pt_bfs s' = pt_bfs s \<Longrightarrow> logged s s'"
  using quiet_fields [of s s'] by (auto simp: logged_def)

lemma log_slot_run:
  assumes "sl_inv (bfs_sl (pt_bfs s))" and "con_free s"
  obtains s' where "log_slot h k s rs = Ret () s' rs" and "quiet s s'" and "pt_bfs s' = pt_bfs s"
proof -
  let ?p = "proc_at s k"
  let ?line = "\<lambda>m. cprintf ''[%d]%s:%d:%d(%d)(%d)(%d)''
     [AWord (word_of_int (p_pid ?p)), AStr (Some (p_name ?p)), AWord (state_num (p_state ?p)),
      AWord (word_of_int (p_niceness ?p)), AWord (word_of_int m),
      AWord (word_of_int (p_vdeadline ?p)), AWord (word_of_int (p_ticks_left ?p))] :: (unit, 'a pstate_scheme) kern"
  have sil: "silent (cprintf ''[-]---:0:-(-)(-)(-)'' [] :: (unit, 'a pstate_scheme) kern)" "silent (?line m)"
      "silent (kwhen (int k \<noteq> h) (cprintf '','' []) :: (unit, 'a pstate_scheme) kern)" for m
    by (auto intro!: silent_cprintf silent_ret simp: fmt_ok.simps(2) kwhen_def)
  obtain r where r: "slSearch (p_vdeadline ?p) (p_pid ?p) (bfs_sl (pt_bfs s)) = Some r"
    using bfs_queue.search_total [OF assms(1)] by blast
  define m where "m = (if r = None then -1 else p_maxlevel ?p)"
  have "silent (kseq (if p_state ?p = UNUSED then cprintf ''[-]---:0:-(-)(-)(-)'' [] else ?line m)
     (kwhen (int k \<noteq> h) (cprintf '','' [])) :: (unit, 'a pstate_scheme) kern)"
    using sil by (intro silent_seq) auto
  then obtain s' where "kseq (if p_state ?p = UNUSED then cprintf ''[-]---:0:-(-)(-)(-)'' [] else ?line m)
      (kwhen (int k \<noteq> h) (cprintf '','' [])) s rs = Ret () s' rs" "quiet s s'" "pt_bfs s' = pt_bfs s"
    using assms(2) unfolding silent_def by blast
  moreover have "log_slot h k s rs = kseq (if p_state ?p = UNUSED then cprintf ''[-]---:0:-(-)(-)(-)'' [] else ?line m)
      (kwhen (int k \<noteq> h) (cprintf '','' [])) s rs"
    using r by (simp add: log_slot_def Let_def m_def kseq_def kbind_def)
  ultimately show ?thesis using that by simp
qed

lemma log_slots_run:
  assumes "sl_inv (bfs_sl (pt_bfs s))" and "con_free s"
  obtains s' where "kfor is (log_slot h) s rs = Ret () s' rs" and "quiet s s'" and "pt_bfs s' = pt_bfs s"
  using assms
proof (induction "is" arbitrary: s thesis)
  case Nil
  then show ?case using quiet_refl by auto
next
  case (Cons k "is")
  obtain s1 where 1: "log_slot h k s rs = Ret () s1 rs" "quiet s s1" "pt_bfs s1 = pt_bfs s"
    using log_slot_run [OF Cons.prems(2,3)] by metis
  have "sl_inv (bfs_sl (pt_bfs s1))" using Cons.prems(2) 1(3) by simp
  then obtain s2 where "kfor is (log_slot h) s1 rs = Ret () s2 rs" "quiet s1 s2" "pt_bfs s2 = pt_bfs s1"
    using Cons.IH quiet_fields(7) [OF 1(2)] by metis
  then show ?case using Cons.prems(1) 1 quiet_trans by auto
qed

lemma sched_log_run:
  fixes s :: "'a pstate_scheme"
  assumes "sl_inv (bfs_sl (pt_bfs s))" and "con_free s"
  obtains s' where "sched_log s rs = Ret () s' rs" and "logged s s'"
proof -
  consider (off) "pt_schedlog_active s = 0"
    | (past) "pt_schedlog_active s \<noteq> 0" "pt_ticks s > word_of_int (pt_schedlog_lasttick s)"
    | (on) "pt_schedlog_active s \<noteq> 0" "\<not> pt_ticks s > word_of_int (pt_schedlog_lasttick s)" by blast
  then show ?thesis
  proof cases
    case off
    then have "sched_log s rs = Ret () s rs" by (simp add: sched_log_def)
    then show ?thesis using that assms(2) by (simp add: logged_def)
  next
    case past
    let ?s = "s\<lparr>pt_schedlog_active := 0\<rparr>"
    have "same_locks s ?s" by (simp add: same_locks_def holds_def ncli_def mine_def self_def)
    then have "logged s ?s"
      using assms(2) same_locks_ok by (auto simp: logged_def con_free_def con_ok_def screen_ok_def)
    then show ?thesis using that [of ?s] past by (simp add: sched_log_def)
  next
    case on
    obtain s1 where 1: "cprintf ''%d|'' [AWord (pt_ticks s)] s rs = Ret () s1 rs" "quiet s s1" "pt_bfs s1 = pt_bfs s"
      by (rule cprintf_quiet [OF assms(2), of "''%d|''" "[AWord (pt_ticks s)]" rs]) (auto simp: fmt_ok.simps(2))
    define h where "h = (let used = filter (\<lambda>k. p_state (proc_at s1 k) \<noteq> UNUSED) [0..<NPROC]
      in if used = [] then -1 else int (last used))"
    have "sl_inv (bfs_sl (pt_bfs s1))" using assms(1) 1(3) by simp
    then obtain s2 where 2: "kfor [0..<nat (h + 1)] (log_slot h) s1 rs = Ret () s2 rs" "quiet s1 s2" "pt_bfs s2 = pt_bfs s1"
      using log_slots_run quiet_fields(7) [OF 1(2)] by metis
    obtain s3 where 3: "cprintf (nl []) [] s2 rs = Ret () s3 rs" "quiet s2 s3" "pt_bfs s3 = pt_bfs s2"
      by (rule cprintf_quiet [OF quiet_fields(7) [OF 2(2)], of "nl []" "[]" rs]) (auto simp: nl_def fmt_ok.simps(2))
    have "quiet s s3" using quiet_trans [OF 1(2) quiet_trans [OF 2(2) 3(2)]] .
    moreover have "sched_log s rs = Ret () s3 rs"
      using on 1(1) 2(1) 3(1) by (simp add: sched_log_def Let_def h_def [unfolded Let_def, symmetric])
    ultimately show ?thesis using that quiet_logged [of s s3] 1 2 3 by simp
  qed
qed

text \<open>The chosen process: running, with a full quantum if it had none left.\<close>

definition dispatched :: "int \<Rightarrow> proc \<Rightarrow> proc" where
  "dispatched lev p = p\<lparr>p_state := RUNNING,
     p_ticks_left := (if p_ticks_left p \<le> 0 then BFS_DEFAULT_QUANTUM else p_ticks_left p), p_maxlevel := lev\<rparr>"

text \<open>The state in which the scheduler, holding the table lock, may switch.\<close>

definition sched_ready :: "nat \<Rightarrow> 'a pstate_scheme \<Rightarrow> bool" where
  "sched_ready c s \<longleftrightarrow> pt_inv s \<and> con_free s \<and> holds LPtable s \<and> ncli s = 1 \<and> mine s = c"

lemma c_ncli_up_cpu:
  "(\<And>k. c_ncli (f k) = c_ncli k) \<Longrightarrow> c_ncli (m_cpus (up_cpu c f s) ! d) = c_ncli (m_cpus s ! d)"
  by (cases "c < length (m_cpus s)") (auto simp: up_cpu_def nth_list_update list_update_beyond)

definition assigned :: "nat \<Rightarrow> nat option \<Rightarrow> 'a machine_scheme \<Rightarrow> 'a machine_scheme" where
  "assigned c p s = up_cpu c (\<lambda>k. k\<lparr>c_proc := p\<rparr>) s"

lemma assigned_fields [simp]:
  "self (assigned c p s) = self s" "mine (assigned c p s) = mine s" "ncli (assigned c p s) = ncli s"
  "cpu_ok (assigned c p s) = cpu_ok s" "holds l (assigned c p s) = holds l s" "m_if (assigned c p s) = m_if s"
  "m_locks (assigned c p s) = m_locks s" "m_mem (assigned c p s) = m_mem s"
  "vmstate.more (assigned c p s') = vmstate.more s'"
  by (simp_all add: assigned_def ncli_def cpu_ok_def holds_def c_ncli_up_cpu)

lemmas pt_assigned [simp] = more_fields [OF assigned_fields(9)]

lemma con_assigned [simp]: "con_ok (assigned c p s) = con_ok s" "con_locking (assigned c p s) = con_locking s"
  "vm_cr3 (assigned c p s') = vm_cr3 s'"
  by (simp_all add: assigned_def up_cpu_def con_ok_def screen_ok_def)

lemma cur_assigned: "self s \<noteq> None \<Longrightarrow> cur (assigned (mine s) p s) = p"
  using mine_lt [of s] by (simp add: cur_def assigned_def)

definition put :: "nat \<Rightarrow> nat \<Rightarrow> int \<Rightarrow> 'a pstate_scheme \<Rightarrow> 'a pstate_scheme" where
  "put c i lev s = up_proc i (dispatched lev) (uvm_of i s (assigned c (Some i) s))"

lemma put_fields:
  assumes "cpu_ok s" and "mine s = c"
  shows "self (put c i lev s) = self s" "mine (put c i lev s) = mine s" "ncli (put c i lev s) = ncli s"
    "cpu_ok (put c i lev s) = cpu_ok s" "holds l (put c i lev s) = holds l s" "m_if (put c i lev s) = m_if s"
    "m_locks (put c i lev s) = m_locks s" "cur (put c i lev s) = Some i" "con_free (put c i lev s) = con_free s"
    "pt_proc (put c i lev s) = (pt_proc s)[i := dispatched lev (proc_at s i)]"
    "pt_nextpid (put c i lev s) = pt_nextpid s" "pt_bfs (put c i lev s) = pt_bfs s"
    "vm_cr3 (put c i lev s) = p_pgdir (proc_at s i) - KERNBASE"
proof -
  have s: "self s \<noteq> None" using assms(1) by (simp add: cpu_ok_def)
  have u: "self (uvm_of i s t) = self t" "mine (uvm_of i s t) = mine t" "ncli (uvm_of i s t) = ncli t"
      "cpu_ok (uvm_of i s t) = cpu_ok t" "holds l (uvm_of i s t) = holds l t" "cur (uvm_of i s t) = cur t"
      "con_ok (uvm_of i s t) = con_ok t" "con_locking (uvm_of i s t) = con_locking t"
      "m_locks (uvm_of i s t) = m_locks t" "m_if (uvm_of i s t) = m_if t" "pt_proc (uvm_of i s t) = pt_proc t"
      "pt_nextpid (uvm_of i s t) = pt_nextpid t" "pt_bfs (uvm_of i s t) = pt_bfs t" for t
    by (simp_all add: uvm_of_def self_def mine_def ncli_def cpu_ok_def holds_def cur_def con_ok_def screen_ok_def)
  have v: "con_ok (up_proc i f t) = con_ok t" "con_locking (up_proc i f t) = con_locking t"
      "vm_cr3 (up_proc i f t) = vm_cr3 t" for f and t :: "'a pstate_scheme"
    by (simp_all add: up_proc_def con_ok_def screen_ok_def)
  show "self (put c i lev s) = self s" "mine (put c i lev s) = mine s" "ncli (put c i lev s) = ncli s"
    "cpu_ok (put c i lev s) = cpu_ok s" "holds l (put c i lev s) = holds l s" "m_if (put c i lev s) = m_if s"
    "m_locks (put c i lev s) = m_locks s" "con_free (put c i lev s) = con_free s"
    "pt_proc (put c i lev s) = (pt_proc s)[i := dispatched lev (proc_at s i)]"
    "pt_nextpid (put c i lev s) = pt_nextpid s" "pt_bfs (put c i lev s) = pt_bfs s"
    by (simp_all add: put_def u v con_free_def)
  show "vm_cr3 (put c i lev s) = p_pgdir (proc_at s i) - KERNBASE" by (simp add: put_def v) (simp add: uvm_of_def)
  show "cur (put c i lev s) = Some i" using cur_assigned [OF s] assms(2) by (simp add: put_def u)
qed

lemma put_on_run:
  assumes "cpu_ok s" and "0 < ncli s" and "mine s = c" and "con_free s" and "i < length (pt_proc s)"
    and "p_kstack (proc_at s i) \<noteq> 0" and "KERNBASE \<le> p_pgdir (proc_at s i)" and "sl_inv (bfs_sl (pt_bfs s))"
  obtains s' where "put_on c i lev s rs = Ret () s' rs" and "logged (put c i lev s) s'"
proof -
  let ?a = "assigned c (Some i) s"
  have "uvm_of i ?a (popped (pushed ?a)) = uvm_of i s ?a"
    using assms(1,2) by (simp add: uvm_of_def popped_pushed)
  then have sw: "switchuvm (Some i) ?a rs = Ret () (uvm_of i s ?a) rs"
    using switchuvm_run [of ?a i rs] assms by simp
  have len: "i < length (pt_proc (uvm_of i s ?a))" "proc_at (uvm_of i s ?a) i = proc_at s i"
    using assms(5) by (simp_all add: uvm_of_def)
  have d: "dispatched lev = (\<lambda>p. p\<lparr>p_state := RUNNING,
     p_ticks_left := (if p_ticks_left p \<le> 0 then BFS_DEFAULT_QUANTUM else p_ticks_left p), p_maxlevel := lev\<rparr>)"
    by (simp add: fun_eq_iff dispatched_def)
  have put: "put c i lev s = up_proc i (\<lambda>p. p\<lparr>p_maxlevel := lev\<rparr>)
      ((if p_ticks_left (proc_at s i) \<le> 0 then up_proc i (\<lambda>p. p\<lparr>p_ticks_left := BFS_DEFAULT_QUANTUM\<rparr>) else (\<lambda>s. s))
        (up_proc i (\<lambda>p. p\<lparr>p_state := RUNNING\<rparr>) (uvm_of i s ?a)))"
    using len by (auto simp: put_def up_proc_def d)
  have "sl_inv (bfs_sl (pt_bfs (put c i lev s)))" "con_free (put c i lev s)"
    using put_fields [OF assms(1,3)] assms by auto
  then obtain s' where s': "sched_log (put c i lev s) rs = Ret () s' rs" "logged (put c i lev s) s'"
    using sched_log_run by blast
  have "put_on c i lev s rs = sched_log (put c i lev s) rs"
    unfolding put using sw len
    by (cases "p_ticks_left (proc_at s i) \<le> 0") (simp_all add: put_on_def assigned_def [symmetric])
  then show ?thesis using that s' by simp
qed

section \<open>The choice\<close>

text \<open>Process \<open>i\<close> is runnable, and no runnable process has an earlier deadline.\<close>

definition earliest :: "nat \<Rightarrow> proc list \<Rightarrow> bool" where
  "earliest i ps \<longleftrightarrow> i < length ps \<and> p_state (ps ! i) = RUNNABLE \<and>
     (\<forall>j<length ps. p_state (ps ! j) = RUNNABLE \<longrightarrow> p_vdeadline (ps ! i) \<le> p_vdeadline (ps ! j))"

text \<open>The scheduler has switched to process \<open>i\<close>; \<open>ps\<close> is the table as the scan found it.\<close>

definition switched_to :: "nat \<Rightarrow> proc list \<Rightarrow> 'a pstate_scheme \<Rightarrow> bool" where
  "switched_to i ps t \<longleftrightarrow> on_cpu i t \<and> con_free t \<and> set (queue t) = ready (pt_proc t) \<and>
     (\<exists>lev. pt_proc t = ps[i := dispatched lev (ps ! i)]) \<and> vm_cr3 t = p_pgdir (ps ! i) - KERNBASE"

lemma find_next_unique:
  assumes "table_ok (pt_proc s) n" and "i < NPROC" and "p_state (proc_at s i) \<noteq> UNUSED"
  shows "find_next (p_pid (proc_at s i)) s = Some i"
proof -
  let ?found = "filter (\<lambda>j. p_pid (proc_at s j) = p_pid (proc_at s i)) [0..<NPROC]"
  have "set ?found \<subseteq> {i}"
  proof
    fix j assume "j \<in> set ?found"
    then show "j \<in> {i}" using pid_unique [OF assms(1,2), of j] assms(3) by simp
  qed
  moreover have "i \<in> set ?found" using assms(2) by simp
  ultimately have "?found \<noteq> []" "last ?found = i" by (metis empty_iff list.set(1), metis empty_iff last_in_set list.set(1) singletonD subsetD)
  then show ?thesis using assms(2) by (simp add: find_next_def Let_def)
qed

lemma ready_dispatched:
  assumes "table_ok ps n" and "i < NPROC" and "p_state (ps ! i) = RUNNABLE"
  shows "ready (ps[i := dispatched lev (ps ! i)]) = ready ps - {(p_vdeadline (ps ! i), p_pid (ps ! i))}"
proof -
  have len: "length ps = NPROC" using assms(1) by (simp add: table_ok_def)
  have ne: "p_pid (ps ! j) \<noteq> p_pid (ps ! i)" if "j < NPROC" "j \<noteq> i" for j
    using pid_unique [OF assms(1,2) that(1)] that(2) assms(3) by auto
  have "(\<exists>j<NPROC. j \<noteq> i \<and> p_state (ps ! j) = RUNNABLE \<and> e = (p_vdeadline (ps ! j), p_pid (ps ! j))) \<longleftrightarrow>
      e \<in> ready ps \<and> e \<noteq> (p_vdeadline (ps ! i), p_pid (ps ! i))" for e
    using ne len unfolding ready_def in_set_conv_nth by auto
  moreover have "e \<in> ready (ps[i := dispatched lev (ps ! i)]) \<longleftrightarrow>
      (\<exists>j<NPROC. j \<noteq> i \<and> p_state (ps ! j) = RUNNABLE \<and> e = (p_vdeadline (ps ! j), p_pid (ps ! j)))" for e
  proof
    assume "e \<in> ready (ps[i := dispatched lev (ps ! i)])"
    then obtain j where "j < NPROC" "p_state (ps[i := dispatched lev (ps ! i)] ! j) = RUNNABLE"
        "e = (p_vdeadline (ps[i := dispatched lev (ps ! i)] ! j), p_pid (ps[i := dispatched lev (ps ! i)] ! j))"
      using len by (auto simp: ready_def in_set_conv_nth)
    then show "\<exists>j<NPROC. j \<noteq> i \<and> p_state (ps ! j) = RUNNABLE \<and> e = (p_vdeadline (ps ! j), p_pid (ps ! j))"
      using len by (cases "j = i") (auto simp: dispatched_def)
  next
    assume "\<exists>j<NPROC. j \<noteq> i \<and> p_state (ps ! j) = RUNNABLE \<and> e = (p_vdeadline (ps ! j), p_pid (ps ! j))"
    then obtain j where j: "j < NPROC" "j \<noteq> i" "p_state (ps ! j) = RUNNABLE" "e = (p_vdeadline (ps ! j), p_pid (ps ! j))"
      by blast
    then have "ps ! j \<in> set (ps[i := dispatched lev (ps ! i)])"
      using len by (metis length_list_update nth_list_update_neq nth_mem)
    then show "e \<in> ready (ps[i := dispatched lev (ps ! i)])" using j unfolding ready_def by blast
  qed
  ultimately show ?thesis by blast
qed

lemma ready_index:
  assumes "length ps = NPROC" and "(v, pid) \<in> ready ps"
  obtains i where "i < NPROC" and "p_state (ps ! i) = RUNNABLE" and "p_vdeadline (ps ! i) = v" and "p_pid (ps ! i) = pid"
  using assms by (auto simp: ready_def in_set_conv_nth)

lemma run_first_run:
  assumes "sched_ready c s" and "set (queue s) = ready (pt_proc s)"
    and "node (bfs_sl (pt_bfs s)) (int x) = Some n" and "x < NPROC + 1" and "(sn_value n, sn_pid n) \<in> set (queue s)"
  obtains i t where "\<And>rs. run_first c (int x) s rs = kseq kwait (kseq switchkvm
      (kmod (up_cpu c (\<lambda>k. k\<lparr>c_proc := None\<rparr>)))) (t rs) rs"
    and "i < NPROC" and "p_state (proc_at s i) = RUNNABLE" and "p_vdeadline (proc_at s i) = sn_value n"
    and "\<And>rs. switched_to i (pt_proc s) (t rs)"
proof -
  note result = that
  let ?v = "sn_value n" and ?pid = "sn_pid n"
  have s: "pt_inv s" "con_free s" "holds LPtable s" "ncli s = 1" "mine s = c" "cpu_ok s"
    using assms(1) by (auto simp: sched_ready_def con_free_def)
  have len: "length (pt_proc s) = NPROC" and tab: "table_ok (pt_proc s) (pt_nextpid s)"
    and q: "sl_inv (bfs_sl (pt_bfs s))" "distinct (queue s)"
    using s(1) pt_inv_length by (auto simp: pt_inv_def queue_ok_def)
  obtain i where i: "i < NPROC" "p_state (proc_at s i) = RUNNABLE" "p_vdeadline (proc_at s i) = ?v"
      "p_pid (proc_at s i) = ?pid"
    using ready_index [OF len] assms(2,5) by metis
  obtain d b where b: "slDelete ?v ?pid (pt_bfs s) = Some (Some d, b)" "sl_inv (bfs_sl b)"
      "entries (bfs_sl b) = remove1 (?v, ?pid) (queue s)" "pd (bfs_sl b) = pd (bfs_sl (pt_bfs s))"
    using slDelete_member [OF q(1) assms(5)] by metis
  have shape: "sl_shape (bfs_sl b)" "sl_shape (bfs_sl (pt_bfs s))"
    using b(2) q(1) sl_repD(1) by (auto simp: sl_inv_def)
  define n' where "n' = sl_nodeList (bfs_sl b) ! x"
  have n': "node (bfs_sl b) (int x) = Some n'" "sn_pid n' = ?pid"
    using node_in [OF shape(1) assms(4)] node_in [OF shape(2) assms(4)] assms(3) fun_cong [OF b(4), of x]
    by (auto simp: n'_def pd_def)
  have ok: "p_kstack (proc_at s i) \<noteq> 0" "KERNBASE \<le> p_pgdir (proc_at s i)" "proc_ok (pt_nextpid s) (proc_at s i)"
    using pt_inv_proc [OF s(1) i(1)] i(2) by (auto simp: proc_ok_def)
  have "\<exists>t. run_first c (int x) s rs = kseq kwait (kseq switchkvm (kmod (up_cpu c (\<lambda>k. k\<lparr>c_proc := None\<rparr>)))) t rs \<and>
      switched_to i (pt_proc s) t" for rs
  proof -
    obtain s1 where 1: "kbfs (slDelete ?v ?pid) s rs = Ret (Some d) s1 rs" "quiet s s1" "pt_bfs s1 = b"
      using kbfs_run [where f = "slDelete ?v ?pid" and s = s, OF b(1) s(2)] by metis
    note F = quiet_fields [OF 1(2)]
    have L: "cpu_ok s1" "mine s1 = c" "ncli s1 = 1" "holds LPtable s1"
      using F(8) s same_locks_ok [OF F(8)] by (auto simp: same_locks_def mine_def)
    have find: "find_next ?pid s1 = Some i"
      using find_next_unique [of s1 "pt_nextpid s" i] tab i F(1) by simp
    obtain t where t: "put_on c i (sn_maxlevel n') s1 rs = Ret () t rs" "logged (put c i (sn_maxlevel n') s1) t"
      by (rule put_on_run [of s1 c i "sn_maxlevel n'" rs]) (use L F i ok len 1(3) b(2) in auto)
    note P = put_fields [OF L(1,2), where i = i and lev = "sn_maxlevel n'"]
    have T: "same_locks (put c i (sn_maxlevel n') s1) t" "con_free t" "vm_cr3 t = p_pgdir (proc_at s i) - KERNBASE"
        "pt_proc t = (pt_proc s)[i := dispatched (sn_maxlevel n') (proc_at s i)]" "pt_nextpid t = pt_nextpid s" "pt_bfs t = b"
      using t(2) P F 1(3) by (auto simp: logged_def)
    have "table_ok (pt_proc t) (pt_nextpid t)"
      unfolding T(4,5) by (rule table_ok_slot [OF tab i(1)]) (use ok(3) i(2) in \<open>auto simp: proc_ok_def dispatched_def\<close>)
    moreover have queue: "set (queue t) = ready (pt_proc t)" "distinct (queue t)"
      using ready_dispatched [OF tab i(1,2)] b(3) assms(2) q(2) i(3,4) by (auto simp: T(4,6))
    ultimately have "pt_inv t" using b(2) by (simp add: pt_inv_def queue_ok_def T(6))
    moreover have "cpu_ok t" "holds LPtable t" "ncli t = 1" "cur t = Some i"
      using T(1) P L same_locks_ok [OF T(1)] same_locks_cur [OF T(1)] by (auto simp: same_locks_def)
    moreover have "p_state (proc_at t i) = RUNNING" using len i(1) by (simp add: T(4) dispatched_def)
    ultimately have "switched_to i (pt_proc s) t"
      using i(1) T queue(1) unfolding switched_to_def on_cpu_def by blast
    moreover have "run_first c (int x) s rs = kseq kwait (kseq switchkvm (kmod (up_cpu c (\<lambda>k. k\<lparr>c_proc := None\<rparr>)))) t rs"
      using assms(3) 1 n' find t(1) by (simp add: run_first_def)
    ultimately show ?thesis by blast
  qed
  then obtain t where "\<And>rs. run_first c (int x) s rs = kseq kwait (kseq switchkvm
      (kmod (up_cpu c (\<lambda>k. k\<lparr>c_proc := None\<rparr>)))) (t rs) rs \<and> switched_to i (pt_proc s) (t rs)" by metis
  then show ?thesis using result [of t i] i by blast
qed

section \<open>A round\<close>

text \<open>What a round needs of the state it finds after \<^verbatim>\<open>sti\<close>.\<close>

definition can_round :: "nat \<Rightarrow> 'a pstate_scheme \<Rightarrow> bool" where
  "can_round c r \<longleftrightarrow> pt_inv r \<and> con_free r \<and> ncli r = 0 \<and> mine r = c \<and> lk_locked (m_locks r LPtable) = 0"

lemma queue_earliest:
  assumes "pt_inv s" and "set (queue s) = ready (pt_proc s)" and "queue s = (v, pid) # es"
    and "i < NPROC" and "p_state (proc_at s i) = RUNNABLE" and "p_vdeadline (proc_at s i) = v"
  shows "earliest i (pt_proc s)"
proof -
  have len: "length (pt_proc s) = NPROC" and q: "sl_inv (bfs_sl (pt_bfs s))"
    using assms(1) pt_inv_length by (auto simp: pt_inv_def queue_ok_def)
  have "v \<le> p_vdeadline (proc_at s j)" if "j < NPROC" "p_state (proc_at s j) = RUNNABLE" for j
  proof -
    have "(p_vdeadline (proc_at s j), p_pid (proc_at s j)) \<in> set (queue s)"
      using that len assms(2) nth_mem [of j "pt_proc s"] by (auto simp: ready_def)
    moreover have "sl_first (bfs_sl (pt_bfs s)) = Some (v, pid)"
      using sl_first_entries [OF q] assms(3) by simp
    ultimately show ?thesis using bfs_queue.first_least(2) [OF q] by fastforce
  qed
  then show ?thesis using assms len by (simp add: earliest_def)
qed

lemma pick_run:
  assumes "sched_ready c s" and "set (queue s) = ready (pt_proc s)"
  shows "queue s = [] \<Longrightarrow> sched_pick c s rs = Ret () s rs"
    and "queue s \<noteq> [] \<Longrightarrow> \<exists>i t. earliest i (pt_proc s) \<and> (\<forall>rs. switched_to i (pt_proc s) (t rs) \<and>
      sched_pick c s rs = kseq kwait (kseq switchkvm (kmod (up_cpu c (\<lambda>k. k\<lparr>c_proc := None\<rparr>)))) (t rs) rs)"
proof -
  have inv: "pt_inv s" and q: "sl_inv (bfs_sl (pt_bfs s))"
    using assms(1) by (auto simp: sched_ready_def pt_inv_def queue_ok_def)
  show "sched_pick c s rs = Ret () s rs" if "queue s = []"
    using first_node(1) [OF q that] by (simp add: sched_pick_def Let_def)
  assume "queue s \<noteq> []"
  then obtain v pid es where e: "queue s = (v, pid) # es" by (metis list.exhaust prod.exhaust)
  then obtain x n where n: "get_forward (bfs_sl (pt_bfs s)) 0 0 = Some (int x)" "1 \<le> x" "x < NPROC + 1"
      "node (bfs_sl (pt_bfs s)) (int x) = Some n" "sn_valid n = 1" "v = sn_value n" "pid = sn_pid n"
    using first_node(2) [OF q e] by auto
  have mem: "(sn_value n, sn_pid n) \<in> set (queue s)" using e n by simp
  obtain i t where i: "\<And>rs. run_first c (int x) s rs = kseq kwait (kseq switchkvm
      (kmod (up_cpu c (\<lambda>k. k\<lparr>c_proc := None\<rparr>)))) (t rs) rs" "i < NPROC" "p_state (proc_at s i) = RUNNABLE"
      "p_vdeadline (proc_at s i) = sn_value n" "\<And>rs. switched_to i (pt_proc s) (t rs)"
    using run_first_run [OF assms n(4,3) mem] by metis
  have "earliest i (pt_proc s)" using queue_earliest [OF inv assms(2) e i(2,3)] i(4) n(6) by simp
  moreover have "sched_pick c s rs = run_first c (int x) s rs" for rs
    using n by (simp add: sched_pick_def Let_def)
  ultimately show "\<exists>i t. earliest i (pt_proc s) \<and> (\<forall>rs. switched_to i (pt_proc s) (t rs) \<and>
      sched_pick c s rs = kseq kwait (kseq switchkvm (kmod (up_cpu c (\<lambda>k. k\<lparr>c_proc := None\<rparr>)))) (t rs) rs)"
    using i by metis
qed

lemma sched_round_run:
  assumes "can_round c r"
  shows "ready (pt_proc r) = {} \<Longrightarrow> \<exists>s'. sched_round c s (r # rs) = Ret () s' rs \<and> pt_inv s' \<and>
      pt_proc s' = pt_proc r \<and> lk_locked (m_locks s' LPtable) = 0 \<and> queue s' = []"
    and "ready (pt_proc r) \<noteq> {} \<Longrightarrow> \<exists>i t. earliest i (pt_proc r) \<and> switched_to i (pt_proc r) t \<and>
      sched_round c s (r # rs) = kseq (kseq kwait (kseq switchkvm
        (kmod (up_cpu c (\<lambda>k. k\<lparr>c_proc := None\<rparr>))))) (release LPtable) t rs"
proof -
  let ?a = "acquired LPtable r"
  have r: "pt_inv r" "con_free r" "ncli r = 0" "mine r = c" "lk_locked (m_locks r LPtable) = 0" "cpu_ok r" "self r \<noteq> None"
    using assms by (auto simp: can_round_def con_free_def cpu_ok_def)
  have a: "con_free ?a" "pt_inv ?a" using r by (auto simp: con_free_def)
  have "\<exists>t. sched_scan ?a rs = Ret () t rs \<and> quiet ?a t \<and> pt_inv t \<and> set (queue t) = ready (pt_proc r)" for rs
    using sched_scan_run [OF a(2,1), of rs] by (metis pt_section(1))
  then obtain u where u: "\<And>rs. sched_scan ?a rs = Ret () (u rs) rs" "\<And>rs. quiet ?a (u rs)" "\<And>rs. pt_inv (u rs)"
      "\<And>rs. set (queue (u rs)) = ready (pt_proc r)" by metis
  have proc: "pt_proc (u rs) = pt_proc r" for rs using quiet_fields(1) [OF u(2)] by simp
  have ready: "sched_ready c (u rs)" for rs
    using quiet_fields(7,8) [OF u(2), of rs] u(3) r by (auto simp: sched_ready_def same_locks_def mine_def)
  have head: "sched_round c s (r # rs) = kseq (sched_pick c) (release LPtable) (u rs) rs" for rs
    using r u(1) by (simp add: sched_round_def acquire_run)
  note P = pick_run [OF ready, unfolded proc, OF u(4)]
  show "\<exists>s'. sched_round c s (r # rs) = Ret () s' rs \<and> pt_inv s' \<and> pt_proc s' = pt_proc r \<and>
      lk_locked (m_locks s' LPtable) = 0 \<and> queue s' = []" if none: "ready (pt_proc r) = {}"
  proof -
    have q: "queue (u rs) = []" using u(4) [of rs] none by simp
    have "release LPtable (u rs) rs = Ret () (released LPtable (u rs)) rs"
      using ready [of rs] by (intro release_run) (auto simp: sched_ready_def con_free_def)
    then show ?thesis using head [of rs] P(1) [OF q] u(3) [of rs] proc [of rs] q by auto
  qed
  show "\<exists>i t. earliest i (pt_proc r) \<and> switched_to i (pt_proc r) t \<and>
      sched_round c s (r # rs) = kseq (kseq kwait (kseq switchkvm
        (kmod (up_cpu c (\<lambda>k. k\<lparr>c_proc := None\<rparr>))))) (release LPtable) t rs" if some: "ready (pt_proc r) \<noteq> {}"
  proof -
    have "queue (u rs) \<noteq> []" using u(4) [of rs] some by auto
    then obtain i t where "earliest i (pt_proc r)" "switched_to i (pt_proc r) (t rs)"
        "sched_pick c (u rs) rs = kseq kwait (kseq switchkvm (kmod (up_cpu c (\<lambda>k. k\<lparr>c_proc := None\<rparr>)))) (t rs) rs"
      using P(2) [of rs] by blast
    then show ?thesis
      using head [of rs] by (auto simp: kseq_def kbind_def)
  qed
qed

section \<open>Properties\<close>

text \<open>C6: The scan brings the skip list up to date. From a table with distinct pids and a well-formed list
  whose entries are current ones of slots in use, runnable or not, it returns, leaves the process
  table and the locks alone, and afterwards the list holds exactly the pairs of deadline and pid of
  the runnable processes, each once: the missing ones are entered, the stale ones taken out.\<close>

theorem scan_holds_exactly_the_runnable:
  assumes "scan_ok s" and "con_free s"
  shows "\<exists>s'. sched_scan s rs = Ret () s' rs \<and> pt_proc s' = pt_proc s \<and> same_locks s s' \<and> pt_inv s' \<and>
    set (queue s') = {(p_vdeadline p, p_pid p) | p. p \<in> set (pt_proc s) \<and> p_state p = RUNNABLE} \<and>
    distinct (queue s')"
proof -
  obtain s' where s': "sched_scan s rs = Ret () s' rs" "quiet s s'" "pt_inv s'"
      "set (queue s') = ready (pt_proc s)"
    by (rule sched_scan_fresh [OF assms])
  have "distinct (queue s')" using s'(3) by (simp add: pt_inv_def queue_ok_def)
  then show ?thesis using s' quiet_fields [OF s'(2)] unfolding ready_def by blast
qed

lemma small_con: "con_free small"
  by (simp add: con_free_def small_fields)

lemma sample_runnable:
  assumes "j < NPROC"
  shows "p_state (sample_table ! j) = RUNNABLE \<longleftrightarrow> j = 1"
proof -
  have "j = 0 \<or> j = 1 \<or> j = 2 \<or> 3 \<le> j" by auto
  then show ?thesis using assms by (auto simp: sample_table_def sample_proc_def zero_proc_def NPROC_def)
qed

lemma sample_length: "length sample_table = NPROC"
  by (simp add: sample_table_def)

lemma sample_ready: "ready sample_table = {(1060, 2)}"
proof -
  have s: "sample_table ! 1 = sample_proc 2 RUNNABLE 1060" "1 < NPROC"
    by (simp_all add: sample_table_def NPROC_def)
  then have "sample_table ! 1 \<in> set sample_table" using sample_length by (intro nth_mem) simp
  moreover have "p_state (sample_table ! 1) = RUNNABLE" "p_vdeadline (sample_table ! 1) = 1060"
      "p_pid (sample_table ! 1) = 2"
    unfolding s(1) by (simp_all add: sample_proc_def)
  ultimately have "(1060, 2) \<in> ready sample_table" unfolding ready_def by (metis (mono_tags, lifting) mem_Collect_eq)
  moreover have "e = (1060, 2)" if mem: "e \<in> ready sample_table" for e
  proof -
    obtain v pid where e: "e = (v, pid)" by (cases e)
    obtain i where i: "i < NPROC" "p_state (sample_table ! i) = RUNNABLE" "p_vdeadline (sample_table ! i) = v"
        "p_pid (sample_table ! i) = pid"
      using ready_index [OF sample_length mem [unfolded e]] by blast
    then have "i = 1" using sample_runnable [OF i(1)] by simp
    then show ?thesis using i(3,4) s(1) by (simp add: e sample_proc_def)
  qed
  ultimately show ?thesis by blast
qed

text \<open>A list that still has the entry of process 3, which sleeps.\<close>

definition small_stale :: pstate where
  "small_stale = small\<lparr>pt_bfs := snd (the (slInsert 1070 3 CHANCE started_bfs))\<rparr>"

lemma small_stale_ok:
  "scan_ok small_stale" "con_free small_stale" "queue small_stale = [(1070, 3)]"
  "pt_proc small_stale = sample_table"
proof -
  obtain b where b: "slInsert 1070 3 CHANCE started_bfs = Some (0, b)" "sl_inv (bfs_sl b)"
      "entries (bfs_sl b) = [(1070, 3)]"
    using slInsert_room [OF started_inv(1), of 1070 3 CHANCE] started_inv(2) by (auto simp: entry_insert_def NPROC_def)
  show t: "pt_proc small_stale = sample_table" and q: "queue small_stale = [(1070, 3)]"
    using b by (simp_all add: small_stale_def small_fields)
  show "con_free small_stale"
    using small_con by (simp add: con_free_def small_stale_def con_ok_def cpu_ok_def self_def ncli_def mine_def screen_ok_def)
  have "(1070, 3) \<in> in_use sample_table"
    unfolding in_use_index [OF sample_length]
    by (intro exI [of _ 2]) (simp add: sample_table_nth sample_proc_def NPROC_def)
  moreover have "pt_nextpid small_stale = 4" "pt_bfs small_stale = b"
    using b(1) by (simp_all add: small_stale_def small_fields)
  ultimately show "scan_ok small_stale"
    using sample_table_ok b(2) q t by (simp add: scan_ok_def)
qed

theorem scan_holds_exactly_the_runnable_witness:
  "queue small_stale = [(1070, 3)] \<and>
   (\<exists>s'. sched_scan small_stale [] = Ret () s' [] \<and> set (queue s') = {(1060, 2)})"
  using scan_holds_exactly_the_runnable [OF small_stale_ok(1,2), of "[]"] sample_ready
  unfolding ready_def small_stale_ok(3,4) by auto

text \<open>C1: A scheduling round picks the process with the earliest virtual deadline. With nothing runnable it
  returns and gives the table lock back. Otherwise it switches to a process that was runnable and
  has a deadline no later than that of any other runnable one: the process is marked running, has
  ticks left, its address space is loaded, it holds the table lock as its only lock, every other
  process is as before and the list holds exactly the remaining runnable ones. What the word in
  front of the node array contains does not matter.\<close>

theorem scheduler_picks_earliest_deadline:
  assumes "can_round c r"
  shows "if \<exists>p\<in>set (pt_proc r). p_state p = RUNNABLE
    then (\<exists>i t. sched_round c s [r] = Block t \<and> earliest i (pt_proc r) \<and> on_cpu i t \<and>
      0 < p_ticks_left (proc_at t i) \<and> vm_cr3 t = p_pgdir (proc_at r i) - KERNBASE \<and>
      (\<forall>j. j \<noteq> i \<longrightarrow> proc_at t j = proc_at r j) \<and> set (queue t) = ready (pt_proc t))
    else (\<exists>s'. sched_round c s (r # rs) = Ret () s' rs \<and> pt_inv s' \<and> pt_proc s' = pt_proc r \<and>
      lk_locked (m_locks s' LPtable) = 0)"
proof (cases "ready (pt_proc r) = {}")
  case True
  then have "\<not> (\<exists>p\<in>set (pt_proc r). p_state p = RUNNABLE)" by (auto simp: ready_def)
  then show ?thesis using sched_round_run(1) [OF assms True, of s rs] by auto
next
  case False
  then have some: "\<exists>p\<in>set (pt_proc r). p_state p = RUNNABLE" by (auto simp: ready_def)
  obtain i t where t: "earliest i (pt_proc r)" "switched_to i (pt_proc r) t" "sched_round c s [r] = Block t"
    using sched_round_run(2) [OF assms False, of s "[]"] by auto
  then obtain lev where lev: "pt_proc t = (pt_proc r)[i := dispatched lev (proc_at r i)]"
    by (auto simp: switched_to_def)
  then have "0 < p_ticks_left (proc_at t i)" "\<forall>j. j \<noteq> i \<longrightarrow> proc_at t j = proc_at r j"
    using t(1) by (auto simp: earliest_def dispatched_def BFS_DEFAULT_QUANTUM_def)
  then show ?thesis using some t by (auto simp: switched_to_def)
qed

definition small_idle :: pstate where
  "small_idle = small\<lparr>m_cpus := [\<lparr>c_apicid = 0, c_ncli = 0, c_intena = 0, c_proc = None\<rparr>]\<rparr>"

lemma small_idle_round: "can_round 0 small_idle"
proof -
  have "pt_inv small_idle" using small_inv by (simp add: small_idle_def pt_inv_def)
  moreover have "cpu_ok small_idle" "ncli small_idle = 0" "mine small_idle = 0" "con_free small_idle"
    using small_con by (simp_all add: small_idle_def small_def boot_vm_def boot_con_def boot_kmem_def one_cpu_def
        vmstate.defs constate.defs kstate.defs machine.defs cpu_ok_def self_def ncli_def mine_def con_free_def
        con_ok_def screen_ok_def)
  moreover have "lk_locked (m_locks small_idle LPtable) = 0" using small_fields(9) by (simp add: small_idle_def)
  ultimately show ?thesis by (simp add: can_round_def)
qed

theorem scheduler_picks_earliest_deadline_witness:
  "\<exists>t. sched_round 0 small_idle [small_idle] = Block t \<and> on_cpu 1 t \<and> p_state (proc_at t 2) = SLEEPING"
proof -
  have n: "pt_proc small_idle = sample_table" by (simp add: small_idle_def small_fields)
  note run = sample_runnable and len = sample_length
  have "sample_table ! 1 \<in> set sample_table" using len by (intro nth_mem) (simp add: NPROC_def)
  moreover have "p_state (sample_table ! 1) = RUNNABLE" by (simp add: run NPROC_def)
  ultimately obtain i t where t: "sched_round 0 small_idle [small_idle] = Block t" "earliest i sample_table" "on_cpu i t"
      "\<forall>j. j \<noteq> i \<longrightarrow> proc_at t j = sample_table ! j"
    using scheduler_picks_earliest_deadline [OF small_idle_round, of small_idle "[]"] unfolding n
    by (auto split: if_splits)
  then have "i = 1" using run len by (auto simp: earliest_def)
  then show ?thesis using t by (auto simp: sample_table_def sample_proc_def NPROC_def)
qed

text \<open>C7: The two halves of a context switch fit. A process that leaves the CPU through \<^verbatim>\<open>sched\<close> does so in a
  state from which the round that put it there finishes, with the table lock free, no process on
  the CPU and the kernel page table loaded; and the state in which a round switches to a process
  is one in which that process returns from \<^verbatim>\<open>sched\<close> without a panic.\<close>

theorem switch_handshake:
  assumes "can_round c r" and "earliest j (pt_proc r)"
    and "may_switch i q" and "mine q = c" and "KERNBASE \<le> vm_kpgdir q" and "may_switch k p"
  shows "(\<exists>s'. sched_round c s (r # q # rs) = Ret () s' rs \<and> lk_locked (m_locks s' LPtable) = 0 \<and>
      cur s' = None \<and> ncli s' = 0 \<and> vm_cr3 s' = vm_kpgdir q - KERNBASE \<and> pt_proc s' = pt_proc q) \<and>
    (\<exists>i t s'. sched_round c s [r] = Block t \<and> cur t = Some i \<and> p_state (proc_at t i) = RUNNING \<and>
      sched p [t] = Ret () s' [] \<and> holds LPtable s' \<and> pt_proc s' = pt_proc t)"
proof -
  have ne: "ready (pt_proc r) \<noteq> {}" using assms(2) by (force simp: earliest_def ready_def)
  have q: "cpu_ok q" "holds LPtable q" "ncli q = 1" "self q \<noteq> None"
    using assms(3) by (auto simp: may_switch_def cpu_ok_def)
  let ?q = "assigned c None (q\<lparr>vm_cr3 := vm_kpgdir q - KERNBASE\<rparr>)"
  have u: "self (q\<lparr>vm_cr3 := x\<rparr>) = self q" "mine (q\<lparr>vm_cr3 := x\<rparr>) = mine q" "ncli (q\<lparr>vm_cr3 := x\<rparr>) = ncli q"
      "cpu_ok (q\<lparr>vm_cr3 := x\<rparr>) = cpu_ok q" "holds l (q\<lparr>vm_cr3 := x\<rparr>) = holds l q" for x l
    by (simp_all add: self_def mine_def ncli_def cpu_ok_def holds_def)
  have "release LPtable ?q rs = Ret () (released LPtable ?q) rs"
    using q u by (intro release_run) auto
  moreover have "cur (released LPtable ?q) = None"
    using cur_assigned [of "q\<lparr>vm_cr3 := vm_kpgdir q - KERNBASE\<rparr>" None] u q assms(4) by simp
  moreover have "kseq (kseq kwait (kseq switchkvm (kmod (up_cpu c (\<lambda>k. k\<lparr>c_proc := None\<rparr>))))) (release LPtable) t (q # rs)
      = release LPtable ?q rs" for t
    using assms(5) by (simp add: switchkvm_def V2P_run assigned_def)
  ultimately have ret: "\<exists>s'. sched_round c s (r # q # rs) = Ret () s' rs \<and> lk_locked (m_locks s' LPtable) = 0 \<and>
      cur s' = None \<and> ncli s' = 0 \<and> vm_cr3 s' = vm_kpgdir q - KERNBASE \<and> pt_proc s' = pt_proc q"
    using sched_round_run(2) [OF assms(1) ne, of s "q # rs"] q u by auto
  obtain i t where t: "switched_to i (pt_proc r) t" "sched_round c s [r] = Block t"
    using sched_round_run(2) [OF assms(1) ne, of s "[]"] by auto
  then have on: "on_cpu i t" by (simp add: switched_to_def)
  then have "sched p [t] = Ret () (switched p t) []"
    using assms(6) on_cpu_self [OF on] by (intro sched_run) auto
  then have "\<exists>i t s'. sched_round c s [r] = Block t \<and> cur t = Some i \<and> p_state (proc_at t i) = RUNNING \<and>
      sched p [t] = Ret () s' [] \<and> holds LPtable s' \<and> pt_proc s' = pt_proc t"
    using t(2) on by (auto simp: on_cpu_def)
  then show ?thesis using ret by blast
qed

lemma small_left: "may_switch 0 (left_cpu 0 small)"
  by (rule left_cpu_switch(1) [OF small_in_proc]) (simp add: small_fields)

lemma small_earliest: "earliest 1 (pt_proc small_idle)"
  using sample_runnable sample_length by (simp add: earliest_def small_idle_def small_fields NPROC_def)

theorem switch_handshake_witness:
  "(\<exists>s'. sched_round 0 small_idle [small_idle, left_cpu 0 small] = Ret () s' [] \<and> cur s' = None) \<and>
   (\<exists>t s'. sched (left_cpu 0 small) [t] = Ret () s' [])"
proof -
  have "mine (left_cpu 0 small) = 0" "vm_kpgdir (left_cpu 0 small) = 0x80200000"
    by (simp_all add: left_cpu_def mine_def small_fields up_proc_def)
      (simp add: small_def vmstate.defs boot_vm_def constate.defs)
  then show ?thesis
    using switch_handshake [OF small_idle_round small_earliest small_left _ _ small_left, of small_idle "[]"]
    by (auto simp: KERNBASE_def)
qed

subsection \<open>The loop\<close>

lemma shrinks_kbfs [shrinks_intros]: "shrinks (kbfs f)"
proof -
  have "shrinks (print_event e)" for e by (cases e) (simp_all add: dbgprintf_def shrinks_print)
  then show ?thesis unfolding kbfs_def by (intro shrinks_intros)
qed

lemma shrinks_switch [shrinks_intros]: "shrinks (switchuvm p)" "shrinks switchkvm"
  unfolding switchuvm_def switchkvm_def V2P_def by (intro shrinks_intros)+

lemma shrinks_log [shrinks_intros]: "shrinks sched_log"
  unfolding sched_log_def log_slot_def by (intro shrinks_intros)

lemma shrinks_pick: "shrinks sched_scan" "shrinks (sched_pick c)"
  unfolding sched_scan_def scan_slot_def sched_pick_def run_first_def put_on_def by (intro shrinks_intros)+

lemma sched_round_waits: "waits (kseq (sched_round c) (kret None) :: ('b option, 'a pstate_scheme) kern)"
proof -
  have "(kseq (sched_round c) (kret None) :: ('b option, 'a pstate_scheme) kern) = kseq (kmod (\<lambda>s. s\<lparr>m_if := True\<rparr>)) (kseq kwait (kseq (acquire LPtable) (
     kseq sched_scan (kseq (sched_pick c) (kseq (release LPtable) (kret None))))))"
    by (simp add: sched_round_def kseq_def kbind_assoc)
  moreover have "waits \<dots>" by (intro waits_body shrinks_intros shrinks_pick)
  ultimately show ?thesis by simp
qed

end
