(* ===== verification/Sleeplock.thy ===== *)
theory Sleeplock
  imports Proc
begin

text \<open>
  Sleep locks, \<^verbatim>\<open>sleeplock.c\<close>: long-term locks that a process holds across waits. There is one in
  every buffer and one in every cached inode. The locale \<open>mutex\<close> is what the file system relies on;
  the sleep locks of the kernel are shown to fulfil it.
\<close>

section \<open>State\<close>

datatype slockid = SBuf nat | SInode nat

record sleeplock =
  slk_locked :: "32 word"
  slk_name :: string
  slk_pid :: int

record sstate = pstate +
  ss_locks :: "slockid \<Rightarrow> sleeplock"

text \<open>The spin lock inside, and the address the lock is waited for at.\<close>

primrec slk_lk :: "slockid \<Rightarrow> lockid" where
  "slk_lk (SBuf i) = LBuf i"
| "slk_lk (SInode i) = LInode i"

primrec slk_chan :: "slockid \<Rightarrow> channel" where
  "slk_chan (SBuf i) = ChSlockBuf i"
| "slk_chan (SInode i) = ChSlockInode i"

definition up_slock :: "slockid \<Rightarrow> (sleeplock \<Rightarrow> sleeplock) \<Rightarrow> 'a sstate_scheme \<Rightarrow> 'a sstate_scheme" where
  "up_slock l f s = s\<lparr>ss_locks := (ss_locks s)(l := f (ss_locks s l))\<rparr>"

section \<open>Operations\<close>

definition initsleeplock :: "slockid \<Rightarrow> string \<Rightarrow> (unit, 'a sstate_scheme) kern" where
  "initsleeplock l name =
     kseq (initlock (slk_lk l) ''sleep lock'')
     (kmod (up_slock l (\<lambda>k. k\<lparr>slk_name := name, slk_locked := 0, slk_pid := 0\<rparr>)))"

definition acquiresleep_wait :: "slockid \<Rightarrow> (unit option, 'a sstate_scheme) kern" where
  "acquiresleep_wait l = kget (\<lambda>s.
     if slk_locked (ss_locks s l) \<noteq> 0
     then kseq (sleep (Some (slk_chan l)) (Some (slk_lk l))) (kret None)
     else kret (Some ()))"

definition acquiresleep :: "slockid \<Rightarrow> (unit, 'a sstate_scheme) kern" where
  "acquiresleep l =
     kseq (acquire (slk_lk l)) (
     kseq (kforever (acquiresleep_wait l)) (
     kseq (kmod (up_slock l (\<lambda>k. k\<lparr>slk_locked := 1\<rparr>))) (
     kseq (kbind myproc (\<lambda>p. kbind (kptr p) (\<lambda>i. kget (\<lambda>s.
       kmod (up_slock l (\<lambda>k. k\<lparr>slk_pid := p_pid (proc_at s i)\<rparr>))))))
     (release (slk_lk l)))))"

definition releasesleep :: "slockid \<Rightarrow> (unit, 'a sstate_scheme) kern" where
  "releasesleep l =
     kseq (acquire (slk_lk l)) (
     kseq (kmod (up_slock l (\<lambda>k. k\<lparr>slk_locked := 0, slk_pid := 0\<rparr>))) (
     kseq (wakeup (Some (slk_chan l)))
     (release (slk_lk l))))"

text \<open>The pid is compared only if the lock is taken.\<close>

definition holdingsleep :: "slockid \<Rightarrow> (bool, 'a sstate_scheme) kern" where
  "holdingsleep l =
     kseq (acquire (slk_lk l)) (
     kbind (kget (\<lambda>s. if slk_locked (ss_locks s l) = 0 then kret False
       else kbind myproc (\<lambda>p. kbind (kptr p) (\<lambda>i. kget (\<lambda>s.
         kret (slk_pid (ss_locks s l) = p_pid (proc_at s i))))))) (\<lambda>r.
     kseq (release (slk_lk l))
     (kret r)))"

lemma waits_acquiresleep: "waits (acquiresleep_wait l)"
  unfolding acquiresleep_wait_def
  by (intro waits_get waits_branch waits_leave waits_strict strict_seq1 strict_sleep shrinks_intros)

lemma shrinks_sleeplock [shrinks_intros]:
  "shrinks (acquiresleep l)" "shrinks (releasesleep l)" "shrinks (holdingsleep l)"
  unfolding acquiresleep_def acquiresleep_wait_def releasesleep_def holdingsleep_def by (intro shrinks_intros)+

section \<open>States that differ in bookkeeping only\<close>

text \<open>
  A process of the table was woken, or nothing happened to it. Taking a lock and giving it back
  leaves a trace in the lock and in \<^verbatim>\<open>intena\<close>; \<open>calm\<close> relates states that differ in such traces and
  in wakeups, and agree on everything a component above the process table owns.
\<close>

definition maybe_woken :: "proc \<Rightarrow> proc \<Rightarrow> bool" where
  "maybe_woken p p' \<longleftrightarrow> p' = p \<or> p_state p = SLEEPING \<and> p' = p\<lparr>p_state := RUNNABLE\<rparr>"

definition calm :: "'a pstate_scheme \<Rightarrow> 'a pstate_scheme \<Rightarrow> bool" where
  "calm s s' \<longleftrightarrow> same_locks s s' \<and> list_all2 maybe_woken (pt_proc s) (pt_proc s') \<and> m_mem s' = m_mem s \<and>
     vmstate.more s' = vmstate.more (s\<lparr>pt_proc := pt_proc s'\<rparr>) \<and>
     vm_cr3 s' = vm_cr3 s \<and> vm_kpgdir s' = vm_kpgdir s \<and> km_freelist s' = km_freelist s \<and>
     km_use_lock s' = km_use_lock s \<and> km_end s' = km_end s \<and> km_data s' = km_data s \<and>
     con_panicked s' = con_panicked s \<and> con_locking s' = con_locking s \<and> con_pos s' = con_pos s"

lemma maybe_woken_refl [simp]: "maybe_woken p p"
  by (simp add: maybe_woken_def)

lemma maybe_woken_trans: "maybe_woken p q \<Longrightarrow> maybe_woken q r \<Longrightarrow> maybe_woken p r"
  by (auto simp: maybe_woken_def)

lemma calm_refl [simp]: "calm s s"
  by (simp add: calm_def list.rel_refl)

lemma more_proc_cong:
  "vmstate.more s' = vmstate.more (s\<lparr>pt_proc := x\<rparr>) \<Longrightarrow>
    vmstate.more (s'\<lparr>pt_proc := y\<rparr>) = vmstate.more (s\<lparr>pt_proc := y\<rparr>)"
  by (cases s; cases s') simp

lemma calm_trans [trans]:
  assumes "calm a b" and "calm b c"
  shows "calm a c"
proof -
  have "list_all2 maybe_woken (pt_proc a) (pt_proc c)"
    using assms list_all2_trans [of maybe_woken maybe_woken maybe_woken, OF maybe_woken_trans]
    by (auto simp: calm_def)
  moreover have "vmstate.more c = vmstate.more (a\<lparr>pt_proc := pt_proc c\<rparr>)"
    using assms more_proc_cong [where s = a and s' = b and x = "pt_proc b" and y = "pt_proc c"]
    by (simp add: calm_def)
  ultimately show ?thesis using assms same_locks_trans by (auto simp: calm_def)
qed

lemma calm_fields:
  assumes "calm s s'"
  shows "same_locks s s'" "m_mem s' = m_mem s" "pt_ticks s' = pt_ticks s" "pt_initproc s' = pt_initproc s"
    "pt_nextpid s' = pt_nextpid s" "pt_bfs s' = pt_bfs s" "length (pt_proc s') = length (pt_proc s)"
    "cur s' = cur s" "pstate.more s' = pstate.more s"
proof -
  have c: "vmstate.more s' = vmstate.more (s\<lparr>pt_proc := pt_proc s'\<rparr>)" using assms by (simp add: calm_def)
  note F = more_fields [OF c]
  show "same_locks s s'" "m_mem s' = m_mem s" using assms by (auto simp: calm_def)
  then show "cur s' = cur s" using same_locks_cur by blast
  show "pt_ticks s' = pt_ticks s" "pt_initproc s' = pt_initproc s" "pt_nextpid s' = pt_nextpid s"
    "pt_bfs s' = pt_bfs s" using F by simp_all
  show "length (pt_proc s') = length (pt_proc s)" using assms by (auto simp: calm_def dest: list_all2_lengthD)
  show "pstate.more s' = pstate.more s" using c by (cases s; cases s') simp
qed

lemma calm_pid:
  assumes "calm s s'" and "i < length (pt_proc s)"
  shows "p_pid (proc_at s' i) = p_pid (proc_at s i)" "p_killed (proc_at s' i) = p_killed (proc_at s i)"
    "p_state (proc_at s i) = RUNNING \<Longrightarrow> p_state (proc_at s' i) = RUNNING"
  using assms list_all2_nthD [of maybe_woken "pt_proc s" "pt_proc s'" i] by (auto simp: calm_def maybe_woken_def)

lemma calm_slocks: "calm s s' \<Longrightarrow> ss_locks s' = ss_locks s"
  using calm_fields(9) [of s s'] by (cases s; cases s') simp

lemma machine_cong:
  assumes "m_cpus s' = m_cpus s" "m_lapicid s' = m_lapicid s" "m_if s' = m_if s" "m_locks s' = m_locks s"
  shows "self s' = self s" "mine s' = mine s" "ncli s' = ncli s" "cpu_ok s' = cpu_ok s" "holds k s' = holds k s" "cur s' = cur s"
proof -
  have "self s' = self s" using assms by (auto intro: self_cong)
  then show "self s' = self s" "mine s' = mine s" "ncli s' = ncli s" "cpu_ok s' = cpu_ok s" "holds k s' = holds k s" "cur s' = cur s"
    using assms by (simp_all add: mine_def ncli_def cpu_ok_def holds_def cur_def)
qed

lemma same_locks_cong:
  assumes "m_cpus a' = m_cpus a" "m_lapicid a' = m_lapicid a" "m_if a' = m_if a" "m_locks a' = m_locks a"
    and "m_cpus b' = m_cpus b" "m_lapicid b' = m_lapicid b" "m_if b' = m_if b" "m_locks b' = m_locks b"
  shows "same_locks a' b' = same_locks a b"
proof -
  have "self a' = self a" "self b' = self b" using assms by (auto intro: self_cong)
  then show ?thesis using assms by (simp add: same_locks_def holds_def ncli_def mine_def)
qed

lemma calm_ss:
  assumes "calm s s'"
  shows "calm (s\<lparr>ss_locks := x\<rparr>) (s'\<lparr>ss_locks := x\<rparr>)"
proof -
  have "same_locks (s\<lparr>ss_locks := x\<rparr>) (s'\<lparr>ss_locks := x\<rparr>)"
    using calm_fields(1) [OF assms] by (simp cong: same_locks_cong)
  then show ?thesis using assms by (cases s; cases s') (simp add: calm_def)
qed

lemma section_ss [simp]:
  "acquired l (s\<lparr>ss_locks := x\<rparr>) = (acquired l s)\<lparr>ss_locks := x\<rparr>"
  "released l (s\<lparr>ss_locks := x\<rparr>) = (released l s)\<lparr>ss_locks := x\<rparr>"
  by (simp_all add: acquired_def released_def up_lock_def pushed_def popped_def up_cpu_def ncli_def mine_def self_def)

lemma ss_section [simp]: "ss_locks (acquired l s) = ss_locks s" "ss_locks (released l s) = ss_locks s"
  by (simp_all add: acquired_def released_def up_lock_def pushed_def popped_def up_cpu_def)

lemma up_slock_machine [simp]:
  "self (up_slock l f s) = self s" "mine (up_slock l f s) = mine s" "ncli (up_slock l f s) = ncli s"
  "cpu_ok (up_slock l f s) = cpu_ok s" "holds k (up_slock l f s) = holds k s" "cur (up_slock l f s) = cur s"
  "m_locks (up_slock l f s) = m_locks s" "pt_proc (up_slock l f s) = pt_proc s"
  "ss_locks (up_slock l f s) = (ss_locks s)(l := f (ss_locks s l))"
  by (simp_all add: up_slock_def self_def mine_def ncli_def cpu_ok_def holds_def cur_def)

text \<open>A critical section that changes nothing below, and one around a wakeup.\<close>

lemma low_section:
  "vm_cr3 (acquired l s) = vm_cr3 s" "vm_cr3 (released l s) = vm_cr3 s" "vm_kpgdir (acquired l s) = vm_kpgdir s"
  "vm_kpgdir (released l s) = vm_kpgdir s" "con_panicked (acquired l s) = con_panicked s"
  "con_panicked (released l s) = con_panicked s" "con_locking (acquired l s) = con_locking s"
  "con_locking (released l s) = con_locking s" "con_pos (acquired l s) = con_pos s" "con_pos (released l s) = con_pos s"
  by (simp_all add: acquired_def released_def up_lock_def pushed_def popped_def up_cpu_def)

lemma calm_bracket:
  assumes "cpu_ok s" and "lk_locked (m_locks s l) = 0" and "calm (acquired l s) t"
  shows "calm s (released l t)"
proof -
  have "same_locks s (released l t)"
    using assms calm_fields(1) by (intro same_locks_bracket) auto
  moreover have "vmstate.more t = vmstate.more (s\<lparr>pt_proc := pt_proc t\<rparr>)"
    using assms(3) more_proc_cong [where s' = "acquired l s" and s = s and x = "pt_proc s"] by (simp add: calm_def)
  ultimately show ?thesis using assms(3) by (simp add: calm_def low_section)
qed

lemma calm_section: "cpu_ok s \<Longrightarrow> lk_locked (m_locks s l) = 0 \<Longrightarrow> calm s (released l (acquired l s))"
  by (rule calm_bracket) simp_all

lemma maybe_woken_woken: "maybe_woken p (woken ch p)"
  by (simp add: woken_def maybe_woken_def)

lemma calm_wakened:
  assumes "cpu_ok s" and "lk_locked (m_locks s LPtable) = 0"
  shows "calm s (wakened ch s)"
proof -
  have "vmstate.more (wakened ch s) = vmstate.more (s\<lparr>pt_proc := map (woken ch) (pt_proc s)\<rparr>)"
    unfolding wakened_def Let_def by (simp add: more_proc_cong [where s' = "acquired LPtable s" and x = "pt_proc s"])
  then show ?thesis
    using wakened_keeps [OF assms] maybe_woken_woken
    by (simp add: calm_def list_all2_map2 list_all2_same)
      (simp add: wakened_def Let_def acquired_def released_def up_lock_def pushed_def popped_def up_cpu_def)
qed

section \<open>The effect of the operations\<close>

text \<open>No spin lock is taken, by this CPU or another one, and the thread belongs to process \<open>i\<close>.\<close>

definition quiescent :: "nat \<Rightarrow> 'a pstate_scheme \<Rightarrow> bool" where
  "quiescent i s \<longleftrightarrow> cpu_ok s \<and> (\<forall>l. lk_locked (m_locks s l) = 0) \<and> cur s = Some i \<and> i < length (pt_proc s)"

lemma calm_quiescent: "calm s s' \<Longrightarrow> quiescent i s \<Longrightarrow> quiescent i s'"
  using calm_fields [of s s'] same_locks_ok [of s s'] by (auto simp: quiescent_def same_locks_def)

lemma quiescent_up_slock [simp]: "quiescent i (up_slock l f s) = quiescent i s"
  by (simp add: quiescent_def)

lemma calm_up_slock: "calm s s' \<Longrightarrow> calm (up_slock l f s) (up_slock l f s')"
  using calm_slocks [of s s'] by (simp add: up_slock_def calm_ss)

definition taken_by :: "int \<Rightarrow> sleeplock \<Rightarrow> sleeplock" where
  "taken_by pid k = k\<lparr>slk_locked := 1, slk_pid := pid\<rparr>"

definition given_up :: "sleeplock \<Rightarrow> sleeplock" where
  "given_up k = k\<lparr>slk_locked := 0, slk_pid := 0\<rparr>"

lemma acquiresleep_run:
  assumes "quiescent i s" and "slk_locked (ss_locks s l) = 0"
  obtains s' where "acquiresleep l s rs = Ret () s' rs" and "calm (up_slock l (taken_by (p_pid (proc_at s i))) s) s'"
proof -
  let ?l = "slk_lk l" and ?a = "acquired (slk_lk l) s"
  have s: "cpu_ok s" "self s \<noteq> None" "0 \<le> ncli s" "lk_locked (m_locks s ?l) = 0" "cur s = Some i" "i < length (pt_proc s)"
    using assms(1) by (auto simp: quiescent_def cpu_ok_def)
  have loop: "kforever (acquiresleep_wait l) ?a rs = Ret () ?a rs"
    by (subst kforever_unfold [OF waits_acquiresleep]) (simp add: acquiresleep_wait_def assms(2))
  let ?t = "up_slock l (\<lambda>k. k\<lparr>slk_pid := p_pid (proc_at s i)\<rparr>) (up_slock l (\<lambda>k. k\<lparr>slk_locked := 1\<rparr>) ?a)"
  have "acquiresleep l s rs = Ret () (released ?l ?t) rs"
    using s by (simp add: acquiresleep_def acquire_run loop myproc_nested kptr_run release_run)
  moreover have "released ?l ?t = up_slock l (taken_by (p_pid (proc_at s i))) (released ?l ?a)"
    by (simp add: up_slock_def taken_by_def)
  ultimately show ?thesis
    using that calm_up_slock [OF calm_section [OF s(1,4)]] by metis
qed

lemma slk_lk_ptable [simp]: "slk_lk l \<noteq> LPtable" "LPtable \<noteq> slk_lk l"
  by (cases l; simp)+

lemma releasesleep_run:
  assumes "quiescent i s"
  obtains s' where "releasesleep l s rs = Ret () s' rs" and "calm (up_slock l given_up s) s'"
proof -
  let ?l = "slk_lk l" and ?a = "acquired (slk_lk l) s"
  have s: "cpu_ok s" "self s \<noteq> None" "0 \<le> ncli s" "\<And>l. lk_locked (m_locks s l) = 0"
    using assms by (auto simp: quiescent_def cpu_ok_def)
  let ?u = "up_slock l given_up ?a" and ?w = "wakened (Some (slk_chan l)) (up_slock l given_up (acquired (slk_lk l) s))"
  have eq: "up_slock l (\<lambda>k. k\<lparr>slk_locked := 0, slk_pid := 0\<rparr>) ?a = ?u" by (simp add: up_slock_def given_up_def)
  have free: "cpu_ok ?u" "lk_locked (m_locks ?u LPtable) = 0" using s by simp_all
  have w: "wakeup (Some (slk_chan l)) ?u rs = Ret () ?w rs" by (rule wakeup_run [OF free])
  have same: "same_locks ?u ?w" by (rule wakened_keeps(1) [OF free])
  have "release ?l ?w rs = Ret () (released ?l ?w) rs"
    using same s same_locks_ok [OF same] by (intro release_run) (auto simp: same_locks_def)
  then have run: "releasesleep l s rs = Ret () (released ?l ?w) rs"
    using s eq w by (simp add: releasesleep_def acquire_run)
  have "acquired ?l (up_slock l given_up s) = ?u" by (simp add: up_slock_def)
  then have "calm (up_slock l given_up s) (released ?l ?w)"
    using s calm_wakened [OF free] by (intro calm_bracket) simp_all
  then show ?thesis using that run by blast
qed

lemma holdingsleep_run:
  assumes "quiescent i s"
  obtains s' where "holdingsleep l s rs
      = Ret (slk_locked (ss_locks s l) \<noteq> 0 \<and> slk_pid (ss_locks s l) = p_pid (proc_at s i)) s' rs" and "calm s s'"
proof -
  let ?l = "slk_lk l" and ?a = "acquired (slk_lk l) s"
  have s: "cpu_ok s" "self s \<noteq> None" "0 \<le> ncli s" "lk_locked (m_locks s ?l) = 0" "cur s = Some i" "i < length (pt_proc s)"
    using assms(1) by (auto simp: quiescent_def cpu_ok_def)
  have "release ?l ?a rs = Ret () (released ?l ?a) rs" using s by (intro release_run) auto
  then have "holdingsleep l s rs = Ret (slk_locked (ss_locks s l) \<noteq> 0 \<and> slk_pid (ss_locks s l) = p_pid (proc_at s i))
      (released ?l ?a) rs"
    using s by (cases "slk_locked (ss_locks s l) = 0")
      (simp_all add: holdingsleep_def acquire_run myproc_nested kptr_run)
  then show ?thesis using that calm_section [OF s(1,4)] by blast
qed

text \<open>A process that finds the lock taken goes to sleep on it, with the spin lock released.\<close>

lemma acquiresleep_blocks:
  assumes "in_proc i s" and "ncli s = 0" and "\<And>l. lk_locked (m_locks s l) = 0" and "slk_locked (ss_locks s l) \<noteq> 0"
  obtains t where "acquiresleep l s [] = Block t" and "p_state (proc_at t i) = SLEEPING"
    and "p_chan (proc_at t i) = Some (slk_chan l)" and "ss_locks t = ss_locks s" and "pt_inv t"
    and "holds LPtable t" and "\<forall>k. k \<noteq> LPtable \<longrightarrow> lk_locked (m_locks t k) = 0"
proof -
  let ?l = "slk_lk l" and ?a = "acquired (slk_lk l) s"
  note P = in_procD [OF assms(1)]
  have c: "can_sleep i ?l ?a"
    using assms P by (simp add: can_sleep_def in_proc_def)
  let ?t = "fell_asleep i (Some (slk_chan l)) ?l ?a"
  have "kforever (acquiresleep_wait l) ?a [] = Block ?t"
    using sleep_run(1) [OF c] assms(4)
    by (subst kforever_unfold [OF waits_acquiresleep]) (simp add: acquiresleep_wait_def)
  then have "acquiresleep l s [] = Block ?t"
    using assms(3) P by (simp add: acquiresleep_def acquire_run)
  moreover have "p_state (proc_at ?t i) = SLEEPING" "p_chan (proc_at ?t i) = Some (slk_chan l)" "ss_locks ?t = ss_locks s"
    using P(4) by (simp_all add: fell_asleep_def asleep_def) (simp add: up_proc_def)
  moreover have "holds LPtable ?t" using fell_asleep_switch(1) [OF c] by (simp add: may_switch_def)
  moreover have "\<forall>k. k \<noteq> LPtable \<longrightarrow> lk_locked (m_locks ?t k) = 0"
    using assms(3) by (simp add: fell_asleep_def)
  ultimately show ?thesis using that fell_asleep_switch(2) [OF c] by blast
qed

section \<open>The contract\<close>

locale mutex =
  fixes ok :: "'s \<Rightarrow> bool"
    and holder :: "'s \<Rightarrow> int option"
    and me :: "'s \<Rightarrow> int"
    and acq :: "(unit, 's) kern"
    and rel :: "(unit, 's) kern"
    and held :: "(bool, 's) kern"
  assumes acq_free: "ok s \<Longrightarrow> holder s = None \<Longrightarrow>
      \<exists>s'. acq s rs = Ret () s' rs \<and> ok s' \<and> holder s' = Some (me s) \<and> me s' = me s"
    and rel_any: "ok s \<Longrightarrow> \<exists>s'. rel s rs = Ret () s' rs \<and> ok s' \<and> holder s' = None \<and> me s' = me s"
    and held_exact: "ok s \<Longrightarrow>
      \<exists>s'. held s rs = Ret (holder s = Some (me s)) s' rs \<and> ok s' \<and> holder s' = holder s \<and> me s' = me s"
begin

text \<open>Between the two operations the caller, and nobody else, is reported as the holder.\<close>

lemma bracket:
  assumes "ok s" and "holder s = None"
  shows "\<exists>s'. kseq acq (kbind held (\<lambda>a. kseq rel (kbind held (\<lambda>b. kret (a, b))))) s rs = Ret (True, False) s' rs \<and>
    ok s' \<and> holder s' = None"
proof -
  obtain s1 where 1: "acq s rs = Ret () s1 rs" "ok s1" "holder s1 = Some (me s)" "me s1 = me s"
    using acq_free [OF assms] by blast
  obtain s2 where 2: "held s1 rs = Ret True s2 rs" "ok s2" using held_exact [OF 1(2), of rs] 1 by auto
  obtain s3 where 3: "rel s2 rs = Ret () s3 rs" "ok s3" "holder s3 = None" using rel_any [OF 2(2)] by blast
  obtain s4 where "held s3 rs = Ret False s4 rs" "ok s4" "holder s4 = None"
    using held_exact [OF 3(2), of rs] 3 by auto
  then show ?thesis using 1 2 3 by (simp add: kseq_def kbind_def)
qed

end

definition slk_holder :: "slockid \<Rightarrow> 'a sstate_scheme \<Rightarrow> int option" where
  "slk_holder l s = (if slk_locked (ss_locks s l) = 0 then None else Some (slk_pid (ss_locks s l)))"

interpretation slk: mutex "quiescent i" "slk_holder l" "\<lambda>s. p_pid (proc_at s i)"
  "acquiresleep l" "releasesleep l" "holdingsleep l" for i l
proof (unfold_locales, goal_cases)
  case (1 s rs)
  have i: "i < length (pt_proc s)" using 1(1) by (simp add: quiescent_def)
  obtain s' where s': "acquiresleep l s rs = Ret () s' rs" "calm (up_slock l (taken_by (p_pid (proc_at s i))) s) s'"
    using acquiresleep_run [OF 1(1)] 1(2) by (auto simp: slk_holder_def split: if_splits)
  then show ?case
    using 1 calm_quiescent [OF s'(2)] calm_slocks [OF s'(2)] calm_pid(1) [OF s'(2)] i
    by (auto simp: slk_holder_def taken_by_def)
next
  case (2 s rs)
  have i: "i < length (pt_proc s)" using 2 by (simp add: quiescent_def)
  obtain s' where s': "releasesleep l s rs = Ret () s' rs" "calm (up_slock l given_up s) s'"
    using releasesleep_run [OF 2] by blast
  then show ?case
    using 2 calm_quiescent [OF s'(2)] calm_slocks [OF s'(2)] calm_pid(1) [OF s'(2)] i
    by (auto simp: slk_holder_def given_up_def)
next
  case (3 s rs)
  have i: "i < length (pt_proc s)" using 3 by (simp add: quiescent_def)
  obtain s' where s': "holdingsleep l s rs
      = Ret (slk_locked (ss_locks s l) \<noteq> 0 \<and> slk_pid (ss_locks s l) = p_pid (proc_at s i)) s' rs" "calm s s'"
    using holdingsleep_run [OF 3] by blast
  then show ?case
    using 3 calm_quiescent [OF s'(2)] calm_slocks [OF s'(2)] calm_pid(1) [OF s'(2)] i
    by (auto simp: slk_holder_def)
qed

section \<open>Properties\<close>

text \<open>C36: A sleep lock that is free is taken at once, reported as held to the process that took it and as
  not held to a process with another pid that asks while the lock is as it was left, and free again
  after the release. A process that finds it taken goes to sleep on it, with the lock unchanged and
  every spin lock but the table's given up.\<close>

theorem sleeplock_excludes:
  fixes s :: "'a sstate_scheme"
  assumes "in_proc i s" and "ncli s = 0" and "\<And>l. lk_locked (m_locks s l) = 0"
  shows "if slk_locked (ss_locks s l) = 0
    then (\<exists>s'. kseq (acquiresleep l) (kbind (holdingsleep l) (\<lambda>a. kseq (releasesleep l)
        (kbind (holdingsleep l) (\<lambda>b. kret (a, b))))) s rs = Ret (True, False) s' rs \<and> slk_locked (ss_locks s' l) = 0) \<and>
      (\<exists>t. acquiresleep l s rs = Ret () t rs \<and>
        (\<forall>j (u :: 'a sstate_scheme). quiescent j u \<longrightarrow> ss_locks u = ss_locks t \<longrightarrow> p_pid (proc_at u j) \<noteq> p_pid (proc_at s i) \<longrightarrow>
          (\<exists>u'. holdingsleep l u us = Ret False u' us)))
    else \<exists>t. acquiresleep l s [] = Block t \<and> p_state (proc_at t i) = SLEEPING \<and>
      p_chan (proc_at t i) = Some (slk_chan l) \<and> ss_locks t = ss_locks s \<and> pt_inv t \<and>
      holds LPtable t \<and> (\<forall>k. k \<noteq> LPtable \<longrightarrow> lk_locked (m_locks t k) = 0)"
proof (cases "slk_locked (ss_locks s l) = 0")
  case True
  have q: "quiescent i s" using assms in_procD [OF assms(1)] by (simp add: quiescent_def)
  have none: "slk_holder l s = None" using True by (simp add: slk_holder_def)
  obtain t where t: "acquiresleep l s rs = Ret () t rs" "slk_holder l t = Some (p_pid (proc_at s i))"
    using slk.acq_free [OF q none, of rs] by blast
  have "\<exists>u'. holdingsleep l u us = Ret False u' us"
    if u: "quiescent j u" "ss_locks u = ss_locks t" "p_pid (proc_at u j) \<noteq> p_pid (proc_at s i)"
    for j and u :: "'a sstate_scheme"
  proof -
    have "slk_holder l u = Some (p_pid (proc_at s i))" using t(2) u(2) by (auto simp: slk_holder_def split: if_splits)
    then show ?thesis using slk.held_exact [OF u(1), of l us] u(3) by auto
  qed
  then show ?thesis
    using slk.bracket [OF q none, of rs] t(1) True by (auto simp: slk_holder_def split: if_splits)
next
  case False
  obtain t where "acquiresleep l s [] = Block t" "p_state (proc_at t i) = SLEEPING"
      "p_chan (proc_at t i) = Some (slk_chan l)" "ss_locks t = ss_locks s" "pt_inv t"
      "holds LPtable t" "\<forall>k. k \<noteq> LPtable \<longrightarrow> lk_locked (m_locks t k) = 0"
    by (rule acquiresleep_blocks [OF assms False])
  then show ?thesis using False by simp
qed

definition small_ss :: sstate where
  "small_ss = pstate.extend small \<lparr>ss_locks = (\<lambda>l. \<lparr>slk_locked = (if l = SBuf 0 then 1 else 0), slk_name = [], slk_pid = 0\<rparr>)\<rparr>"

lemma small_ss_ok: "in_proc 0 small_ss" "ncli small_ss = 0" "lk_locked (m_locks small_ss l) = 0" "quiescent 0 small_ss"
proof -
  have m: "m_cpus small_ss = m_cpus small" "m_lapicid small_ss = m_lapicid small" "m_if small_ss = m_if small"
      "m_locks small_ss = m_locks small" "pt_proc small_ss = pt_proc small" "pt_bfs small_ss = pt_bfs small"
      "pt_nextpid small_ss = pt_nextpid small"
    by (simp_all add: small_ss_def pstate.defs)
  have "self small_ss = self small" using m by (simp add: self_def)
  then have "mine small_ss = mine small" "ncli small_ss = ncli small" "cpu_ok small_ss" "cur small_ss = Some 0" "pt_inv small_ss"
    using m small_fields small_inv by (simp_all add: mine_def ncli_def cpu_ok_def cur_def pt_inv_def)
  then show "in_proc 0 small_ss" "ncli small_ss = 0" "lk_locked (m_locks small_ss l) = 0" "quiescent 0 small_ss"
    using m small_fields small_in_proc by (auto simp: in_proc_def quiescent_def sample_table_def)
qed

text \<open>The same system with process 3 on the CPU.\<close>

definition small_other :: "(slockid \<Rightarrow> sleeplock) \<Rightarrow> sstate" where
  "small_other ls = small_ss\<lparr>m_cpus := [\<lparr>c_apicid = 0, c_ncli = 0, c_intena = 0, c_proc = Some 2\<rparr>], ss_locks := ls\<rparr>"

lemma small_other_ok: "quiescent 2 (small_other ls)" "ss_locks (small_other ls) = ls"
  "p_pid (proc_at (small_other ls) 2) = 3" "p_pid (proc_at small_ss 0) = 1"
proof -
  have m: "m_lapicid small_ss = 0" "m_locks small_ss = m_locks small" "pt_proc small_ss = sample_table"
    by (simp_all add: small_ss_def pstate.defs small_fields)
       (simp add: small_def vmstate.defs boot_vm_def constate.defs boot_con_def kstate.defs boot_kmem_def machine.defs one_cpu_def)
  then have "self (small_other ls) = Some 0" by (simp add: small_other_def self_def)
  then show "quiescent 2 (small_other ls)"
    using m sample_table_nth(1) small_fields(9)
    by (simp add: quiescent_def cpu_ok_def cur_def ncli_def mine_def small_other_def)
  show "ss_locks (small_other ls) = ls" "p_pid (proc_at (small_other ls) 2) = 3" "p_pid (proc_at small_ss 0) = 1"
    using m sample_pid [of 2] sample_pid [of 0] by (simp_all add: small_other_def)
qed

theorem sleeplock_excludes_witness:
  "(\<exists>t. acquiresleep (SBuf 0) small_ss [] = Block t) \<and>
   (\<exists>s'. kseq (acquiresleep (SBuf 1)) (kbind (holdingsleep (SBuf 1)) (\<lambda>a. kseq (releasesleep (SBuf 1))
      (kbind (holdingsleep (SBuf 1)) (\<lambda>b. kret (a, b))))) small_ss [] = Ret (True, False) s' []) \<and>
   (\<exists>t u'. acquiresleep (SBuf 1) small_ss [] = Ret () t [] \<and>
      holdingsleep (SBuf 1) (small_other (ss_locks t)) [] = Ret False u' [])"
proof -
  have l: "slk_locked (ss_locks small_ss (SBuf 0)) \<noteq> 0" "slk_locked (ss_locks small_ss (SBuf 1)) = 0"
    by (simp_all add: small_ss_def pstate.defs)
  note taken = sleeplock_excludes [OF small_ss_ok(1-3), of "SBuf 0" "[]" "[]", unfolded if_not_P [OF l(1)]]
  note free = sleeplock_excludes [OF small_ss_ok(1-3), of "SBuf 1" "[]" "[]", unfolded if_P [OF l(2)]]
  obtain t where t: "acquiresleep (SBuf 1) small_ss [] = Ret () t []"
    "\<And>j (u :: sstate). quiescent j u \<Longrightarrow> ss_locks u = ss_locks t \<Longrightarrow> p_pid (proc_at u j) \<noteq> p_pid (proc_at small_ss 0) \<Longrightarrow>
      \<exists>u'. holdingsleep (SBuf 1) u [] = Ret False u' []"
    using free by blast
  have "\<exists>u'. holdingsleep (SBuf 1) (small_other (ss_locks t)) [] = Ret False u' []"
    by (rule t(2) [OF small_other_ok(1,2)]) (simp add: small_other_ok(3,4))
  then show ?thesis using taken free t(1) by blast
qed

end
