(* ===== verification/Bio.thy ===== *)
theory Bio
  imports Sleeplock
begin

unbundle bit_operations_syntax

text \<open>
  The buffer cache, \<^verbatim>\<open>bio.c\<close>, on top of the memory disk of \<^verbatim>\<open>memide.c\<close>, with which the build target
  \<^verbatim>\<open>kernelmemfs\<close> replaces the driver \<^verbatim>\<open>ide.c\<close> of the default kernel. Both drivers offer \<^verbatim>\<open>iderw\<close>, which
  reads or writes one block and then has the buffer valid and clean. Buffers are linked into a ring
  in order of use; element \<^verbatim>\<open>NBUF\<close> of \<open>bc_buf\<close> is \<^verbatim>\<open>bcache.head\<close>. It is shown that the walks through
  the ring end, that no block has two buffers, and that \<^verbatim>\<open>bread\<close> returns the current content of a
  block: what the cache holds, or else what the disk holds.
\<close>

section \<open>State\<close>

definition NBUF :: nat where "NBUF = 30"
definition BSIZE :: nat where "BSIZE = 512"
definition B_VALID :: "32 word" where "B_VALID = 2"
definition B_DIRTY :: "32 word" where "B_DIRTY = 4"

record buf =
  b_flags :: "32 word"
  b_dev :: "32 word"
  b_blockno :: "32 word"
  b_refcnt :: "32 word"
  b_prev :: nat
  b_next :: nat
  b_data :: "8 word list"

text \<open>
  \<open>dk_img\<close> and \<open>dk_imgsize\<close> are the file system image linked into the kernel, by block, and its size
  in bytes; \<open>dk_size\<close> is \<^verbatim>\<open>disksize\<close>. \<open>dk_trace\<close> records the blocks written, oldest first: it is not a
  variable of the kernel, and is there to speak about the order of the writes.
\<close>

record bstate = sstate +
  bc_buf :: "buf list"
  dk_img :: "nat \<Rightarrow> 8 word list"
  dk_imgsize :: "32 word"
  dk_size :: int
  dk_trace :: "(nat \<times> 8 word list) list"

abbreviation buf_at :: "'a bstate_scheme \<Rightarrow> nat \<Rightarrow> buf" where
  "buf_at s b \<equiv> bc_buf s ! b"

definition up_buf :: "nat \<Rightarrow> (buf \<Rightarrow> buf) \<Rightarrow> 'a bstate_scheme \<Rightarrow> 'a bstate_scheme" where
  "up_buf b f s = s\<lparr>bc_buf := (bc_buf s)[b := f (buf_at s b)]\<rparr>"

section \<open>The disk\<close>

definition ideinit :: "(unit, 'a bstate_scheme) kern" where
  "ideinit = kmod (\<lambda>s. s\<lparr>dk_size := uint (dk_imgsize s div of_nat BSIZE)\<rparr>)"

definition ideintr :: "(unit, 'a bstate_scheme) kern" where
  "ideintr = kret ()"

definition put_block :: "nat \<Rightarrow> 8 word list \<Rightarrow> 'a bstate_scheme \<Rightarrow> 'a bstate_scheme" where
  "put_block p x s = s\<lparr>dk_img := (dk_img s)(p := x), dk_trace := dk_trace s @ [(p, x)]\<rparr>"

definition iderw :: "nat \<Rightarrow> (unit, 'a bstate_scheme) kern" where
  "iderw b =
     kbind (holdingsleep (SBuf b)) (\<lambda>h. if \<not> h then panic ''iderw: buf not locked'' else
     kget (\<lambda>s.
     if b_flags (buf_at s b) AND (B_VALID OR B_DIRTY) = B_VALID then panic ''iderw: nothing to do''
     else if b_dev (buf_at s b) \<noteq> 1 then panic ''iderw: request not for disk 1''
     else if b_blockno (buf_at s b) \<ge> word_of_int (dk_size s) then panic ''iderw: block out of range''
     else let p = unat (b_blockno (buf_at s b)) in
     kseq (if b_flags (buf_at s b) AND B_DIRTY \<noteq> 0
       then kseq (kmod (up_buf b (\<lambda>k. k\<lparr>b_flags := b_flags k AND NOT B_DIRTY\<rparr>)))
         (kmod (\<lambda>s. put_block p (b_data (buf_at s b)) s))
       else kmod (\<lambda>s. up_buf b (\<lambda>k. k\<lparr>b_data := dk_img s p\<rparr>) s))
     (kmod (up_buf b (\<lambda>k. k\<lparr>b_flags := b_flags k OR B_VALID\<rparr>)))))"

section \<open>Operations\<close>

text \<open>The four assignments that put a buffer behind the head, in two halves, and the two that take it out.\<close>

definition link_self :: "nat \<Rightarrow> 'a bstate_scheme \<Rightarrow> 'a bstate_scheme" where
  "link_self b s =
     (let s = up_buf b (\<lambda>k. k\<lparr>b_next := b_next (buf_at s NBUF)\<rparr>) s
      in up_buf b (\<lambda>k. k\<lparr>b_prev := NBUF\<rparr>) s)"

definition link_head :: "nat \<Rightarrow> 'a bstate_scheme \<Rightarrow> 'a bstate_scheme" where
  "link_head b s =
     (let s = up_buf (b_next (buf_at s NBUF)) (\<lambda>k. k\<lparr>b_prev := b\<rparr>) s
      in up_buf NBUF (\<lambda>k. k\<lparr>b_next := b\<rparr>) s)"

definition unlink_buf :: "nat \<Rightarrow> 'a bstate_scheme \<Rightarrow> 'a bstate_scheme" where
  "unlink_buf b s =
     (let s = up_buf (b_next (buf_at s b)) (\<lambda>k. k\<lparr>b_prev := b_prev (buf_at s b)\<rparr>) s
      in up_buf (b_prev (buf_at s b)) (\<lambda>k. k\<lparr>b_next := b_next (buf_at s b)\<rparr>) s)"

definition binit :: "(unit, 'a bstate_scheme) kern" where
  "binit =
     kseq (initlock LBcache ''bcache'') (
     kseq (kmod (up_buf NBUF (\<lambda>k. k\<lparr>b_prev := NBUF\<rparr>))) (
     kseq (kmod (up_buf NBUF (\<lambda>k. k\<lparr>b_next := NBUF\<rparr>))) (
     kfor [0..<NBUF] (\<lambda>b.
       kseq (kmod (link_self b)) (
       kseq (initsleeplock (SBuf b) ''buffer'')
       (kmod (link_head b)))))))"

text \<open>
  A walk through the ring up to the head, by \<^verbatim>\<open>next\<close> or by \<^verbatim>\<open>prev\<close>. A ring that is not closed would be
  walked for ever; one step more than there are buffers is enough on a proper one.
\<close>

primrec walk :: "nat \<Rightarrow> (nat \<Rightarrow> nat) \<Rightarrow> (nat \<Rightarrow> bool) \<Rightarrow> nat \<Rightarrow> nat option option" where
  "walk 0 link P b = None"
| "walk (Suc k) link P b =
     (if b = NBUF then Some None else if P b then Some (Some b) else walk k link P (link b))"

definition bget :: "32 word \<Rightarrow> 32 word \<Rightarrow> (nat, 'a bstate_scheme) kern" where
  "bget dev blockno =
     kseq (acquire LBcache) (
     kget (\<lambda>s. kbind (kopt (walk (NBUF + 1) (\<lambda>b. b_next (buf_at s b))
         (\<lambda>b. b_dev (buf_at s b) = dev \<and> b_blockno (buf_at s b) = blockno) (b_next (buf_at s NBUF)))) (\<lambda>r.
     case r of
       Some b \<Rightarrow>
         kseq (kmod (up_buf b (\<lambda>k. k\<lparr>b_refcnt := b_refcnt k + 1\<rparr>))) (
         kseq (release LBcache) (
         kseq (acquiresleep (SBuf b))
         (kret b)))
     | None \<Rightarrow>
         kget (\<lambda>s. kbind (kopt (walk (NBUF + 1) (\<lambda>b. b_prev (buf_at s b))
           (\<lambda>b. b_refcnt (buf_at s b) = 0 \<and> b_flags (buf_at s b) AND B_DIRTY = 0) (b_prev (buf_at s NBUF)))) (\<lambda>r.
         case r of
           Some b \<Rightarrow>
             kseq (kmod (up_buf b (\<lambda>k. k\<lparr>b_dev := dev, b_blockno := blockno, b_flags := 0, b_refcnt := 1\<rparr>))) (
             kseq (release LBcache) (
             kseq (acquiresleep (SBuf b))
             (kret b)))
         | None \<Rightarrow> panic ''bget: no buffers'')))))"

definition bread :: "32 word \<Rightarrow> 32 word \<Rightarrow> (nat, 'a bstate_scheme) kern" where
  "bread dev blockno =
     kbind (bget dev blockno) (\<lambda>b. kget (\<lambda>s.
     kseq (kwhen (b_flags (buf_at s b) AND B_VALID = 0) (iderw b))
     (kret b)))"

definition bwrite :: "nat \<Rightarrow> (unit, 'a bstate_scheme) kern" where
  "bwrite b =
     kbind (holdingsleep (SBuf b)) (\<lambda>h. if \<not> h then panic ''bwrite'' else
     kseq (kmod (up_buf b (\<lambda>k. k\<lparr>b_flags := b_flags k OR B_DIRTY\<rparr>)))
     (iderw b))"

definition brelse :: "nat \<Rightarrow> (unit, 'a bstate_scheme) kern" where
  "brelse b =
     kbind (holdingsleep (SBuf b)) (\<lambda>h. if \<not> h then panic ''brelse'' else
     kseq (releasesleep (SBuf b)) (
     kseq (acquire LBcache) (
     kseq (kmod (up_buf b (\<lambda>k. k\<lparr>b_refcnt := b_refcnt k - 1\<rparr>))) (
     kseq (kget (\<lambda>s. kwhen (b_refcnt (buf_at s b) = 0) (kmod (\<lambda>s. link_head b (link_self b (unlink_buf b s))))))
     (release LBcache)))))"

lemma shrinks_bio [shrinks_intros]:
  "shrinks (iderw b)" "shrinks (bget d n)" "shrinks (bread d n)" "shrinks (bwrite b)" "shrinks (brelse b)"
  unfolding iderw_def bget_def bread_def bwrite_def brelse_def Let_def
  by (intro shrinks_intros)+

section \<open>The ring\<close>

text \<open>From \<open>a\<close> along \<open>xs\<close> to \<open>z\<close>, with both links right.\<close>

primrec chain :: "(nat \<Rightarrow> nat) \<Rightarrow> (nat \<Rightarrow> nat) \<Rightarrow> nat \<Rightarrow> nat list \<Rightarrow> nat \<Rightarrow> bool" where
  "chain nx pv a [] z \<longleftrightarrow> nx a = z \<and> pv z = a"
| "chain nx pv a (x # xs) z \<longleftrightarrow> nx a = x \<and> pv x = a \<and> chain nx pv x xs z"

lemma chain_append: "chain nx pv a (us @ x # vs) z \<longleftrightarrow> chain nx pv a us x \<and> chain nx pv x vs z"
  by (induction us arbitrary: a) auto

lemma chain_rev: "chain nx pv a xs z \<Longrightarrow> chain pv nx z (rev xs) a"
  by (induction xs arbitrary: a) (auto simp: chain_append)

lemma chain_cong:
  "(\<And>y. y \<in> set (a # xs) \<Longrightarrow> nx' y = nx y) \<Longrightarrow> (\<And>y. y \<in> set (xs @ [z]) \<Longrightarrow> pv' y = pv y) \<Longrightarrow>
    chain nx' pv' a xs z = chain nx pv a xs z"
  by (induction xs arbitrary: a) auto

lemma chain_first: "chain nx pv a xs z \<Longrightarrow> nx a = hd (xs @ [z])"
  by (cases xs) auto

lemma chain_last: "chain nx pv a xs z \<Longrightarrow> pv z = last (a # xs)"
  by (induction xs arbitrary: a) auto

lemma chain_walk:
  assumes "chain nx pv a xs NBUF" and "NBUF \<notin> set xs" and "length xs < k"
  shows "walk k nx P (nx a) = Some (List.find P xs)"
  using assms
proof (induction xs arbitrary: a k)
  case Nil
  then show ?case by (cases k) auto
next
  case (Cons x xs)
  then show ?case by (cases k) auto
qed

lemma chain_upt:
  "a < z \<Longrightarrow> (\<And>j. a \<le> j \<Longrightarrow> j < z \<Longrightarrow> nx j = Suc j) \<Longrightarrow> (\<And>j. a < j \<Longrightarrow> j \<le> z \<Longrightarrow> pv j = j - 1) \<Longrightarrow> chain nx pv a [Suc a..<z] z"
proof (induction "z - a" arbitrary: a)
  case (Suc k)
  show ?case
  proof (cases "Suc a = z")
    case False
    then have "chain nx pv (Suc a) [Suc (Suc a)..<z] z" using Suc by (intro Suc.hyps(1)) auto
    then show ?thesis using False Suc.prems by (simp add: upt_conv_Cons)
  qed (use Suc.prems in auto)
qed simp

lemma chain_unlink:
  assumes "chain nx pv a (us @ b # vs) z" and "distinct (a # us @ b # vs)" and "z \<notin> set (us @ b # vs)"
  shows "chain (nx(pv b := nx b)) (pv(nx b := pv b)) a (us @ vs) z"
proof -
  have l: "chain nx pv a us b" and r: "chain nx pv b vs z" using assms(1) by (auto simp: chain_append)
  have p: "pv b = last (a # us)" and n: "nx b = hd (vs @ [z])"
    using chain_last [OF l] chain_first [OF r] by auto
  have mem: "pv b \<in> set (a # us)" unfolding p by (rule last_in_set) simp
  show ?thesis
  proof (cases vs)
    case Nil
    show ?thesis
    proof (cases us rule: rev_cases)
      case Nil
      then show ?thesis using \<open>vs = []\<close> l r assms by auto
    next
      case (snoc us' u)
      then have "chain nx pv a us' u" "pv b = u" "nx b = z" using l r \<open>vs = []\<close> by (auto simp: chain_append)
      moreover have "chain (nx(u := z)) (pv(z := u)) a us' u = chain nx pv a us' u"
        by (rule chain_cong) (use snoc assms(2,3) in auto)
      ultimately show ?thesis using snoc \<open>vs = []\<close> by (simp add: chain_append)
    qed
  next
    case (Cons v vs')
    have v: "nx b = v" "pv v = b" "chain nx pv v vs' z" using r Cons by auto
    have "chain (nx(pv b := v)) (pv(v := pv b)) v vs' z = chain nx pv v vs' z"
      by (rule chain_cong) (use assms(2,3) Cons mem in auto)
    then have R: "chain (nx(pv b := v)) (pv(v := pv b)) v vs' z" using v by simp
    show ?thesis
    proof (cases us rule: rev_cases)
      case Nil
      then show ?thesis using Cons v R l by auto
    next
      case (snoc us' u)
      then have "chain nx pv a us' u" "pv b = u" using l by (auto simp: chain_append)
      moreover have "chain (nx(u := v)) (pv(v := u)) a us' u = chain nx pv a us' u"
        by (rule chain_cong) (use snoc Cons assms(2,3) in auto)
      ultimately show ?thesis using R Cons snoc v \<open>pv b = u\<close> by (simp add: chain_append)
    qed
  qed
qed

lemma chain_link:
  assumes "chain nx pv a xs z" and "b \<notin> set (a # xs @ [z])" and "distinct (a # xs)" and "z \<notin> set xs"
  shows "chain (nx(b := nx a, a := b)) (pv(b := a, nx a := b)) a (b # xs) z"
proof (cases xs)
  case Nil
  then show ?thesis using assms by auto
next
  case (Cons x ys)
  then have x: "nx a = x" "pv x = a" "chain nx pv x ys z" using assms(1) by auto
  have "chain (nx(b := x, a := b)) (pv(b := a, x := b)) x ys z = chain nx pv x ys z"
    by (rule chain_cong) (use assms Cons in auto)
  then show ?thesis using assms x Cons by auto
qed

lemma find_SomeD: "List.find P xs = Some b \<Longrightarrow> b \<in> set xs \<and> P b"
  by (induction xs) (auto split: if_splits)

definition nxt :: "'a bstate_scheme \<Rightarrow> nat \<Rightarrow> nat" where
  "nxt s = (\<lambda>b. b_next (buf_at s b))"

definition prv :: "'a bstate_scheme \<Rightarrow> nat \<Rightarrow> nat" where
  "prv s = (\<lambda>b. b_prev (buf_at s b))"

definition ring :: "'a bstate_scheme \<Rightarrow> nat list \<Rightarrow> bool" where
  "ring s xs \<longleftrightarrow> chain (nxt s) (prv s) NBUF xs NBUF \<and> distinct xs \<and> set xs = {0..<NBUF}"

lemma up_buf_fields [simp]:
  "length (bc_buf (up_buf c f s)) = length (bc_buf s)" "dk_img (up_buf c f s) = dk_img s"
  "dk_size (up_buf c f s) = dk_size s" "dk_trace (up_buf c f s) = dk_trace s" "ss_locks (up_buf c f s) = ss_locks s"
  "dk_imgsize (up_buf c f s) = dk_imgsize s"
  by (simp_all add: up_buf_def)

lemma up_slock_bstate [simp]:
  "bc_buf (up_slock l g s) = bc_buf s" "dk_img (up_slock l g s) = dk_img s" "dk_size (up_slock l g s) = dk_size s"
  "dk_trace (up_slock l g s) = dk_trace s"
  by (simp_all add: up_slock_def)

lemma buf_at_up_buf: "buf_at (up_buf c f s) b = (if b = c \<and> c < length (bc_buf s) then f (buf_at s c) else buf_at s b)"
  by (cases "c < length (bc_buf s)") (auto simp: up_buf_def nth_list_update list_update_beyond)

lemma buf_at_same [simp]: "c < length (bc_buf s) \<Longrightarrow> buf_at (up_buf c f s) c = f (buf_at s c)"
  by (simp add: up_buf_def)

lemma buf_at_other [simp]: "b \<noteq> c \<Longrightarrow> buf_at (up_buf c f s) b = buf_at s b"
  by (simp add: up_buf_def)

lemma links_up_next [simp]:
  "c < length (bc_buf s) \<Longrightarrow> nxt (up_buf c (\<lambda>k. k\<lparr>b_next := v\<rparr>) s) = (nxt s)(c := v)"
  "prv (up_buf c (\<lambda>k. k\<lparr>b_next := v\<rparr>) s) = prv s"
  by (auto simp: nxt_def prv_def buf_at_up_buf)

lemma links_up_prev [simp]:
  "c < length (bc_buf s) \<Longrightarrow> prv (up_buf c (\<lambda>k. k\<lparr>b_prev := v\<rparr>) s) = (prv s)(c := v)"
  "nxt (up_buf c (\<lambda>k. k\<lparr>b_prev := v\<rparr>) s) = nxt s"
  by (auto simp: nxt_def prv_def buf_at_up_buf)

lemma links_fold: "b_next (buf_at s b) = nxt s b" "b_prev (buf_at s b) = prv s b"
  by (simp_all add: nxt_def prv_def)

lemma ring_mem:
  assumes "chain nx pv a xs z" and "b \<in> set (a # xs)"
  shows "nx b \<in> set (xs @ [z])"
  using assms by (induction xs arbitrary: a) auto

lemma ring_bounds:
  assumes "ring s xs" and "b \<le> NBUF"
  shows "nxt s b \<le> NBUF" "prv s b \<le> NBUF"
proof -
  have c: "chain (nxt s) (prv s) NBUF xs NBUF" and xs: "set xs = {0..<NBUF}" using assms(1) by (auto simp: ring_def)
  have b: "b \<in> set (NBUF # xs)" "b \<in> set (NBUF # rev xs)" using assms(2) xs by auto
  show "nxt s b \<le> NBUF" "prv s b \<le> NBUF"
    using ring_mem [OF c b(1)] ring_mem [OF chain_rev [OF c] b(2)] xs by auto
qed

lemma ring_walk:
  assumes "ring s xs"
  shows "walk (NBUF + 1) (\<lambda>b. b_next (buf_at s b)) P (b_next (buf_at s NBUF)) = Some (List.find P xs)"
    "walk (NBUF + 1) (\<lambda>b. b_prev (buf_at s b)) P (b_prev (buf_at s NBUF)) = Some (List.find P (rev xs))"
proof -
  have c: "chain (nxt s) (prv s) NBUF xs NBUF" and xs: "distinct xs" "set xs = {0..<NBUF}" using assms by (auto simp: ring_def)
  have "length xs = NBUF" using distinct_card [OF xs(1)] xs(2) by simp
  then show "walk (NBUF + 1) (\<lambda>b. b_next (buf_at s b)) P (b_next (buf_at s NBUF)) = Some (List.find P xs)"
    "walk (NBUF + 1) (\<lambda>b. b_prev (buf_at s b)) P (b_prev (buf_at s NBUF)) = Some (List.find P (rev xs))"
    using chain_walk [OF c] chain_walk [OF chain_rev [OF c]] xs(2)
    by (simp_all add: nxt_def prv_def del: walk.simps)
qed

definition relinked :: "nat \<Rightarrow> 'a bstate_scheme \<Rightarrow> 'a bstate_scheme" where
  "relinked b s = link_head b (link_self b (unlink_buf b s))"

lemma ring_relinked:
  assumes "ring s xs" and "b < NBUF" and len: "length (bc_buf s) = NBUF + 1"
  shows "ring (relinked b s) (b # remove1 b xs)"
proof -
  have b: "b \<in> set xs" and d: "distinct xs" using assms by (auto simp: ring_def)
  obtain us vs where xs: "xs = us @ b # vs" using split_list [OF b] by blast
  have c: "chain (nxt s) (prv s) NBUF (us @ b # vs) NBUF" using assms(1) xs by (simp add: ring_def)
  have N: "NBUF \<notin> set (us @ b # vs)" using assms(1) xs by (auto simp: ring_def)
  have lt: "nxt s b < NBUF + 1" "prv s b < NBUF + 1" using ring_bounds [OF assms(1), of b] assms(2) by auto
  have ne: "nxt s b \<noteq> b" "prv s b \<noteq> b"
    using ring_mem [of "nxt s" "prv s" b vs NBUF b] ring_mem [OF chain_rev, of "nxt s" "prv s" NBUF us b b]
      c d xs N assms(2) by (auto simp: chain_append)
  let ?u = "unlink_buf b s"
  have u: "nxt ?u = (nxt s)(prv s b := nxt s b)" "prv ?u = (prv s)(nxt s b := prv s b)"
    "length (bc_buf ?u) = NBUF + 1"
    using lt ne len by (simp_all add: unlink_buf_def links_fold Let_def)
  have cu: "chain (nxt ?u) (prv ?u) NBUF (us @ vs) NBUF"
    unfolding u using chain_unlink [OF c] d xs N by auto
  have low: "\<forall>x \<in> set (us @ b # vs). x < NBUF" using assms(1) xs by (simp add: ring_def)
  have first: "nxt ?u NBUF < NBUF + 1"
  proof -
    have "nxt ?u NBUF \<in> set ((us @ vs) @ [NBUF])" by (rule ring_mem [OF cu]) simp
    then have "nxt ?u NBUF \<in> set (us @ b # vs) \<or> nxt ?u NBUF = NBUF" by auto
    then show ?thesis using low by (metis less_Suc_eq Suc_eq_plus1)
  qed
  have "nxt (relinked b s) = (nxt ?u)(b := nxt ?u NBUF, NBUF := b)"
    "prv (relinked b s) = (prv ?u)(b := NBUF, nxt ?u NBUF := b)"
    using first u(3) assms(2) by (simp_all add: relinked_def link_head_def link_self_def links_fold)
  then have "chain (nxt (relinked b s)) (prv (relinked b s)) NBUF (b # us @ vs) NBUF"
    using chain_link [OF cu, of b] assms(2) N d xs by auto
  moreover have "b # remove1 b xs = b # us @ vs" using d xs by (simp add: remove1_append)
  moreover have "set (b # us @ vs) = {0..<NBUF}" using assms(1) xs by (auto simp: ring_def)
  ultimately show ?thesis using d xs by (auto simp: ring_def)
qed

definition core :: "buf \<Rightarrow> buf" where
  "core k = k\<lparr>b_prev := 0, b_next := 0\<rparr>"

lemma core_fields: "core k = core k' \<Longrightarrow> b_flags k = b_flags k' \<and> b_dev k = b_dev k' \<and> b_blockno k = b_blockno k' \<and>
    b_refcnt k = b_refcnt k' \<and> b_data k = b_data k'"
  by (cases k; cases k') (simp add: core_def)

lemma core_up_buf: "(\<And>k. core (f k) = core k) \<Longrightarrow> core (buf_at (up_buf c f s) j) = core (buf_at s j)"
  by (simp add: buf_at_up_buf)

lemma core_links [simp]: "core (k\<lparr>b_prev := x\<rparr>) = core k" "core (k\<lparr>b_next := x\<rparr>) = core k"
  by (simp_all add: core_def)

lemma relinked_keeps:
  "core (buf_at (relinked b s) j) = core (buf_at s j)" "length (bc_buf (relinked b s)) = length (bc_buf s)"
  "dk_img (relinked b s) = dk_img s" "dk_size (relinked b s) = dk_size s" "dk_trace (relinked b s) = dk_trace s"
  "ss_locks (relinked b s) = ss_locks s"
  by (simp_all add: relinked_def link_head_def link_self_def unlink_buf_def Let_def core_up_buf)

section \<open>Bookkeeping of the locks and wakeups\<close>

lemma section_bc [simp]:
  "acquired l (s\<lparr>bc_buf := x\<rparr>) = (acquired l s)\<lparr>bc_buf := x\<rparr>"
  "released l (s\<lparr>bc_buf := x\<rparr>) = (released l s)\<lparr>bc_buf := x\<rparr>"
  by (simp_all add: acquired_def released_def up_lock_def pushed_def popped_def up_cpu_def ncli_def mine_def self_def)

lemma bc_section [simp]: "bc_buf (acquired l s) = bc_buf s" "bc_buf (released l s) = bc_buf s"
  by (simp_all add: acquired_def released_def up_lock_def pushed_def popped_def up_cpu_def)

lemma section_up_buf [simp]:
  "acquired l (up_buf b f s) = up_buf b f (acquired l s)" "released l (up_buf b f s) = up_buf b f (released l s)"
  by (simp_all add: up_buf_def)

lemma up_buf_machine [simp]:
  "self (up_buf b f s) = self s" "mine (up_buf b f s) = mine s" "ncli (up_buf b f s) = ncli s"
  "cpu_ok (up_buf b f s) = cpu_ok s" "holds k (up_buf b f s) = holds k s" "cur (up_buf b f s) = cur s"
  "m_locks (up_buf b f s) = m_locks s" "pt_proc (up_buf b f s) = pt_proc s"
  by (simp_all add: up_buf_def self_def mine_def ncli_def cpu_ok_def holds_def cur_def)

lemma quiescent_up_buf [simp]: "quiescent i (up_buf b f s) = quiescent i s"
  by (simp add: quiescent_def)

lemma calm_bstate:
  assumes "calm s s'"
  shows "bc_buf s' = bc_buf s" "dk_img s' = dk_img s" "dk_imgsize s' = dk_imgsize s" "dk_size s' = dk_size s"
    "dk_trace s' = dk_trace s"
  using calm_fields(9) [OF assms] by (cases s; cases s'; simp)+

lemma calm_bc:
  assumes "calm s s'"
  shows "calm (s\<lparr>bc_buf := x\<rparr>) (s'\<lparr>bc_buf := x\<rparr>)"
proof -
  have "same_locks (s\<lparr>bc_buf := x\<rparr>) (s'\<lparr>bc_buf := x\<rparr>)"
    using calm_fields(1) [OF assms] by (simp cong: same_locks_cong)
  then show ?thesis using assms by (cases s; cases s') (simp add: calm_def)
qed

lemma calm_dk:
  assumes "calm s s'"
  shows "calm (s\<lparr>dk_img := x, dk_trace := y\<rparr>) (s'\<lparr>dk_img := x, dk_trace := y\<rparr>)"
proof -
  have "same_locks (s\<lparr>dk_img := x, dk_trace := y\<rparr>) (s'\<lparr>dk_img := x, dk_trace := y\<rparr>)"
    using calm_fields(1) [OF assms] by (simp cong: same_locks_cong)
  then show ?thesis using assms by (cases s; cases s') (simp add: calm_def)
qed

lemma calm_up_buf: "calm s s' \<Longrightarrow> calm (up_buf b f s) (up_buf b f s')"
  using calm_bstate(1) [of s s'] by (simp add: up_buf_def calm_bc)

lemma calm_links:
  assumes "calm s s'"
  shows "calm (unlink_buf b s) (unlink_buf b s')" "calm (link_self b s) (link_self b s')"
    "calm (link_head b s) (link_head b s')"
proof -
  have eq: "bc_buf s' = bc_buf s" by (rule calm_bstate(1) [OF assms])
  have up: "calm (up_buf c f s) (up_buf c f s')" "bc_buf (up_buf c f s') = bc_buf (up_buf c f s)" for c f
    using calm_up_buf [OF assms] calm_bstate(1) by blast+
  show "calm (unlink_buf b s) (unlink_buf b s')" "calm (link_self b s) (link_self b s')"
    "calm (link_head b s) (link_head b s')"
    unfolding unlink_buf_def link_self_def link_head_def Let_def eq up(2) by (intro calm_up_buf assms)+
qed

lemma calm_relinked: "calm s s' \<Longrightarrow> calm (relinked b s) (relinked b s')"
  unfolding relinked_def by (intro calm_links)

lemma relinked_section [simp]: "released l (relinked b s) = relinked b (released l s)"
  by (simp add: relinked_def link_head_def link_self_def unlink_buf_def Let_def) (simp add: up_buf_def)

lemma relinked_machine [simp]:
  "cpu_ok (relinked b s) = cpu_ok s" "holds k (relinked b s) = holds k s" "cur (relinked b s) = cur s"
  "m_locks (relinked b s) = m_locks s" "pt_proc (relinked b s) = pt_proc s" "ncli (relinked b s) = ncli s"
  "self (relinked b s) = self s"
  by (simp_all add: relinked_def link_head_def link_self_def unlink_buf_def Let_def)

section \<open>What the operations do\<close>

definition valid :: "buf \<Rightarrow> bool" where
  "valid k \<longleftrightarrow> b_flags k AND B_VALID \<noteq> 0"

definition dirty :: "buf \<Rightarrow> bool" where
  "dirty k \<longleftrightarrow> b_flags k AND B_DIRTY \<noteq> 0"

lemma flags_nonzero [simp]: "B_VALID \<noteq> 0" "B_DIRTY \<noteq> 0"
  by (simp_all add: B_VALID_def B_DIRTY_def)

lemma bit_flags: "bit B_VALID n \<longleftrightarrow> n = Suc 0" "bit B_DIRTY n \<longleftrightarrow> n = 2"
proof -
  have "bit (2 ^ 1 :: 32 word) n \<longleftrightarrow> n = Suc 0" "bit (2 ^ 2 :: 32 word) n \<longleftrightarrow> n = 2"
    unfolding bit_exp_iff by auto
  then show "bit B_VALID n \<longleftrightarrow> n = Suc 0" "bit B_DIRTY n \<longleftrightarrow> n = 2"
    by (simp_all add: B_VALID_def B_DIRTY_def)
qed

lemma flag_bits: "w AND B_VALID = 0 \<longleftrightarrow> \<not> bit w (Suc 0)" "w AND B_DIRTY = 0 \<longleftrightarrow> \<not> bit w 2"
  by (auto simp: bit_eq_iff [where 'a = "32 word"] bit_and_iff bit_flags dest: spec [of _ "Suc 0"] spec [of _ 2])

lemma flag_bit_tests:
  "bit (w OR B_DIRTY) (Suc 0) = bit w (Suc 0)" "bit (w OR B_DIRTY) 2" "bit (w OR B_VALID) (Suc 0)"
  "bit (w OR B_VALID) 2 = bit w 2" "bit (w AND NOT B_DIRTY) (Suc 0) = bit w (Suc 0)" "\<not> bit (w AND NOT B_DIRTY) 2"
  "bit B_VALID (Suc 0)" "\<not> bit B_VALID 2" "\<not> bit (0 :: 32 word) n"
  by (simp_all add: bit_or_iff bit_and_iff bit_not_iff bit_flags)

lemma flag_both: "w AND (B_VALID OR B_DIRTY) = B_VALID \<longleftrightarrow> bit w (Suc 0) \<and> \<not> bit w 2"
  by (auto simp: bit_eq_iff [where 'a = "32 word"] bit_and_iff bit_or_iff bit_flags dest: spec [of _ "Suc 0"] spec [of _ 2])

definition mine_slk :: "int \<Rightarrow> nat \<Rightarrow> 'a sstate_scheme \<Rightarrow> bool" where
  "mine_slk pid b s \<longleftrightarrow> slk_locked (ss_locks s (SBuf b)) \<noteq> 0 \<and> slk_pid (ss_locks s (SBuf b)) = pid"

abbreviation pid_of :: "nat \<Rightarrow> 'a pstate_scheme \<Rightarrow> int" where
  "pid_of i s \<equiv> p_pid (proc_at s i)"

lemma holding_mine:
  assumes "quiescent i s" and "mine_slk (pid_of i s) b s"
  obtains t where "holdingsleep (SBuf b) s rs = Ret True t rs" and "calm s t"
  using holdingsleep_run [OF assms(1), of "SBuf b" rs] assms(2) by (auto simp: mine_slk_def)

lemma iderw_read:
  assumes "quiescent i s" and "mine_slk (pid_of i s) b s" and "\<not> valid (buf_at s b)" and "\<not> dirty (buf_at s b)"
    and "b_dev (buf_at s b) = 1" and "b_blockno (buf_at s b) < word_of_int (dk_size s)" and "b < length (bc_buf s)"
  obtains s' where "iderw b s rs = Ret () s' rs"
    and "calm (up_buf b (\<lambda>k. k\<lparr>b_data := dk_img s (unat (b_blockno k)), b_flags := b_flags k OR B_VALID\<rparr>) s) s'"
proof -
  obtain t where t: "holdingsleep (SBuf b) s rs = Ret True t rs" "calm s t"
    by (rule holding_mine [OF assms(1,2)])
  note e = calm_bstate [OF t(2)]
  have b: "\<not> bit (b_flags (buf_at s b)) 1" "\<not> bit (b_flags (buf_at s b)) 2"
    using assms by (simp_all add: valid_def dirty_def flag_bits)
  have "iderw b s rs = Ret () (up_buf b (\<lambda>k. k\<lparr>b_flags := b_flags k OR B_VALID\<rparr>)
      (up_buf b (\<lambda>k. k\<lparr>b_data := dk_img t (unat (b_blockno (buf_at s b)))\<rparr>) t)) rs"
    using assms(5,6) b by (simp add: iderw_def t(1) e flag_both flag_bits Let_def not_le not_less)
  also have "up_buf b (\<lambda>k. k\<lparr>b_flags := b_flags k OR B_VALID\<rparr>)
      (up_buf b (\<lambda>k. k\<lparr>b_data := dk_img t (unat (b_blockno (buf_at s b)))\<rparr>) t)
    = up_buf b (\<lambda>k. k\<lparr>b_data := dk_img s (unat (b_blockno k)), b_flags := b_flags k OR B_VALID\<rparr>) t"
    using assms(7) by (simp add: up_buf_def e)
  finally show ?thesis using that calm_up_buf [OF t(2)] by blast
qed

definition synced :: "nat \<Rightarrow> 'a bstate_scheme \<Rightarrow> 'a bstate_scheme" where
  "synced b s = up_buf b (\<lambda>k. k\<lparr>b_flags := (b_flags k AND NOT B_DIRTY) OR B_VALID\<rparr>)
     (put_block (unat (b_blockno (buf_at s b))) (b_data (buf_at s b)) s)"

lemma calm_put_block: "calm s s' \<Longrightarrow> calm (put_block p x s) (put_block p x s')"
  using calm_bstate [of s s'] calm_dk [of s s'] by (simp add: put_block_def)

lemma calm_synced: "calm s s' \<Longrightarrow> calm (synced b s) (synced b s')"
  unfolding synced_def using calm_bstate(1) [of s s'] by (auto intro: calm_up_buf calm_put_block)

lemma iderw_write:
  assumes "quiescent i s" and "mine_slk (pid_of i s) b s" and "dirty (buf_at s b)"
    and "b_dev (buf_at s b) = 1" and "b_blockno (buf_at s b) < word_of_int (dk_size s)" and "b < length (bc_buf s)"
  obtains s' where "iderw b s rs = Ret () s' rs" and "calm (synced b s) s'"
proof -
  obtain t where t: "holdingsleep (SBuf b) s rs = Ret True t rs" "calm s t"
    by (rule holding_mine [OF assms(1,2)])
  note e = calm_bstate [OF t(2)]
  have b: "bit (b_flags (buf_at s b)) 2" using assms(3) by (simp add: dirty_def flag_bits)
  let ?w = "up_buf b (\<lambda>k. k\<lparr>b_flags := b_flags k AND NOT B_DIRTY\<rparr>) t"
  have d: "b_data (buf_at ?w b) = b_data (buf_at s b)" using assms(6) by (simp add: e)
  have "iderw b s rs = Ret () (up_buf b (\<lambda>k. k\<lparr>b_flags := b_flags k OR B_VALID\<rparr>)
      (put_block (unat (b_blockno (buf_at s b))) (b_data (buf_at s b)) ?w)) rs"
    unfolding d [symmetric]
    using assms(4,5) b by (simp add: iderw_def t(1) e(1,4) flag_both flag_bits Let_def not_le not_less)
  also have "up_buf b (\<lambda>k. k\<lparr>b_flags := b_flags k OR B_VALID\<rparr>)
      (put_block (unat (b_blockno (buf_at s b))) (b_data (buf_at s b)) ?w) = synced b t"
    using assms(6) by (simp add: up_buf_def synced_def put_block_def e(1))
  finally show ?thesis using that calm_synced [OF t(2)] by blast
qed

definition stored :: "nat \<Rightarrow> 'a bstate_scheme \<Rightarrow> 'a bstate_scheme" where
  "stored b s = synced b (up_buf b (\<lambda>k. k\<lparr>b_flags := b_flags k OR B_DIRTY\<rparr>) s)"

lemma bwrite_run:
  assumes "quiescent i s" and "mine_slk (pid_of i s) b s"
    and "b_dev (buf_at s b) = 1" and "b_blockno (buf_at s b) < word_of_int (dk_size s)" and "b < length (bc_buf s)"
  obtains s' where "bwrite b s rs = Ret () s' rs" and "calm (stored b s) s'"
proof -
  obtain t where t: "holdingsleep (SBuf b) s rs = Ret True t rs" "calm s t"
    by (rule holding_mine [OF assms(1,2)])
  let ?u = "up_buf b (\<lambda>k. k\<lparr>b_flags := b_flags k OR B_DIRTY\<rparr>) t"
  have q: "quiescent i ?u" using calm_quiescent [OF t(2) assms(1)] by simp
  have i: "i < length (pt_proc s)" using assms(1) by (simp add: quiescent_def)
  have m: "mine_slk (pid_of i ?u) b ?u"
    using assms(2) calm_slocks [OF t(2)] calm_pid(1) [OF t(2) i] by (simp add: mine_slk_def)
  note e = calm_bstate [OF t(2)]
  obtain v where v: "iderw b ?u rs = Ret () v rs" "calm (synced b ?u) v"
    by (rule iderw_write [OF q m, of rs]) (use assms(3-5) in \<open>simp_all add: e dirty_def flag_bits flag_bit_tests\<close>)
  have "bwrite b s rs = Ret () v rs" by (simp add: bwrite_def t(1) v(1))
  moreover have "calm (stored b s) v"
    using calm_trans [OF calm_synced [OF calm_up_buf [OF t(2)]] v(2)] by (simp add: stored_def)
  ultimately show ?thesis by (rule that)
qed

definition dropped :: "nat \<Rightarrow> 'a bstate_scheme \<Rightarrow> 'a bstate_scheme" where
  "dropped b s = relinked b (up_buf b (\<lambda>k. k\<lparr>b_refcnt := b_refcnt k - 1\<rparr>) (up_slock (SBuf b) given_up s))"

lemma brelse_run:
  assumes "quiescent i s" and "mine_slk (pid_of i s) b s" and "b_refcnt (buf_at s b) = 1" and "b < length (bc_buf s)"
  obtains s' where "brelse b s rs = Ret () s' rs" and "calm (dropped b s) s'"
proof -
  obtain t where t: "holdingsleep (SBuf b) s rs = Ret True t rs" "calm s t"
    by (rule holding_mine [OF assms(1,2)])
  have qt: "quiescent i t" by (rule calm_quiescent [OF t(2) assms(1)])
  obtain u where u: "releasesleep (SBuf b) t rs = Ret () u rs" "calm (up_slock (SBuf b) given_up t) u"
    by (rule releasesleep_run [OF qt])
  have su: "calm (up_slock (SBuf b) given_up s) u" by (rule calm_trans [OF calm_up_slock [OF t(2)] u(2)])
  have qu: "quiescent i u" using calm_quiescent [OF su] assms(1) by simp
  then have ok: "cpu_ok u" "self u \<noteq> None" "0 \<le> ncli u" "lk_locked (m_locks u LBcache) = 0"
    by (auto simp: quiescent_def cpu_ok_def)
  have bc: "bc_buf u = bc_buf s" using calm_bstate(1) [OF su] by (simp add: up_slock_def)
  let ?f = "\<lambda>k. k\<lparr>b_refcnt := b_refcnt k - 1\<rparr>" and ?a = "acquired LBcache u"
  have z: "b_refcnt (buf_at (up_buf b ?f ?a) b) = 0" using assms(3,4) bc by simp
  have "release LBcache (relinked b (up_buf b ?f ?a)) rs = Ret () (released LBcache (relinked b (up_buf b ?f ?a))) rs"
    using ok by (intro release_run) simp_all
  then have "brelse b s rs = Ret () (released LBcache (relinked b (up_buf b ?f ?a))) rs"
    using ok z by (simp add: brelse_def t(1) u(1) acquire_run relinked_def [symmetric])
  moreover have "released LBcache (relinked b (up_buf b ?f ?a)) = relinked b (up_buf b ?f (released LBcache ?a))" by simp
  moreover have "calm (dropped b s) (relinked b (up_buf b ?f (released LBcache ?a)))"
    unfolding dropped_def
    by (intro calm_relinked calm_up_buf calm_trans [OF su] calm_section [OF ok(1,4)])
  ultimately show ?thesis using that by simp
qed

text \<open>The two ways a buffer is obtained: it holds the block already, or an unused one is given to it.\<close>

definition hit :: "int \<Rightarrow> nat \<Rightarrow> 'a bstate_scheme \<Rightarrow> 'a bstate_scheme" where
  "hit pid b s = up_slock (SBuf b) (taken_by pid) (up_buf b (\<lambda>k. k\<lparr>b_refcnt := b_refcnt k + 1\<rparr>) s)"

definition miss :: "int \<Rightarrow> 32 word \<Rightarrow> 32 word \<Rightarrow> nat \<Rightarrow> 'a bstate_scheme \<Rightarrow> 'a bstate_scheme" where
  "miss pid dev blockno b s = up_slock (SBuf b) (taken_by pid)
     (up_buf b (\<lambda>k. k\<lparr>b_dev := dev, b_blockno := blockno, b_flags := 0, b_refcnt := 1\<rparr>) s)"

lemma get_section:
  assumes "quiescent i s" and "slk_locked (ss_locks s (SBuf b)) = 0"
  obtains s' where "kseq (kmod (up_buf b f)) (kseq (release LBcache) (kseq (acquiresleep (SBuf b)) (kret b)))
      (acquired LBcache s) rs = Ret b s' rs"
    and "calm (up_slock (SBuf b) (taken_by (pid_of i s)) (up_buf b f s)) s'"
proof -
  have ok: "cpu_ok s" "self s \<noteq> None" "0 \<le> ncli s" "lk_locked (m_locks s LBcache) = 0" "i < length (pt_proc s)"
    using assms(1) by (auto simp: quiescent_def cpu_ok_def)
  let ?a = "acquired LBcache s" and ?t = "up_buf b f (released LBcache (acquired LBcache s))"
  have c: "calm s (released LBcache ?a)" by (rule calm_section [OF ok(1,4)])
  have q: "quiescent i ?t" using calm_quiescent [OF c assms(1)] by simp
  have p: "pid_of i ?t = pid_of i s" using calm_pid(1) [OF c ok(5)] by simp
  obtain v where v: "acquiresleep (SBuf b) ?t rs = Ret () v rs"
      "calm (up_slock (SBuf b) (taken_by (pid_of i ?t)) ?t) v"
    by (rule acquiresleep_run [OF q]) (use assms(2) in \<open>simp add: calm_slocks [OF c]\<close>)
  have "release LBcache (up_buf b f ?a) rs = Ret () ?t rs"
    using ok release_run [where l = LBcache and s = "up_buf b f ?a" and rs = rs] by simp
  then have "kseq (kmod (up_buf b f)) (kseq (release LBcache) (kseq (acquiresleep (SBuf b)) (kret b))) ?a rs = Ret b v rs"
    using v(1) by simp
  moreover have "calm (up_slock (SBuf b) (taken_by (pid_of i s)) (up_buf b f s)) v"
    using calm_trans [OF calm_up_slock [OF calm_up_buf [OF c]]] v(2) p by simp
  ultimately show ?thesis by (rule that)
qed

lemma bget_hit:
  assumes "quiescent i s" and "ring s xs" and "List.find (\<lambda>b. b_dev (buf_at s b) = dev \<and> b_blockno (buf_at s b) = n) xs = Some b"
    and "slk_locked (ss_locks s (SBuf b)) = 0"
  obtains s' where "bget dev n s rs = Ret b s' rs" and "calm (hit (pid_of i s) b s) s'"
proof -
  have ok: "cpu_ok s" "self s \<noteq> None" "0 \<le> ncli s" "lk_locked (m_locks s LBcache) = 0"
    using assms(1) by (auto simp: quiescent_def cpu_ok_def)
  obtain s' where s': "kseq (kmod (up_buf b (\<lambda>k. k\<lparr>b_refcnt := b_refcnt k + 1\<rparr>)))
      (kseq (release LBcache) (kseq (acquiresleep (SBuf b)) (kret b))) (acquired LBcache s) rs = Ret b s' rs"
      "calm (hit (pid_of i s) b s) s'"
    unfolding hit_def by (rule get_section [OF assms(1,4)])
  have "bget dev n s rs = Ret b s' rs"
    using ok s'(1) ring_walk(1) [OF assms(2)] assms(3) by (simp add: bget_def acquire_run del: walk.simps)
  then show ?thesis using s'(2) that by blast
qed

lemma bget_miss:
  assumes "quiescent i s" and "ring s xs" and "List.find (\<lambda>b. b_dev (buf_at s b) = dev \<and> b_blockno (buf_at s b) = n) xs = None"
    and "List.find (\<lambda>b. b_refcnt (buf_at s b) = 0 \<and> b_flags (buf_at s b) AND B_DIRTY = 0) (rev xs) = Some b"
    and "slk_locked (ss_locks s (SBuf b)) = 0"
  obtains s' where "bget dev n s rs = Ret b s' rs" and "calm (miss (pid_of i s) dev n b s) s'"
proof -
  have ok: "cpu_ok s" "self s \<noteq> None" "0 \<le> ncli s" "lk_locked (m_locks s LBcache) = 0"
    using assms(1) by (auto simp: quiescent_def cpu_ok_def)
  obtain s' where s': "kseq (kmod (up_buf b (\<lambda>k. k\<lparr>b_dev := dev, b_blockno := n, b_flags := 0, b_refcnt := 1\<rparr>)))
      (kseq (release LBcache) (kseq (acquiresleep (SBuf b)) (kret b))) (acquired LBcache s) rs = Ret b s' rs"
      "calm (miss (pid_of i s) dev n b s) s'"
    unfolding miss_def by (rule get_section [OF assms(1,5)])
  have "bget dev n s rs = Ret b s' rs"
    using ok s'(1) ring_walk [OF assms(2)] assms(3,4) by (simp add: bget_def acquire_run del: walk.simps)
  then show ?thesis using s'(2) that by blast
qed

text \<open>With all buffers in use the kernel panics.\<close>

lemma bget_full:
  assumes "quiescent i s" and "ring s xs" and "List.find (\<lambda>b. b_dev (buf_at s b) = dev \<and> b_blockno (buf_at s b) = n) xs = None"
    and "List.find (\<lambda>b. b_refcnt (buf_at s b) = 0 \<and> b_flags (buf_at s b) AND B_DIRTY = 0) (rev xs) = None"
  shows "bget dev n s rs = Panic ''bget: no buffers'' (acquired LBcache s)"
proof -
  have ok: "cpu_ok s" "self s \<noteq> None" "0 \<le> ncli s" "lk_locked (m_locks s LBcache) = 0"
    using assms(1) by (auto simp: quiescent_def cpu_ok_def)
  then show ?thesis
    using ring_walk [OF assms(2)] assms(3,4) by (simp add: bget_def acquire_run del: walk.simps)
qed

section \<open>The invariant and the view from above\<close>

text \<open>
  Buffer \<open>b\<close> stands for block \<open>n\<close> of the disk. The invariant speaks about the moments at which no
  process waits for a buffer: a buffer is referenced if, and only if, the process \<open>pid\<close> holds it.
\<close>

definition on_block :: "'a bstate_scheme \<Rightarrow> nat \<Rightarrow> 32 word \<Rightarrow> bool" where
  "on_block s b n \<longleftrightarrow> b < NBUF \<and> b_dev (buf_at s b) = 1 \<and> b_blockno (buf_at s b) = n"

definition locked_buf :: "'a sstate_scheme \<Rightarrow> nat \<Rightarrow> bool" where
  "locked_buf s b \<longleftrightarrow> slk_locked (ss_locks s (SBuf b)) \<noteq> 0"

definition buf_ok :: "int \<Rightarrow> 'a bstate_scheme \<Rightarrow> nat \<Rightarrow> bool" where
  "buf_ok pid s b \<longleftrightarrow> (let k = buf_at s b in
     length (b_data k) = BSIZE \<and> (dirty k \<longrightarrow> b_dev k = 1) \<and>
     (if locked_buf s b then b_refcnt k = 1 \<and> slk_pid (ss_locks s (SBuf b)) = pid \<and> b_dev k = 1 else b_refcnt k = 0) \<and>
     (b_dev k = 1 \<longrightarrow> valid k \<and> b_blockno k < word_of_int (dk_size s) \<and>
        (\<not> locked_buf s b \<and> \<not> dirty k \<longrightarrow> b_data k = dk_img s (unat (b_blockno k)))))"

definition cache_ok :: "int \<Rightarrow> 'a bstate_scheme \<Rightarrow> bool" where
  "cache_ok pid s \<longleftrightarrow> length (bc_buf s) = NBUF + 1 \<and> (\<exists>xs. ring s xs) \<and>
     (\<forall>b b' n. on_block s b n \<longrightarrow> on_block s b' n \<longrightarrow> b = b') \<and> (\<forall>b < NBUF. buf_ok pid s b) \<and>
     (\<forall>n. length (dk_img s n) = BSIZE)"

text \<open>The view: block contents, blocks not yet on the disk, the disk, the writes made, and the buffers held.\<close>

record cview =
  cv_blk :: "32 word \<Rightarrow> 8 word list"
  cv_dirty :: "32 word set"
  cv_img :: "nat \<Rightarrow> 8 word list"
  cv_trace :: "(nat \<times> 8 word list) list"
  cv_held :: "nat \<rightharpoonup> 32 word"

definition blk :: "'a bstate_scheme \<Rightarrow> 32 word \<Rightarrow> 8 word list" where
  "blk s n = (case List.find (\<lambda>b. on_block s b n) [0..<NBUF] of
     Some b \<Rightarrow> b_data (buf_at s b) | None \<Rightarrow> dk_img s (unat n))"

definition view :: "'a bstate_scheme \<Rightarrow> cview" where
  "view s = \<lparr>cv_blk = blk s, cv_dirty = {n. \<exists>b. on_block s b n \<and> dirty (buf_at s b)}, cv_img = dk_img s,
     cv_trace = dk_trace s, cv_held = (\<lambda>b. if b < NBUF \<and> locked_buf s b then Some (b_blockno (buf_at s b)) else None)\<rparr>"

lemma cache_okD:
  assumes "cache_ok pid s"
  shows "length (bc_buf s) = NBUF + 1" "\<exists>xs. ring s xs" "\<And>b b' n. on_block s b n \<Longrightarrow> on_block s b' n \<Longrightarrow> b = b'"
    "\<And>b. b < NBUF \<Longrightarrow> buf_ok pid s b" "\<And>n. length (dk_img s n) = BSIZE"
  using assms by (auto simp: cache_ok_def)

lemma blk_cached:
  assumes "cache_ok pid s" and "on_block s b n"
  shows "blk s n = b_data (buf_at s b)"
proof -
  have only: "\<forall>j<b. \<not> on_block s j n" using cache_okD(3) [OF assms(1) assms(2)] by blast
  have "List.find (\<lambda>b. on_block s b n) [0..<NBUF] = Some b"
    unfolding find_upt using assms(2) only by (simp add: on_block_def)
  then show ?thesis by (simp add: blk_def)
qed

lemma blk_uncached:
  assumes "\<And>b. \<not> on_block s b n"
  shows "blk s n = dk_img s (unat n)"
proof -
  have "List.find (\<lambda>b. on_block s b n) [0..<NBUF] = None" unfolding find_upt_None using assms by blast
  then show ?thesis by (simp add: blk_def)
qed

lemma view_cong:
  assumes "bc_buf s' = bc_buf s" "ss_locks s' = ss_locks s" "dk_img s' = dk_img s" "dk_trace s' = dk_trace s" "dk_size s' = dk_size s"
  shows "view s' = view s" "cache_ok pid s' = cache_ok pid s"
proof -
  have n: "nxt s' = nxt s" "prv s' = prv s" by (simp_all add: nxt_def prv_def assms)
  have o: "on_block s' = on_block s" "locked_buf s' = locked_buf s" by (auto simp: fun_eq_iff on_block_def locked_buf_def assms)
  show "view s' = view s" unfolding view_def blk_def [abs_def] o assms ..
  show "cache_ok pid s' = cache_ok pid s" by (simp add: cache_ok_def buf_ok_def ring_def n o assms)
qed

lemma calm_view:
  assumes "calm s s'"
  shows "view s' = view s" "cache_ok pid s' = cache_ok pid s"
  using view_cong [OF calm_bstate(1) calm_slocks calm_bstate(2,5,4)] assms by blast+

text \<open>A held buffer holds the content of its block; a block that is neither held nor dirty is on the disk.\<close>

lemma held_buf:
  assumes "cache_ok pid s" and "cv_held (view s) b = Some n"
  shows "b < NBUF" "on_block s b n" "b_data (buf_at s b) = cv_blk (view s) n" "mine_slk pid b s" "valid (buf_at s b)"
    "b_blockno (buf_at s b) = n" "n < word_of_int (dk_size s)" "b_refcnt (buf_at s b) = 1" "length (cv_blk (view s) n) = BSIZE"
proof -
  have b: "b < NBUF" "locked_buf s b" "b_blockno (buf_at s b) = n" using assms(2) by (auto simp: view_def split: if_splits)
  have k: "buf_ok pid s b" using cache_okD(4) [OF assms(1)] b(1) .
  then have o: "on_block s b n" using b by (simp add: buf_ok_def Let_def on_block_def)
  have "blk s n = b_data (buf_at s b)" by (rule blk_cached [OF assms(1) o])
  then show "b < NBUF" "on_block s b n" "b_data (buf_at s b) = cv_blk (view s) n" "mine_slk pid b s" "valid (buf_at s b)"
    "b_blockno (buf_at s b) = n" "n < word_of_int (dk_size s)" "b_refcnt (buf_at s b) = 1" "length (cv_blk (view s) n) = BSIZE"
    using b o k by (auto simp: view_def buf_ok_def Let_def mine_slk_def locked_buf_def on_block_def)
qed

lemma settled_blk:
  assumes "cache_ok pid s" and "n \<notin> cv_dirty (view s)" and "n \<notin> ran (cv_held (view s))"
  shows "cv_blk (view s) n = dk_img s (unat n)"
proof (cases "\<exists>b. on_block s b n")
  case True
  then obtain b where b: "on_block s b n" by blast
  have "b < NBUF" using b by (simp add: on_block_def)
  moreover have "\<not> locked_buf s b"
    using assms(3) b ranI [of "cv_held (view s)" b n] by (auto simp: view_def on_block_def)
  moreover have "\<not> dirty (buf_at s b)" using assms(2) b by (auto simp: view_def)
  ultimately show ?thesis
    using blk_cached [OF assms(1) b] cache_okD(4) [OF assms(1), of b] b
    by (auto simp: view_def buf_ok_def Let_def on_block_def)
next
  case False
  then show ?thesis using blk_uncached [of s n] by (auto simp: view_def)
qed

lemma blk_length: "cache_ok pid s \<Longrightarrow> length (cv_blk (view s) n) = BSIZE"
proof (cases "\<exists>b. on_block s b n")
  case True
  assume a: "cache_ok pid s"
  from True obtain b where b: "on_block s b n" by blast
  then show ?thesis
    using blk_cached [OF a b] cache_okD(4) [OF a, of b] by (auto simp: view_def buf_ok_def Let_def on_block_def)
next
  case False
  assume "cache_ok pid s"
  then show ?thesis using False blk_uncached [of s n] cache_okD(5) by (auto simp: view_def)
qed

section \<open>One buffer changes\<close>

text \<open>
  Every operation changes one buffer, which afterwards stands for block \<open>n\<close>. Either it did so before,
  or it was unused and clean, and no buffer stood for \<open>n\<close>.
\<close>

definition one_buf :: "nat \<Rightarrow> 32 word \<Rightarrow> 'a bstate_scheme \<Rightarrow> 'a bstate_scheme \<Rightarrow> bool" where
  "one_buf b n s s' \<longleftrightarrow> b < NBUF \<and> on_block s' b n \<and> length (bc_buf s') = length (bc_buf s) \<and> dk_size s' = dk_size s \<and>
     (\<forall>j. j < NBUF \<longrightarrow> j \<noteq> b \<longrightarrow> core (buf_at s' j) = core (buf_at s j) \<and> ss_locks s' (SBuf j) = ss_locks s (SBuf j)) \<and>
     (on_block s b n \<or> \<not> locked_buf s b \<and> \<not> dirty (buf_at s b) \<and> (\<forall>j. \<not> on_block s j n)) \<and>
     (\<forall>m. m \<noteq> unat n \<longrightarrow> dk_img s' m = dk_img s m)"

lemma one_buf_other:
  assumes "one_buf b n s s'" and "j \<noteq> b" and "j < NBUF"
  shows "on_block s' j m = on_block s j m" "locked_buf s' j = locked_buf s j" "dirty (buf_at s' j) = dirty (buf_at s j)"
    "b_data (buf_at s' j) = b_data (buf_at s j)" "b_blockno (buf_at s' j) = b_blockno (buf_at s j)"
    "valid (buf_at s' j) = valid (buf_at s j)" "b_refcnt (buf_at s' j) = b_refcnt (buf_at s j)"
    "b_dev (buf_at s' j) = b_dev (buf_at s j)" "slk_pid (ss_locks s' (SBuf j)) = slk_pid (ss_locks s (SBuf j))"
proof -
  have c: "core (buf_at s' j) = core (buf_at s j)" and l: "ss_locks s' (SBuf j) = ss_locks s (SBuf j)"
    using assms by (auto simp: one_buf_def)
  show "on_block s' j m = on_block s j m" "locked_buf s' j = locked_buf s j" "dirty (buf_at s' j) = dirty (buf_at s j)"
    "b_data (buf_at s' j) = b_data (buf_at s j)" "b_blockno (buf_at s' j) = b_blockno (buf_at s j)"
    "valid (buf_at s' j) = valid (buf_at s j)" "b_refcnt (buf_at s' j) = b_refcnt (buf_at s j)"
    "b_dev (buf_at s' j) = b_dev (buf_at s j)" "slk_pid (ss_locks s' (SBuf j)) = slk_pid (ss_locks s (SBuf j))"
    using core_fields [OF c] l by (simp_all add: on_block_def locked_buf_def dirty_def valid_def)
qed

lemma one_buf_img:
  assumes "one_buf b n s s'" and "m \<noteq> n"
  shows "dk_img s' (unat m) = dk_img s (unat m)"
proof -
  have "unat m \<noteq> unat n" using assms(2) by (simp add: word_unat_eq_iff)
  then show ?thesis using assms(1) unfolding one_buf_def by blast
qed

lemma one_buf_free:
  assumes "cache_ok pid s" and "one_buf b n s s'" and "j \<noteq> b"
  shows "\<not> on_block s j n"
  using cache_okD(3) [OF assms(1), of b n j] assms(2,3) by (auto simp: one_buf_def)

lemma one_buf_ok:
  assumes ok: "cache_ok pid s" and one: "one_buf b n s s'" and b: "buf_ok pid s' b" and r: "\<exists>xs. ring s' xs"
    and img: "\<And>m. length (dk_img s' m) = BSIZE"
  shows "cache_ok pid s'"
proof -
  have bufs: "buf_ok pid s' j" if j: "j < NBUF" "j \<noteq> b" for j
  proof -
    note O = one_buf_other [OF one j(2,1)]
    have "dk_img s' (unat (b_blockno (buf_at s j))) = dk_img s (unat (b_blockno (buf_at s j)))" if "b_dev (buf_at s j) = 1"
    proof -
      have "b_blockno (buf_at s j) \<noteq> n" using one_buf_free [OF ok one j(2)] j(1) that by (auto simp: on_block_def)
      then show ?thesis by (rule one_buf_img [OF one])
    qed
    then show ?thesis
      using cache_okD(4) [OF ok j(1)] O one by (simp add: buf_ok_def Let_def one_buf_def)
  qed
  have uniq: "j = j'" if on: "on_block s' j m" "on_block s' j' m" for j j' m
  proof (cases "j = b \<or> j' = b")
    case True
    then have m: "m = n" using on one by (auto simp: on_block_def one_buf_def)
    have "k = b" if "on_block s' k n" for k
      using that one_buf_other(1) [OF one, of k n] one_buf_free [OF ok one, of k] by (cases "k = b") (auto simp: on_block_def)
    then show ?thesis using on m by blast
  next
    case False
    have "j < NBUF" "j' < NBUF" using on by (auto simp: on_block_def)
    then have "on_block s j m" "on_block s j' m" using on False one_buf_other(1) [OF one] by auto
    then show ?thesis by (rule cache_okD(3) [OF ok])
  qed
  have "length (bc_buf s') = NBUF + 1" using one cache_okD(1) [OF ok] by (simp add: one_buf_def)
  moreover have "\<forall>j < NBUF. buf_ok pid s' j" using bufs b by blast
  moreover have "\<forall>j j' m. on_block s' j m \<longrightarrow> on_block s' j' m \<longrightarrow> j = j'" using uniq by blast
  ultimately show ?thesis using r img by (simp only: cache_ok_def) blast
qed

lemma one_buf_blk:
  assumes ok: "cache_ok pid s" and ok': "cache_ok pid s'" and one: "one_buf b n s s'"
  shows "blk s' = (blk s)(n := b_data (buf_at s' b))"
proof
  fix m
  have on: "on_block s' b n" "b < NBUF" using one by (auto simp: one_buf_def)
  show "blk s' m = ((blk s)(n := b_data (buf_at s' b))) m"
  proof (cases "m = n")
    case True
    then show ?thesis using blk_cached [OF ok' on(1)] by simp
  next
    case False
    have b': "\<not> on_block s' b m" using on False by (auto simp: on_block_def)
    show ?thesis
    proof (cases "\<exists>j. j \<noteq> b \<and> on_block s j m")
      case True
      then obtain j where j: "j \<noteq> b" "on_block s j m" "j < NBUF" by (auto simp: on_block_def)
      then have "on_block s' j m" "b_data (buf_at s' j) = b_data (buf_at s j)" using one_buf_other [OF one j(1,3)] by auto
      then show ?thesis using blk_cached [OF ok' \<open>on_block s' j m\<close>] blk_cached [OF ok j(2)] False by simp
    next
      case none: False
      have "\<not> on_block s' j m" for j
        using none b' one_buf_other(1) [OF one, of j m] by (cases "j = b") (auto simp: on_block_def)
      then have "blk s' m = dk_img s' (unat m)" by (intro blk_uncached)
      also have "\<dots> = dk_img s (unat m)" by (rule one_buf_img [OF one False])
      also have "\<dots> = blk s m"
      proof (cases "on_block s b m")
        case True
        then have "\<not> locked_buf s b" "\<not> dirty (buf_at s b)" using one False by (auto simp: one_buf_def on_block_def)
        then show ?thesis
          using blk_cached [OF ok True] cache_okD(4) [OF ok on(2)] True by (simp add: buf_ok_def Let_def on_block_def)
      next
        case b: False
        have "\<not> on_block s j m" for j using none b by (cases "j = b") auto
        then show ?thesis using blk_uncached [of s m] by simp
      qed
      finally show ?thesis using False by simp
    qed
  qed
qed

lemma one_buf_dirty:
  assumes ok: "cache_ok pid s" and ok': "cache_ok pid s'" and one: "one_buf b n s s'"
  shows "cv_dirty (view s') = (if dirty (buf_at s' b) then insert n (cv_dirty (view s)) else cv_dirty (view s) - {n})"
proof -
  have on: "on_block s' b n" "b < NBUF" using one by (auto simp: one_buf_def)
  have "m \<in> cv_dirty (view s') \<longleftrightarrow> m \<in> (if dirty (buf_at s' b) then insert n (cv_dirty (view s)) else cv_dirty (view s) - {n})"
    for m
  proof (cases "m = n")
    case True
    have "(\<exists>j. on_block s' j n \<and> dirty (buf_at s' j)) \<longleftrightarrow> dirty (buf_at s' b)"
      using cache_okD(3) [OF ok' _ on(1)] on(1) by blast
    then show ?thesis using True by (simp add: view_def)
  next
    case False
    have "(\<exists>j. on_block s' j m \<and> dirty (buf_at s' j)) \<longleftrightarrow> (\<exists>j. j \<noteq> b \<and> on_block s j m \<and> dirty (buf_at s j))"
    proof -
      have "on_block s' j m \<and> dirty (buf_at s' j) \<longleftrightarrow> j \<noteq> b \<and> on_block s j m \<and> dirty (buf_at s j)" for j
        using one_buf_other [OF one, of j] False on by (cases "j = b") (auto simp: on_block_def)
      then show ?thesis by simp
    qed
    also have "\<dots> \<longleftrightarrow> (\<exists>j. on_block s j m \<and> dirty (buf_at s j))"
      using one False by (auto simp: one_buf_def on_block_def)
    finally show ?thesis using False by (simp add: view_def)
  qed
  then show ?thesis by blast
qed

lemma one_buf_view:
  assumes ok: "cache_ok pid s" and ok': "cache_ok pid s'" and one: "one_buf b n s s'"
  shows "view s' = \<lparr>cv_blk = (cv_blk (view s))(n := b_data (buf_at s' b)),
    cv_dirty = (if dirty (buf_at s' b) then insert n (cv_dirty (view s)) else cv_dirty (view s) - {n}),
    cv_img = dk_img s', cv_trace = dk_trace s',
    cv_held = (cv_held (view s))(b := if locked_buf s' b then Some n else None)\<rparr>"
proof -
  have "cv_held (view s') = (cv_held (view s))(b := if locked_buf s' b then Some n else None)"
  proof
    fix j
    show "cv_held (view s') j = ((cv_held (view s))(b := if locked_buf s' b then Some n else None)) j"
      using one one_buf_other [OF one, of j] by (cases "j = b") (auto simp: view_def one_buf_def on_block_def)
  qed
  moreover have "cv_blk (view s') = (cv_blk (view s))(n := b_data (buf_at s' b))"
    using one_buf_blk [OF assms] by (simp add: view_def)
  moreover have "cv_img (view s') = dk_img s'" "cv_trace (view s') = dk_trace s'" by (simp_all add: view_def)
  ultimately show ?thesis using one_buf_dirty [OF assms] by (intro cview.equality) simp_all
qed

section \<open>What the file system may rely on\<close>

text \<open>Outside the cache, the disk and the buffers' locks nothing changes but the traces of locks and wakeups.\<close>

definition over :: "'a bstate_scheme \<Rightarrow> 'a bstate_scheme \<Rightarrow> 'a bstate_scheme" where
  "over s t = s\<lparr>ss_locks := ss_locks t, bc_buf := bc_buf t, dk_img := dk_img t, dk_trace := dk_trace t\<rparr>"

definition cframe :: "'a bstate_scheme \<Rightarrow> 'a bstate_scheme \<Rightarrow> bool" where
  "cframe s s' \<longleftrightarrow> calm (over s s') s' \<and> (\<forall>j. ss_locks s' (SInode j) = ss_locks s (SInode j))"

definition io_ok :: "nat \<Rightarrow> 'a bstate_scheme \<Rightarrow> bool" where
  "io_ok i s \<longleftrightarrow> quiescent i s \<and> cache_ok (pid_of i s) s"

lemma quiescent_cong:
  assumes "m_cpus s' = m_cpus s" "m_lapicid s' = m_lapicid s" "m_if s' = m_if s" "m_locks s' = m_locks s" "pt_proc s' = pt_proc s"
  shows "quiescent i s' = quiescent i s"
  using machine_cong [OF assms(1-4)] assms(4,5) by (simp add: quiescent_def)

lemma io_ok_cong:
  assumes "m_cpus s' = m_cpus s" "m_lapicid s' = m_lapicid s" "m_if s' = m_if s" "m_locks s' = m_locks s" "pt_proc s' = pt_proc s"
    and "bc_buf s' = bc_buf s" "ss_locks s' = ss_locks s" "dk_img s' = dk_img s" "dk_trace s' = dk_trace s" "dk_size s' = dk_size s"
  shows "io_ok i s' = io_ok i s"
  using quiescent_cong [OF assms(1-5)] view_cong(2) [OF assms(6-10)] assms(5) by (simp add: io_ok_def)

lemma over_self [simp]: "over s s = s"
  by (simp add: over_def)

lemma calm_over: "calm s s' \<Longrightarrow> calm (over s t) (over s' t)"
  unfolding over_def using calm_dk [OF calm_bc [OF calm_ss]] by blast

lemma over_over: "over (over s t) u = over s u"
  by (simp add: over_def)

lemma cframe_refl [simp]: "cframe s s"
  by (simp add: cframe_def)

lemma cframe_trans [trans]:
  assumes "cframe a b" and "cframe b c"
  shows "cframe a c"
proof -
  have "calm (over (over a b) c) (over b c)" using assms(1) by (intro calm_over) (simp add: cframe_def)
  then have "calm (over a c) (over b c)" by (simp add: over_over)
  then have "calm (over a c) c" using assms(2) by (auto simp: cframe_def intro: calm_trans)
  then show ?thesis using assms by (simp add: cframe_def)
qed

lemma cframe_calm:
  assumes "calm t s'" and "t = over s t" and "\<And>j. ss_locks t (SInode j) = ss_locks s (SInode j)"
  shows "cframe s s'"
proof -
  have "over s s' = over s t"
    using calm_bstate [OF assms(1)] calm_slocks [OF assms(1)] by (simp add: over_def)
  then have "over s s' = t" using assms(2) by simp
  then show ?thesis using assms(1,3) calm_slocks [OF assms(1)] by (simp add: cframe_def)
qed

lemma quiescent_over [simp]: "quiescent i (over s t) = quiescent i s"
proof -
  have "self (over s t) = self s" by (rule self_cong) (simp_all add: over_def)
  then show ?thesis by (simp add: quiescent_def cpu_ok_def cur_def mine_def ncli_def) (simp add: over_def)
qed

lemma cframe_fields:
  assumes "cframe s s'"
  shows "quiescent i s \<Longrightarrow> quiescent i s'" "i < length (pt_proc s) \<Longrightarrow> pid_of i s' = pid_of i s" "m_mem s' = m_mem s"
    "bstate.more s' = bstate.more s" "dk_size s' = dk_size s" "cur s' = cur s" "pt_ticks s' = pt_ticks s"
    "length (pt_proc s') = length (pt_proc s)" "i < length (pt_proc s) \<Longrightarrow> p_killed (proc_at s' i) = p_killed (proc_at s i)"
proof -
  have c: "calm (over s s') s'" using assms by (simp add: cframe_def)
  note F = calm_fields [OF c]
  show "quiescent i s'" if "quiescent i s" using calm_quiescent [OF c] that by simp
  have l: "length (pt_proc (over s s')) = length (pt_proc s)" by (simp add: over_def)
  show "pid_of i s' = pid_of i s" "p_killed (proc_at s' i) = p_killed (proc_at s i)" if "i < length (pt_proc s)"
    using calm_pid [OF c, of i] that l by (simp_all add: over_def)
  show "m_mem s' = m_mem s" "pt_ticks s' = pt_ticks s" "length (pt_proc s') = length (pt_proc s)"
    using F by (simp_all add: over_def)
  show "cur s' = cur s"
  proof -
    have "self (over s s') = self s" by (rule self_cong) (simp_all add: over_def)
    then have "cur (over s s') = cur s" by (simp add: cur_def mine_def) (simp add: over_def)
    then show ?thesis using F(8) by simp
  qed
  show "dk_size s' = dk_size s" using calm_bstate(4) [OF c] by (simp add: over_def)
  show "bstate.more s' = bstate.more s" using F(9) by (cases s; cases s') (simp add: over_def)
qed

lemma io_ok_calm:
  assumes "calm t s'" and "quiescent i t" and "cache_ok (pid_of i t) t"
  shows "io_ok i s'" "view s' = view t"
proof -
  have "i < length (pt_proc t)" using assms(2) by (simp add: quiescent_def)
  then show "io_ok i s'" "view s' = view t"
    using calm_quiescent [OF assms(1,2)] calm_view [OF assms(1)] calm_pid(1) [OF assms(1)] assms(3) by (simp_all add: io_ok_def)
qed

lemma links_core:
  assumes "\<And>j. b_next (buf_at s' j) = b_next (buf_at s j)" and "\<And>j. b_prev (buf_at s' j) = b_prev (buf_at s j)"
  shows "ring s' xs = ring s xs"
  using assms by (simp add: ring_def nxt_def [abs_def] prv_def [abs_def])

lemma busy_count:
  assumes "cache_ok pid s" and "card (cv_dirty (view s)) + card (dom (cv_held (view s))) < NBUF" and "ring s xs"
  shows "List.find (\<lambda>b. b_refcnt (buf_at s b) = 0 \<and> b_flags (buf_at s b) AND B_DIRTY = 0) (rev xs) \<noteq> None"
proof
  assume "List.find (\<lambda>b. b_refcnt (buf_at s b) = 0 \<and> b_flags (buf_at s b) AND B_DIRTY = 0) (rev xs) = None"
  then have busy: "b_refcnt (buf_at s b) \<noteq> 0 \<or> dirty (buf_at s b)" if "b < NBUF" for b
    using assms(3) that by (auto simp: find_None_iff ring_def dirty_def)
  let ?D = "{b. b < NBUF \<and> dirty (buf_at s b)}" and ?H = "dom (cv_held (view s))"
  have H: "?H = {b. b < NBUF \<and> locked_buf s b}" by (auto simp: view_def split: if_splits)
  have ok: "buf_ok pid s b" if "b < NBUF" for b using cache_okD(4) [OF assms(1) that] .
  have "{0..<NBUF} \<subseteq> ?D \<union> ?H"
    using busy ok by (auto simp: H buf_ok_def Let_def split: if_splits)
  then have "NBUF \<le> card (?D \<union> ?H)" using card_mono [of "?D \<union> ?H" "{0..<NBUF}"] by (simp add: H)
  also have "\<dots> \<le> card ?D + card ?H" by (rule card_Un_le)
  also have "card ?D \<le> card (cv_dirty (view s))"
  proof (rule card_inj_on_le)
    have on: "on_block s b (b_blockno (buf_at s b))" if "b \<in> ?D" for b
      using that ok [of b] by (auto simp: on_block_def buf_ok_def Let_def)
    show "inj_on (\<lambda>b. b_blockno (buf_at s b)) ?D"
      using on cache_okD(3) [OF assms(1)] by (intro inj_onI) metis
    show "(\<lambda>b. b_blockno (buf_at s b)) ` ?D \<subseteq> cv_dirty (view s)" using on by (auto simp: view_def)
    have "cv_dirty (view s) \<subseteq> (\<lambda>b. b_blockno (buf_at s b)) ` {0..<NBUF}" by (auto simp: view_def on_block_def)
    then show "finite (cv_dirty (view s))" by (rule finite_subset) simp
  qed
  finally show False using assms(2) by simp
qed

lemma dirty_iff:
  assumes "cache_ok pid s" and "on_block s b n"
  shows "n \<in> cv_dirty (view s) \<longleftrightarrow> dirty (buf_at s b)"
proof -
  have "(\<exists>j. on_block s j n \<and> dirty (buf_at s j)) \<longleftrightarrow> dirty (buf_at s b)"
    using cache_okD(3) [OF assms(1) _ assms(2)] assms(2) by blast
  then show ?thesis by (simp add: view_def)
qed

lemma view_disk [simp]: "cv_img (view s) = dk_img s" "cv_trace (view s) = dk_trace s"
  by (simp_all add: view_def)

text \<open>The four effects on a buffer that is held, or about to be.\<close>

lemma hit_effect:
  assumes ok: "cache_ok pid s" and on: "on_block s b n" and free: "\<not> locked_buf s b"
  shows "cache_ok pid (hit pid b s)" "view (hit pid b s) = (view s)\<lparr>cv_held := (cv_held (view s))(b \<mapsto> n)\<rparr>"
proof -
  let ?s = "hit pid b s"
  have b: "b < NBUF" "b < length (bc_buf s)" using on cache_okD(1) [OF ok] by (auto simp: on_block_def)
  have k: "buf_ok pid s b" using cache_okD(4) [OF ok b(1)] .
  have one: "one_buf b n s ?s"
    using on b by (auto simp: one_buf_def hit_def on_block_def)
  have l: "locked_buf ?s b" by (simp add: hit_def locked_buf_def taken_by_def)
  have e: "b_data (buf_at ?s b) = b_data (buf_at s b)" "dirty (buf_at ?s b) = dirty (buf_at s b)"
    using b by (simp_all add: hit_def dirty_def)
  obtain xs where "ring s xs" using cache_okD(2) [OF ok] by blast
  moreover have "b_next (buf_at ?s j) = b_next (buf_at s j)" "b_prev (buf_at ?s j) = b_prev (buf_at s j)" for j
    by (simp_all add: hit_def buf_at_up_buf)
  ultimately have r: "ring ?s xs" using links_core [of ?s s xs] by blast
  have "buf_ok pid ?s b"
    using k free b l on by (auto simp: on_block_def buf_ok_def Let_def hit_def valid_def dirty_def taken_by_def)
  then show ok': "cache_ok pid ?s"
    using one_buf_ok [OF ok one] r cache_okD(5) [OF ok] by (auto simp: hit_def)
  have "(cv_blk (view s))(n := b_data (buf_at s b)) = cv_blk (view s)"
    using blk_cached [OF ok on] by (intro fun_upd_idem) (simp add: view_def)
  moreover have "(if dirty (buf_at s b) then insert n (cv_dirty (view s)) else cv_dirty (view s) - {n}) = cv_dirty (view s)"
    using on dirty_iff [OF ok on] by auto
  ultimately show "view ?s = (view s)\<lparr>cv_held := (cv_held (view s))(b \<mapsto> n)\<rparr>"
    using l by (intro cview.equality) (simp_all add: one_buf_view [OF ok ok' one] e, simp_all add: hit_def)
qed

definition fetched :: "int \<Rightarrow> 32 word \<Rightarrow> nat \<Rightarrow> 'a bstate_scheme \<Rightarrow> 'a bstate_scheme" where
  "fetched pid n b s = up_buf b (\<lambda>k. k\<lparr>b_data := dk_img s (unat n), b_flags := b_flags k OR B_VALID\<rparr>) (miss pid 1 n b s)"

lemma fetched_effect:
  assumes ok: "cache_ok pid s" and b: "b < NBUF" and free: "\<not> locked_buf s b" "\<not> dirty (buf_at s b)"
    and new: "\<And>j. \<not> on_block s j n" and n: "n < word_of_int (dk_size s)"
  shows "cache_ok pid (fetched pid n b s)" "view (fetched pid n b s) = (view s)\<lparr>cv_held := (cv_held (view s))(b \<mapsto> n)\<rparr>"
proof -
  let ?s = "fetched pid n b s"
  have b': "b < length (bc_buf s)" using b cache_okD(1) [OF ok] by simp
  have at: "buf_at ?s b = (buf_at s b)\<lparr>b_dev := 1, b_blockno := n, b_flags := B_VALID, b_refcnt := 1, b_data := dk_img s (unat n)\<rparr>"
    using b' by (simp add: fetched_def miss_def)
  have other: "buf_at ?s j = buf_at s j" if "j \<noteq> b" for j
    using that by (simp add: fetched_def miss_def)
  have same: "length (bc_buf ?s) = length (bc_buf s)" "dk_size ?s = dk_size s" "dk_img ?s = dk_img s" "dk_trace ?s = dk_trace s"
    "ss_locks ?s = (ss_locks s)(SBuf b := taken_by pid (ss_locks s (SBuf b)))"
    by (simp_all add: fetched_def miss_def)
  have on: "on_block ?s b n" using b at by (simp add: on_block_def)
  have one: "one_buf b n s ?s" using b on same other free new by (simp add: one_buf_def)
  have l: "locked_buf ?s b" by (simp add: same locked_buf_def taken_by_def)
  have d: "\<not> dirty (buf_at ?s b)" "valid (buf_at ?s b)"
    by (simp_all add: at dirty_def valid_def flag_bits flag_bit_tests)
  obtain xs where "ring s xs" using cache_okD(2) [OF ok] by blast
  have "b_next (buf_at ?s j) = b_next (buf_at s j)" "b_prev (buf_at ?s j) = b_prev (buf_at s j)" for j
    using at other [of j] by (cases "j = b"; simp)+
  then have r: "ring ?s xs" using links_core [of ?s s xs] \<open>ring s xs\<close> by blast
  have "buf_ok pid ?s b"
    using l d n by (simp add: buf_ok_def Let_def at same taken_by_def cache_okD(5) [OF ok])
  then show ok': "cache_ok pid ?s"
    using one_buf_ok [OF ok one] r cache_okD(5) [OF ok] same by auto
  have "n \<notin> cv_dirty (view s)" "cv_blk (view s) n = dk_img s (unat n)"
    using new blk_uncached [of s n] by (auto simp: view_def)
  then show "view ?s = (view s)\<lparr>cv_held := (cv_held (view s))(b \<mapsto> n)\<rparr>"
    using l d by (intro cview.equality) (simp_all add: one_buf_view [OF ok ok' one] at same fun_upd_idem)
qed

text \<open>A change to the buffer \<open>b\<close>, held for block \<open>n\<close>, that leaves its identity, links and lock alone.\<close>

lemma held_effect:
  fixes s s' :: "'a bstate_scheme"
  assumes ok: "cache_ok pid s" and held: "cv_held (view s) b = Some n"
    and at: "buf_at s' b = (buf_at s b)\<lparr>b_flags := f, b_data := x\<rparr>" and other: "\<And>j. j \<noteq> b \<Longrightarrow> buf_at s' j = buf_at s j"
    and len: "length (bc_buf s') = length (bc_buf s)" and size: "dk_size s' = dk_size s" and locks: "ss_locks s' = ss_locks s"
    and img: "\<And>m. m \<noteq> unat n \<Longrightarrow> dk_img s' m = dk_img s m" "length (dk_img s' (unat n)) = BSIZE"
    and f: "f AND B_VALID \<noteq> 0" and x: "length x = BSIZE"
  shows "cache_ok pid s'" "view s' = (view s)\<lparr>cv_blk := (cv_blk (view s))(n := x),
      cv_dirty := (if f AND B_DIRTY \<noteq> 0 then insert n (cv_dirty (view s)) else cv_dirty (view s) - {n}),
      cv_img := dk_img s', cv_trace := dk_trace s'\<rparr>"
proof -
  note H = held_buf [OF ok held]
  have k: "buf_ok pid s b" using cache_okD(4) [OF ok H(1)] .
  have l: "locked_buf s b" "locked_buf s' b" using H(4) by (simp_all add: mine_slk_def locked_buf_def locks)
  have on: "on_block s' b n" using H(2) at by (simp add: on_block_def)
  have one: "one_buf b n s s'" using H on other len size locks img(1) by (simp add: one_buf_def)
  obtain xs where "ring s xs" using cache_okD(2) [OF ok] by blast
  moreover have "b_next (buf_at s' j) = b_next (buf_at s j)" "b_prev (buf_at s' j) = b_prev (buf_at s j)" for j
    using at other [of j] by (cases "j = b"; simp)+
  ultimately have r: "ring s' xs" using links_core [of s' s xs] by blast
  have "buf_ok pid s' b"
    using k l f x H(7) by (simp add: buf_ok_def Let_def at size locks valid_def)
  moreover have "length (dk_img s' m) = BSIZE" for m
    using img cache_okD(5) [OF ok] by (cases "m = unat n") simp_all
  ultimately show ok': "cache_ok pid s'" using one_buf_ok [OF ok one] r by auto
  have "(cv_held (view s))(b \<mapsto> n) = cv_held (view s)" using held by (rule map_upd_triv)
  then show "view s' = (view s)\<lparr>cv_blk := (cv_blk (view s))(n := x),
      cv_dirty := (if f AND B_DIRTY \<noteq> 0 then insert n (cv_dirty (view s)) else cv_dirty (view s) - {n}),
      cv_img := dk_img s', cv_trace := dk_trace s'\<rparr>"
    using l by (intro cview.equality) (simp_all add: one_buf_view [OF ok ok' one] at dirty_def)
qed

lemma put_block_fields [simp]:
  "bc_buf (put_block p x s) = bc_buf s" "dk_img (put_block p x s) = (dk_img s)(p := x)"
  "dk_trace (put_block p x s) = dk_trace s @ [(p, x)]" "dk_size (put_block p x s) = dk_size s"
  "ss_locks (put_block p x s) = ss_locks s" "pt_proc (put_block p x s) = pt_proc s"
  by (simp_all add: put_block_def)

lemma quiescent_put_block [simp]: "quiescent i (put_block p x s) = quiescent i s"
proof -
  have "self (put_block p x s) = self s" by (rule self_cong) (simp_all add: put_block_def)
  then show ?thesis by (simp add: quiescent_def cpu_ok_def cur_def mine_def ncli_def) (simp add: put_block_def)
qed

lemma stored_effect:
  assumes ok: "cache_ok pid s" and held: "cv_held (view s) b = Some n"
  shows "cache_ok pid (stored b s)" "view (stored b s) = (view s)\<lparr>cv_dirty := cv_dirty (view s) - {n},
      cv_img := (dk_img s)(unat n := cv_blk (view s) n), cv_trace := dk_trace s @ [(unat n, cv_blk (view s) n)]\<rparr>"
proof -
  note H = held_buf [OF ok held]
  have b: "b < length (bc_buf s)" using H(1) cache_okD(1) [OF ok] by simp
  let ?f = "(b_flags (buf_at s b) OR B_DIRTY) AND NOT B_DIRTY OR B_VALID"
  have at: "buf_at (stored b s) b = (buf_at s b)\<lparr>b_flags := ?f, b_data := cv_blk (view s) n\<rparr>"
    using b H(3) by (simp add: stored_def synced_def up_buf_def)
  have d: "dk_img (stored b s) = (dk_img s)(unat n := cv_blk (view s) n)"
    "dk_trace (stored b s) = dk_trace s @ [(unat n, cv_blk (view s) n)]"
    using b H(3,6) by (simp_all add: stored_def synced_def up_buf_def)
  have f: "?f AND B_VALID \<noteq> 0" "?f AND B_DIRTY = 0" by (simp_all add: flag_bits flag_bit_tests)
  have other: "buf_at (stored b s) j = buf_at s j" if "j \<noteq> b" for j using that by (simp add: stored_def synced_def)
  have same: "length (bc_buf (stored b s)) = length (bc_buf s)" "dk_size (stored b s) = dk_size s" "ss_locks (stored b s) = ss_locks s"
    by (simp_all add: stored_def synced_def)
  have img: "dk_img (stored b s) m = dk_img s m" if "m \<noteq> unat n" for m using that d by simp
  have len: "length (dk_img (stored b s) (unat n)) = BSIZE" using d H(9) by simp
  note E = held_effect [OF ok held at other same img len f(1) H(9)]
  show "cache_ok pid (stored b s)" by (rule E(1))
  show "view (stored b s) = (view s)\<lparr>cv_dirty := cv_dirty (view s) - {n},
      cv_img := (dk_img s)(unat n := cv_blk (view s) n), cv_trace := dk_trace s @ [(unat n, cv_blk (view s) n)]\<rparr>"
    by (intro cview.equality) (simp_all add: E(2) f d)
qed

definition set_data :: "nat \<Rightarrow> 8 word list \<Rightarrow> 'a bstate_scheme \<Rightarrow> 'a bstate_scheme" where
  "set_data b x = up_buf b (\<lambda>k. k\<lparr>b_data := x\<rparr>)"

definition mark_dirty :: "nat \<Rightarrow> 'a bstate_scheme \<Rightarrow> 'a bstate_scheme" where
  "mark_dirty b = up_buf b (\<lambda>k. k\<lparr>b_flags := b_flags k OR B_DIRTY\<rparr>)"

lemma set_data_effect:
  assumes ok: "cache_ok pid s" and held: "cv_held (view s) b = Some n" and x: "length x = BSIZE"
  shows "cache_ok pid (set_data b x s)" "view (set_data b x s) = (view s)\<lparr>cv_blk := (cv_blk (view s))(n := x)\<rparr>"
proof -
  note H = held_buf [OF ok held]
  have b: "b < length (bc_buf s)" using H(1) cache_okD(1) [OF ok] by simp
  have at: "buf_at (set_data b x s) b = (buf_at s b)\<lparr>b_flags := b_flags (buf_at s b), b_data := x\<rparr>"
    using b by (simp add: set_data_def)
  have f: "b_flags (buf_at s b) AND B_VALID \<noteq> 0" using H(5) by (simp add: valid_def)
  have "(if b_flags (buf_at s b) AND B_DIRTY \<noteq> 0 then insert n (cv_dirty (view s)) else cv_dirty (view s) - {n})
      = cv_dirty (view s)"
    using dirty_iff [OF ok H(2)] by (auto simp: dirty_def)
  then show "cache_ok pid (set_data b x s)" "view (set_data b x s) = (view s)\<lparr>cv_blk := (cv_blk (view s))(n := x)\<rparr>"
    using held_effect [OF ok held at _ _ _ _ _ _ f x] cache_okD(5) [OF ok]
    by (auto simp: set_data_def intro!: cview.equality)
qed

lemma mark_dirty_effect:
  assumes ok: "cache_ok pid s" and held: "cv_held (view s) b = Some n"
  shows "cache_ok pid (mark_dirty b s)" "view (mark_dirty b s) = (view s)\<lparr>cv_dirty := insert n (cv_dirty (view s))\<rparr>"
proof -
  note H = held_buf [OF ok held]
  have b: "b < length (bc_buf s)" using H(1) cache_okD(1) [OF ok] by simp
  let ?f = "b_flags (buf_at s b) OR B_DIRTY"
  have at: "buf_at (mark_dirty b s) b = (buf_at s b)\<lparr>b_flags := ?f, b_data := cv_blk (view s) n\<rparr>"
    using b H(3) by (simp add: mark_dirty_def)
  have f: "?f AND B_VALID \<noteq> 0" "?f AND B_DIRTY \<noteq> 0" using H(5) by (simp_all add: flag_bits flag_bit_tests valid_def)
  show "cache_ok pid (mark_dirty b s)" "view (mark_dirty b s) = (view s)\<lparr>cv_dirty := insert n (cv_dirty (view s))\<rparr>"
    using held_effect [OF ok held at _ _ _ _ _ _ f(1) H(9)] cache_okD(5) [OF ok] f(2)
    by (auto simp: mark_dirty_def intro!: cview.equality)
qed

lemma dropped_effect:
  assumes ok: "cache_ok pid s" and held: "cv_held (view s) b = Some n"
    and safe: "n \<in> cv_dirty (view s) \<or> cv_blk (view s) n = dk_img s (unat n)"
  shows "cache_ok pid (dropped b s)" "view (dropped b s) = (view s)\<lparr>cv_held := (cv_held (view s))(b := None)\<rparr>"
proof -
  note H = held_buf [OF ok held]
  let ?s = "dropped b s" and ?u = "up_buf b (\<lambda>k. k\<lparr>b_refcnt := b_refcnt k - 1\<rparr>) (up_slock (SBuf b) given_up s)"
  have b: "b < length (bc_buf s)" using H(1) cache_okD(1) [OF ok] by simp
  have c: "core (buf_at ?s j) = core (buf_at ?u j)" for j by (simp add: dropped_def relinked_keeps)
  have f: "b_flags (buf_at ?s b) = b_flags (buf_at s b)" "b_dev (buf_at ?s b) = 1" "b_blockno (buf_at ?s b) = n"
      "b_refcnt (buf_at ?s b) = 0" "b_data (buf_at ?s b) = cv_blk (view s) n"
    using core_fields [OF c [of b]] H b by (simp_all add: on_block_def)
  have same: "length (bc_buf ?s) = length (bc_buf s)" "dk_size ?s = dk_size s" "dk_img ?s = dk_img s" "dk_trace ?s = dk_trace s"
    "ss_locks ?s = (ss_locks s)(SBuf b := given_up (ss_locks s (SBuf b)))"
    by (simp_all add: dropped_def relinked_keeps)
  have on: "on_block ?s b n" using H(1) f by (simp add: on_block_def)
  have one: "one_buf b n s ?s" using H on same c by (simp add: one_buf_def)
  have l: "\<not> locked_buf ?s b" by (simp add: same locked_buf_def given_up_def)
  have d: "dirty (buf_at ?s b) = dirty (buf_at s b)" "valid (buf_at ?s b)" using f H(5) by (simp_all add: dirty_def valid_def)
  obtain xs where "ring s xs" using cache_okD(2) [OF ok] by blast
  moreover have "b_next (buf_at ?u j) = b_next (buf_at s j)" "b_prev (buf_at ?u j) = b_prev (buf_at s j)" for j
    by (simp_all add: buf_at_up_buf)
  ultimately have "ring ?u xs" using links_core [of ?u s xs] by blast
  then have r: "ring ?s (b # remove1 b xs)"
    using ring_relinked [of ?u xs b] H(1) cache_okD(1) [OF ok] by (simp add: dropped_def)
  have "dirty (buf_at s b) \<or> cv_blk (view s) n = dk_img s (unat n)" using safe dirty_iff [OF ok H(2)] by simp
  then have "buf_ok pid ?s b" using l d H(7,9) f by (auto simp: buf_ok_def Let_def same)
  then show ok': "cache_ok pid ?s" using one_buf_ok [OF ok one] r cache_okD(5) [OF ok] same by auto
  have "(if dirty (buf_at s b) then insert n (cv_dirty (view s)) else cv_dirty (view s) - {n}) = cv_dirty (view s)"
    using dirty_iff [OF ok H(2)] by auto
  then show "view ?s = (view s)\<lparr>cv_held := (cv_held (view s))(b := None)\<rparr>"
    using l by (intro cview.equality) (simp_all add: one_buf_view [OF ok ok' one] d f same)
qed

section \<open>The contract\<close>

text \<open>The view after the content of block \<open>e\<close> was copied to block \<open>d\<close> and written to the disk.\<close>

definition copied :: "32 word \<Rightarrow> 32 word \<Rightarrow> cview \<Rightarrow> cview" where
  "copied d e v = v\<lparr>cv_blk := (cv_blk v)(d := cv_blk v e), cv_dirty := cv_dirty v - {d},
     cv_img := (cv_img v)(unat d := cv_blk v e), cv_trace := cv_trace v @ [(unat d, cv_blk v e)]\<rparr>"

text \<open>
  A block is read into a buffer that is then held, changed while held, written, and let go when the
  disk has it or it is marked to be written later. \<open>fr\<close> relates states that agree outside the cache.
\<close>

locale block_cache =
  fixes ok :: "'s \<Rightarrow> bool"
    and vw :: "'s \<Rightarrow> cview"
    and nblocks :: "'s \<Rightarrow> 32 word"
    and fr :: "'s \<Rightarrow> 's \<Rightarrow> bool"
    and rd :: "32 word \<Rightarrow> (nat, 's) kern"
    and wr :: "nat \<Rightarrow> (unit, 's) kern"
    and rel :: "nat \<Rightarrow> (unit, 's) kern"
    and data :: "'s \<Rightarrow> nat \<Rightarrow> 8 word list"
    and put :: "nat \<Rightarrow> 8 word list \<Rightarrow> 's \<Rightarrow> 's"
  assumes rd_law: "ok s \<Longrightarrow> n < nblocks s \<Longrightarrow> n \<notin> ran (cv_held (vw s)) \<Longrightarrow>
      n \<in> cv_dirty (vw s) \<or> card (cv_dirty (vw s)) + card (dom (cv_held (vw s))) < NBUF \<Longrightarrow>
      \<exists>b s'. rd n s rs = Ret b s' rs \<and> ok s' \<and> fr s s' \<and> cv_held (vw s) b = None \<and>
        vw s' = (vw s)\<lparr>cv_held := (cv_held (vw s))(b \<mapsto> n)\<rparr>"
    and wr_law: "ok s \<Longrightarrow> cv_held (vw s) b = Some n \<Longrightarrow>
      \<exists>s'. wr b s rs = Ret () s' rs \<and> ok s' \<and> fr s s' \<and> vw s' = (vw s)\<lparr>cv_dirty := cv_dirty (vw s) - {n},
        cv_img := (cv_img (vw s))(unat n := cv_blk (vw s) n), cv_trace := cv_trace (vw s) @ [(unat n, cv_blk (vw s) n)]\<rparr>"
    and rel_law: "ok s \<Longrightarrow> cv_held (vw s) b = Some n \<Longrightarrow> n \<in> cv_dirty (vw s) \<or> cv_blk (vw s) n = cv_img (vw s) (unat n) \<Longrightarrow>
      \<exists>s'. rel b s rs = Ret () s' rs \<and> ok s' \<and> fr s s' \<and> vw s' = (vw s)\<lparr>cv_held := (cv_held (vw s))(b := None)\<rparr>"
    and data_law: "ok s \<Longrightarrow> cv_held (vw s) b = Some n \<Longrightarrow> data s b = cv_blk (vw s) n \<and> length (cv_blk (vw s) n) = BSIZE"
    and put_law: "ok s \<Longrightarrow> cv_held (vw s) b = Some n \<Longrightarrow> length x = BSIZE \<Longrightarrow>
      ok (put b x s) \<and> fr s (put b x s) \<and> vw (put b x s) = (vw s)\<lparr>cv_blk := (cv_blk (vw s))(n := x)\<rparr>"
    and fr_trans: "fr s s' \<Longrightarrow> fr s' s'' \<Longrightarrow> fr s s''"
    and fr_nblocks: "fr s s' \<Longrightarrow> nblocks s' = nblocks s"
    and settled: "ok s \<Longrightarrow> n \<notin> cv_dirty (vw s) \<Longrightarrow> n \<notin> ran (cv_held (vw s)) \<Longrightarrow> cv_blk (vw s) n = cv_img (vw s) (unat n)"
    and finite_view: "ok s \<Longrightarrow> finite (cv_dirty (vw s)) \<and> finite (dom (cv_held (vw s)))"
begin

text \<open>Two blocks are read, one is copied onto the other, which is written, and both are let go.\<close>

lemma read_two:
  assumes "ok s" and "cv_held (vw s) = Map.empty" and "x \<noteq> y" and "x < nblocks s" and "y < nblocks s"
    and "card (cv_dirty (vw s)) < NBUF" and "y \<in> cv_dirty (vw s) \<or> card (cv_dirty (vw s)) + 1 < NBUF"
    and "m1 s rs = rd x s rs" and "\<And>t. fr s t \<Longrightarrow> m2 t rs = rd y t rs"
  shows "\<exists>a b s'. kbind m1 (\<lambda>a. kbind m2 (\<lambda>b. f a b)) s rs = f a b s' rs \<and> a \<noteq> b \<and> ok s' \<and> fr s s' \<and>
    vw s' = (vw s)\<lparr>cv_held := [a \<mapsto> x, b \<mapsto> y]\<rparr>"
proof -
  obtain a s1 where 1: "rd x s rs = Ret a s1 rs" "ok s1" "fr s s1" "vw s1 = (vw s)\<lparr>cv_held := [a \<mapsto> x]\<rparr>"
    using rd_law [of s x rs] assms(1-7) by auto
  have "y < nblocks s1" "y \<notin> ran (cv_held (vw s1))" using 1 assms(3,5) fr_nblocks [OF 1(3)] by (auto simp: ran_def)
  then obtain b s2 where 2: "rd y s1 rs = Ret b s2 rs" "ok s2" "fr s1 s2" "cv_held (vw s1) b = None"
      "vw s2 = (vw s1)\<lparr>cv_held := (cv_held (vw s1))(b \<mapsto> y)\<rparr>"
    using rd_law [of s1 y rs] 1 assms(7) by auto
  have "a \<noteq> b" using 1 2(4) by auto
  moreover have "vw s2 = (vw s)\<lparr>cv_held := [a \<mapsto> x, b \<mapsto> y]\<rparr>" using 1 2 by simp
  moreover have "kbind m1 (\<lambda>a. kbind m2 (\<lambda>b. f a b)) s rs = f a b s2 rs"
    using 1 2 assms(8) assms(9) [OF 1(3)] by (simp add: kbind_def)
  ultimately show ?thesis using 2 fr_trans [OF 1(3) 2(3)] by blast
qed

lemma copy_held:
  assumes "ok s" and held: "cv_held (vw s) = [dst \<mapsto> d, src \<mapsto> e]" and "dst \<noteq> src" and "d \<noteq> e"
    and e: "e \<in> cv_dirty (vw s) \<or> cv_blk (vw s) e = cv_img (vw s) (unat e)"
  shows "\<exists>s'. kget (\<lambda>s. kseq (kmod (put dst (data s src))) (kseq (wr dst) (kseq (rel src) (rel dst)))) s rs = Ret () s' rs \<and>
    ok s' \<and> fr s s' \<and> vw s' = (vw s)\<lparr>cv_blk := (cv_blk (vw s))(d := cv_blk (vw s) e), cv_dirty := cv_dirty (vw s) - {d},
      cv_img := (cv_img (vw s))(unat d := cv_blk (vw s) e), cv_trace := cv_trace (vw s) @ [(unat d, cv_blk (vw s) e)],
      cv_held := Map.empty\<rparr>"
proof -
  let ?x = "data s src"
  have x: "?x = cv_blk (vw s) e" "length ?x = BSIZE" using data_law [of s src e] assms by auto
  let ?s1 = "put dst ?x s"
  have 1: "ok ?s1" "fr s ?s1" "vw ?s1 = (vw s)\<lparr>cv_blk := (cv_blk (vw s))(d := ?x)\<rparr>"
    using put_law [of s dst d ?x] assms x by auto
  obtain s2 where 2: "wr dst ?s1 rs = Ret () s2 rs" "ok s2" "fr ?s1 s2"
      "vw s2 = (vw ?s1)\<lparr>cv_dirty := cv_dirty (vw ?s1) - {d}, cv_img := (cv_img (vw ?s1))(unat d := cv_blk (vw ?s1) d),
        cv_trace := cv_trace (vw ?s1) @ [(unat d, cv_blk (vw ?s1) d)]\<rparr>"
    using wr_law [of ?s1 dst d rs] 1 held assms(3) by auto
  have ne: "unat e \<noteq> unat d" using assms(4) by (simp add: word_unat_eq_iff eq_commute)
  have "cv_held (vw s2) src = Some e" "e \<in> cv_dirty (vw s2) \<or> cv_blk (vw s2) e = cv_img (vw s2) (unat e)"
    using e held assms(3,4) 1 2 ne by auto
  then obtain s3 where 3: "rel src s2 rs = Ret () s3 rs" "ok s3" "fr s2 s3"
      "vw s3 = (vw s2)\<lparr>cv_held := (cv_held (vw s2))(src := None)\<rparr>"
    using rel_law [OF 2(2)] by blast
  have "cv_held (vw s3) dst = Some d" "cv_blk (vw s3) d = cv_img (vw s3) (unat d)"
    using held assms(3) 1 2 3 by auto
  then obtain s4 where 4: "rel dst s3 rs = Ret () s4 rs" "ok s4" "fr s3 s4"
      "vw s4 = (vw s3)\<lparr>cv_held := (cv_held (vw s3))(dst := None)\<rparr>"
    using rel_law [OF 3(2)] by blast
  have "kget (\<lambda>s. kseq (kmod (put dst (data s src))) (kseq (wr dst) (kseq (rel src) (rel dst)))) s rs = Ret () s4 rs"
    using 2 3 4 by simp
  moreover have "cv_held (vw s4) = Map.empty" using held 1 2 3 4 assms(3) by (auto simp: fun_eq_iff)
  moreover have "fr s s4" using 1(2) 2(3) 3(3) 4(3) fr_trans by blast
  moreover have "vw s4 = (vw s)\<lparr>cv_blk := (cv_blk (vw s))(d := ?x), cv_dirty := cv_dirty (vw s) - {d},
      cv_img := (cv_img (vw s))(unat d := ?x), cv_trace := cv_trace (vw s) @ [(unat d, ?x)], cv_held := Map.empty\<rparr>"
    using \<open>cv_held (vw s4) = Map.empty\<close> by (intro cview.equality) (simp_all add: 1 2 3 4)
  ultimately show ?thesis using 4(2) x(1) by auto
qed

lemma copy_onto_first:
  assumes "ok s" and "cv_held (vw s) = Map.empty" and "x \<noteq> y" and "x < nblocks s" and "y < nblocks s"
    and "card (cv_dirty (vw s)) < NBUF" and "y \<in> cv_dirty (vw s) \<or> card (cv_dirty (vw s)) + 1 < NBUF"
    and "m1 s rs = rd x s rs" and "\<And>t. fr s t \<Longrightarrow> m2 t rs = rd y t rs"
  shows "\<exists>s'. kbind m1 (\<lambda>a. kbind m2 (\<lambda>b. kget (\<lambda>s.
      kseq (kmod (put a (data s b))) (kseq (wr a) (kseq (rel b) (rel a)))))) s rs = Ret () s' rs \<and>
    ok s' \<and> fr s s' \<and> vw s' = copied x y (vw s)"
proof -
  obtain a b t where t: "kbind m1 (\<lambda>a. kbind m2 (\<lambda>b. kget (\<lambda>s.
      kseq (kmod (put a (data s b))) (kseq (wr a) (kseq (rel b) (rel a)))))) s rs
      = kget (\<lambda>s. kseq (kmod (put a (data s b))) (kseq (wr a) (kseq (rel b) (rel a)))) t rs"
      "a \<noteq> b" "ok t" "fr s t" "vw t = (vw s)\<lparr>cv_held := [a \<mapsto> x, b \<mapsto> y]\<rparr>"
    using read_two [where ?m1.0 = m1 and ?m2.0 = m2 and rs = rs and s = s and x = x and y = y, OF assms, where f = "\<lambda>a b. kget (\<lambda>s. kseq (kmod (put a (data s b))) (kseq (wr a) (kseq (rel b) (rel a))))"]
    by blast
  have "y \<in> cv_dirty (vw s) \<or> cv_blk (vw s) y = cv_img (vw s) (unat y)" using settled [OF assms(1), of y] assms(2) by auto
  then obtain u where u: "kget (\<lambda>s. kseq (kmod (put a (data s b))) (kseq (wr a) (kseq (rel b) (rel a)))) t rs = Ret () u rs"
      "ok u" "fr t u" "vw u = (vw t)\<lparr>cv_blk := (cv_blk (vw t))(x := cv_blk (vw t) y), cv_dirty := cv_dirty (vw t) - {x},
        cv_img := (cv_img (vw t))(unat x := cv_blk (vw t) y), cv_trace := cv_trace (vw t) @ [(unat x, cv_blk (vw t) y)],
        cv_held := Map.empty\<rparr>"
    using copy_held [OF t(3), of a x b y rs] t assms(3) by auto
  then have "vw u = copied x y (vw s)" using t(5) assms(2) by (simp add: copied_def)
  then show ?thesis using t u fr_trans [OF t(4) u(3)] by auto
qed

lemma copy_onto_second:
  assumes "ok s" and "cv_held (vw s) = Map.empty" and "x \<noteq> y" and "x < nblocks s" and "y < nblocks s"
    and "card (cv_dirty (vw s)) < NBUF" and "y \<in> cv_dirty (vw s) \<or> card (cv_dirty (vw s)) + 1 < NBUF"
    and "m1 s rs = rd x s rs" and "\<And>t. fr s t \<Longrightarrow> m2 t rs = rd y t rs"
  shows "\<exists>s'. kbind m1 (\<lambda>a. kbind m2 (\<lambda>b. kget (\<lambda>s.
      kseq (kmod (put b (data s a))) (kseq (wr b) (kseq (rel a) (rel b)))))) s rs = Ret () s' rs \<and>
    ok s' \<and> fr s s' \<and> vw s' = copied y x (vw s)"
proof -
  obtain a b t where t: "kbind m1 (\<lambda>a. kbind m2 (\<lambda>b. kget (\<lambda>s.
      kseq (kmod (put b (data s a))) (kseq (wr b) (kseq (rel a) (rel b)))))) s rs
      = kget (\<lambda>s. kseq (kmod (put b (data s a))) (kseq (wr b) (kseq (rel a) (rel b)))) t rs"
      "a \<noteq> b" "ok t" "fr s t" "vw t = (vw s)\<lparr>cv_held := [a \<mapsto> x, b \<mapsto> y]\<rparr>"
    using read_two [where ?m1.0 = m1 and ?m2.0 = m2 and rs = rs and s = s and x = x and y = y, OF assms, where f = "\<lambda>a b. kget (\<lambda>s. kseq (kmod (put b (data s a))) (kseq (wr b) (kseq (rel a) (rel b))))"]
    by blast
  have h: "cv_held (vw t) = [b \<mapsto> y, a \<mapsto> x]" using t(2,5) by (simp add: fun_upd_twist)
  have "x \<in> cv_dirty (vw s) \<or> cv_blk (vw s) x = cv_img (vw s) (unat x)" using settled [OF assms(1), of x] assms(2) by auto
  then obtain u where u: "kget (\<lambda>s. kseq (kmod (put b (data s a))) (kseq (wr b) (kseq (rel a) (rel b)))) t rs = Ret () u rs"
      "ok u" "fr t u" "vw u = (vw t)\<lparr>cv_blk := (cv_blk (vw t))(y := cv_blk (vw t) x), cv_dirty := cv_dirty (vw t) - {y},
        cv_img := (cv_img (vw t))(unat y := cv_blk (vw t) x), cv_trace := cv_trace (vw t) @ [(unat y, cv_blk (vw t) x)],
        cv_held := Map.empty\<rparr>"
    using copy_held [OF t(3) h, of rs] t assms(3) by auto
  then have "vw u = copied y x (vw s)" using t(5) assms(2) by (simp add: copied_def)
  then show ?thesis using t u fr_trans [OF t(4) u(3)] by auto
qed

end

lemma calm_pid_of: "calm s s' \<Longrightarrow> quiescent i s \<Longrightarrow> pid_of i s' = pid_of i s"
  using calm_pid(1) by (auto simp: quiescent_def)

lemma effects_over:
  "hit pid b s = over s (hit pid b s)" "fetched pid n b s = over s (fetched pid n b s)" "stored b s = over s (stored b s)"
  "dropped b s = over s (dropped b s)" "set_data b x s = over s (set_data b x s)" "mark_dirty b s = over s (mark_dirty b s)"
  by (simp_all add: hit_def fetched_def miss_def stored_def synced_def dropped_def set_data_def mark_dirty_def relinked_def
      link_head_def link_self_def unlink_buf_def over_def up_buf_def up_slock_def put_block_def Let_def)

lemma effects_inode_locks:
  "ss_locks (hit pid b s) (SInode j) = ss_locks s (SInode j)" "ss_locks (fetched pid n b s) (SInode j) = ss_locks s (SInode j)"
  "ss_locks (stored b s) (SInode j) = ss_locks s (SInode j)" "ss_locks (dropped b s) (SInode j) = ss_locks s (SInode j)"
  "ss_locks (set_data b x s) (SInode j) = ss_locks s (SInode j)" "ss_locks (mark_dirty b s) (SInode j) = ss_locks s (SInode j)"
  by (simp_all add: hit_def fetched_def miss_def stored_def synced_def dropped_def set_data_def mark_dirty_def relinked_keeps)

lemma effects_quiescent:
  "quiescent i (hit pid b s) = quiescent i s" "quiescent i (fetched pid n b s) = quiescent i s"
  "quiescent i (stored b s) = quiescent i s" "quiescent i (dropped b s) = quiescent i s"
  "quiescent i (set_data b x s) = quiescent i s" "quiescent i (mark_dirty b s) = quiescent i s"
  using quiescent_over [of i s "hit pid b s"] quiescent_over [of i s "fetched pid n b s"] quiescent_over [of i s "stored b s"]
    quiescent_over [of i s "dropped b s"] quiescent_over [of i s "set_data b x s"] quiescent_over [of i s "mark_dirty b s"]
  by (simp_all only: effects_over [symmetric])

lemma effects_pid:
  "pid_of i (hit pid b s) = pid_of i s" "pid_of i (fetched pid n b s) = pid_of i s"
  "pid_of i (stored b s) = pid_of i s" "pid_of i (dropped b s) = pid_of i s"
  "pid_of i (set_data b x s) = pid_of i s" "pid_of i (mark_dirty b s) = pid_of i s"
  by (simp_all add: hit_def fetched_def miss_def stored_def synced_def dropped_def set_data_def mark_dirty_def)

text \<open>How a run ends up in the view, given its effect.\<close>

lemma effect_run:
  assumes "io_ok i s" and "calm t s'" and "t = over s t" and "\<And>j. ss_locks t (SInode j) = ss_locks s (SInode j)"
    and "quiescent i t = quiescent i s" and "pid_of i t = pid_of i s" and "cache_ok (pid_of i s) t" and "view t = v"
  shows "io_ok i s'" "cframe s s'" "view s' = v"
proof -
  have q: "quiescent i t" using assms(1,5) by (simp add: io_ok_def)
  show "io_ok i s'" "view s' = v" using io_ok_calm [OF assms(2) q] assms(6-8) by auto
  show "cframe s s'" by (rule cframe_calm [OF assms(2-4)])
qed

lemma bread_run:
  assumes ok: "io_ok i s" and n: "n < word_of_int (dk_size s)" "n \<notin> ran (cv_held (view s))"
    and room: "n \<in> cv_dirty (view s) \<or> card (cv_dirty (view s)) + card (dom (cv_held (view s))) < NBUF"
  shows "\<exists>b s'. bread 1 n s rs = Ret b s' rs \<and> io_ok i s' \<and> cframe s s' \<and> cv_held (view s) b = None \<and>
    view s' = (view s)\<lparr>cv_held := (cv_held (view s))(b \<mapsto> n)\<rparr>"
proof -
  let ?pid = "pid_of i s" and ?P = "\<lambda>b. b_dev (buf_at s b) = 1 \<and> b_blockno (buf_at s b) = n"
  have q: "quiescent i s" and c: "cache_ok ?pid s" using ok by (auto simp: io_ok_def)
  obtain xs where r: "ring s xs" using cache_okD(2) [OF c] by blast
  have mem: "b \<in> set xs \<longleftrightarrow> b < NBUF" for b using r by (simp add: ring_def)
  show ?thesis
  proof (cases "List.find ?P xs")
    case (Some b)
    then have on: "on_block s b n" using find_SomeD [OF Some] mem by (simp add: on_block_def)
    have free: "\<not> locked_buf s b"
      using n(2) on ranI [of "cv_held (view s)" b n] by (auto simp: view_def on_block_def)
    obtain s' where s': "bget 1 n s rs = Ret b s' rs" "calm (hit ?pid b s) s'"
      using bget_hit [OF q r Some] free by (auto simp: locked_buf_def)
    have "buf_at s' b = buf_at (hit ?pid b s) b" using calm_bstate(1) [OF s'(2)] by simp
    then have "b_flags (buf_at s' b) AND B_VALID \<noteq> 0"
      using cache_okD(1,4) [OF c] on by (simp add: hit_def on_block_def buf_ok_def Let_def valid_def)
    then have "bread 1 n s rs = Ret b s' rs" using s'(1) by (simp add: bread_def)
    moreover have "cv_held (view s) b = None" using free by (simp add: view_def)
    ultimately show ?thesis
      using effect_run [OF ok s'(2) effects_over(1) effects_inode_locks(1) effects_quiescent(1) effects_pid(1)
          hit_effect [OF c on free]] by blast
  next
    case None
    then have new: "\<not> on_block s j n" for j using mem by (auto simp: find_None_iff on_block_def)
    then have "n \<notin> cv_dirty (view s)" by (simp add: view_def)
    then obtain b where b: "List.find (\<lambda>b. b_refcnt (buf_at s b) = 0 \<and> b_flags (buf_at s b) AND B_DIRTY = 0) (rev xs) = Some b"
      using busy_count [OF c _ r] room by blast
    then have bn: "b < NBUF" and z: "b_refcnt (buf_at s b) = 0" "\<not> dirty (buf_at s b)"
      using find_SomeD [OF b] mem by (simp_all add: dirty_def)
    have free: "\<not> locked_buf s b" using cache_okD(4) [OF c bn] z by (auto simp: buf_ok_def Let_def split: if_splits)
    obtain u where u: "bget 1 n s rs = Ret b u rs" "calm (miss ?pid 1 n b s) u"
      using bget_miss [OF q r None b] free by (auto simp: locked_buf_def)
    have bl: "b < length (bc_buf s)" using bn cache_okD(1) [OF c] by simp
    have at: "buf_at u b = (buf_at s b)\<lparr>b_dev := 1, b_blockno := n, b_flags := 0, b_refcnt := 1\<rparr>"
      using calm_bstate(1) [OF u(2)] bl by (simp add: miss_def)
    have qm: "quiescent i (miss ?pid 1 n b s)" using q by (simp add: miss_def)
    have qu: "quiescent i u" by (rule calm_quiescent [OF u(2) qm])
    have pu: "pid_of i u = ?pid" using calm_pid_of [OF u(2) qm] by (simp add: miss_def)
    have mu: "mine_slk (pid_of i u) b u" using calm_slocks [OF u(2)] pu by (simp add: miss_def mine_slk_def taken_by_def)
    have lu: "b < length (bc_buf u)" "dk_size u = dk_size s" "dk_img u = dk_img s"
      using calm_bstate [OF u(2)] bl by (simp_all add: miss_def)
    obtain v where v: "iderw b u rs = Ret () v rs"
        "calm (up_buf b (\<lambda>k. k\<lparr>b_data := dk_img u (unat (b_blockno k)), b_flags := b_flags k OR B_VALID\<rparr>) u) v"
      by (rule iderw_read [OF qu mu, of rs]) (use at lu n in \<open>simp_all add: valid_def dirty_def\<close>)
    have "up_buf b (\<lambda>k. k\<lparr>b_data := dk_img u (unat (b_blockno k)), b_flags := b_flags k OR B_VALID\<rparr>) u
        = up_buf b (\<lambda>k. k\<lparr>b_data := dk_img s (unat n), b_flags := b_flags k OR B_VALID\<rparr>) u"
      using at lu by (simp add: up_buf_def)
    then have cv: "calm (fetched ?pid n b s) v"
      using v(2) calm_trans [OF calm_up_buf [OF u(2)]] by (simp add: fetched_def)
    have "bread 1 n s rs = Ret b v rs" using u(1) v(1) at by (simp add: bread_def)
    moreover have "cv_held (view s) b = None" using free by (simp add: view_def)
    ultimately show ?thesis
      using effect_run [OF ok cv effects_over(2) effects_inode_locks(2) effects_quiescent(2) effects_pid(2)
          fetched_effect [OF c bn free z(2) new n(1)]] by blast
  qed
qed

lemma bwrite_spec:
  assumes ok: "io_ok i s" and held: "cv_held (view s) b = Some n"
  shows "\<exists>s'. bwrite b s rs = Ret () s' rs \<and> io_ok i s' \<and> cframe s s' \<and> view s' = (view s)\<lparr>cv_dirty := cv_dirty (view s) - {n},
    cv_img := (dk_img s)(unat n := cv_blk (view s) n), cv_trace := dk_trace s @ [(unat n, cv_blk (view s) n)]\<rparr>"
proof -
  have q: "quiescent i s" and c: "cache_ok (pid_of i s) s" using ok by (auto simp: io_ok_def)
  note H = held_buf [OF c held]
  have l: "b < length (bc_buf s)" using H(1) cache_okD(1) [OF c] by simp
  obtain s' where s': "bwrite b s rs = Ret () s' rs" "calm (stored b s) s'"
    by (rule bwrite_run [OF q H(4), of rs]) (use H l in \<open>simp_all add: on_block_def\<close>)
  then show ?thesis
    using effect_run [OF ok s'(2) effects_over(3) effects_inode_locks(3) effects_quiescent(3) effects_pid(3)
        stored_effect [OF c held]] by blast
qed

lemma brelse_spec:
  assumes ok: "io_ok i s" and held: "cv_held (view s) b = Some n"
    and safe: "n \<in> cv_dirty (view s) \<or> cv_blk (view s) n = dk_img s (unat n)"
  shows "\<exists>s'. brelse b s rs = Ret () s' rs \<and> io_ok i s' \<and> cframe s s' \<and>
    view s' = (view s)\<lparr>cv_held := (cv_held (view s))(b := None)\<rparr>"
proof -
  have q: "quiescent i s" and c: "cache_ok (pid_of i s) s" using ok by (auto simp: io_ok_def)
  note H = held_buf [OF c held]
  have l: "b < length (bc_buf s)" using H(1) cache_okD(1) [OF c] by simp
  obtain s' where s': "brelse b s rs = Ret () s' rs" "calm (dropped b s) s'"
    by (rule brelse_run [OF q H(4,8) l])
  then show ?thesis
    using effect_run [OF ok s'(2) effects_over(4) effects_inode_locks(4) effects_quiescent(4) effects_pid(4)
        dropped_effect [OF c held safe]] by blast
qed

lemma set_data_spec:
  assumes ok: "io_ok i s" and held: "cv_held (view s) b = Some n" and x: "length x = BSIZE"
  shows "io_ok i (set_data b x s)" "cframe s (set_data b x s)"
    "view (set_data b x s) = (view s)\<lparr>cv_blk := (cv_blk (view s))(n := x)\<rparr>"
proof -
  have c: "cache_ok (pid_of i s) s" using ok by (simp add: io_ok_def)
  show "io_ok i (set_data b x s)" "cframe s (set_data b x s)"
    "view (set_data b x s) = (view s)\<lparr>cv_blk := (cv_blk (view s))(n := x)\<rparr>"
    by (rule effect_run [OF ok calm_refl effects_over(5) effects_inode_locks(5) effects_quiescent(5) effects_pid(5)
      set_data_effect [OF c held x]])+
qed

lemma mark_dirty_spec:
  assumes ok: "io_ok i s" and held: "cv_held (view s) b = Some n"
  shows "io_ok i (mark_dirty b s)" "cframe s (mark_dirty b s)"
    "view (mark_dirty b s) = (view s)\<lparr>cv_dirty := insert n (cv_dirty (view s))\<rparr>"
proof -
  have c: "cache_ok (pid_of i s) s" using ok by (simp add: io_ok_def)
  show "io_ok i (mark_dirty b s)" "cframe s (mark_dirty b s)"
    "view (mark_dirty b s) = (view s)\<lparr>cv_dirty := insert n (cv_dirty (view s))\<rparr>"
    by (rule effect_run [OF ok calm_refl effects_over(6) effects_inode_locks(6) effects_quiescent(6) effects_pid(6)
      mark_dirty_effect [OF c held]])+
qed

interpretation bc: block_cache "io_ok i" view "\<lambda>s. word_of_int (dk_size s)" cframe "bread 1" bwrite brelse
  "\<lambda>s b. b_data (buf_at s b)" set_data for i
proof (unfold_locales, goal_cases)
  case (1 s n rs)
  then show ?case by (intro bread_run) auto
next
  case (2 s b n rs)
  then show ?case using bwrite_spec [OF 2] by simp
next
  case (3 s b n rs)
  then show ?case using brelse_spec [of i s b n rs] by simp
next
  case (4 s b n)
  then show ?case using held_buf [of "pid_of i s" s b n] by (simp add: io_ok_def)
next
  case (5 s b n x)
  then show ?case using set_data_spec [OF 5] by simp
next
  case (6 s s' s'')
  then show ?case by (rule cframe_trans)
next
  case (7 s s')
  then show ?case by (simp add: cframe_fields)
next
  case (8 s n)
  then show ?case using settled_blk [of "pid_of i s" s n] by (simp add: io_ok_def)
next
  case (9 s)
  have "cv_dirty (view s) \<subseteq> (\<lambda>b. b_blockno (buf_at s b)) ` {0..<NBUF}" by (auto simp: view_def on_block_def)
  moreover have "dom (cv_held (view s)) \<subseteq> {0..<NBUF}" by (auto simp: view_def split: if_splits)
  ultimately show ?case by (meson finite_atLeastLessThan finite_imageI finite_subset)
qed

section \<open>Properties\<close>

definition overwrite :: "32 word \<Rightarrow> 8 word list \<Rightarrow> (unit, 'a bstate_scheme) kern" where
  "overwrite n x = kbind (bread 1 n) (\<lambda>b. kseq (kmod (set_data b x)) (kseq (bwrite b) (brelse b)))"

text \<open>C8: Reading block \<open>m\<close> after block \<open>n\<close> was read, changed, written and released gives the new content
  if the blocks are the same and the old content otherwise, whatever buffers were recycled between; the
  disk has received exactly that one write, and the invariant of the cache holds again.\<close>

theorem buffer_cache_roundtrip:
  assumes "io_ok i s" and "cv_held (view s) = Map.empty" and "card (cv_dirty (view s)) < NBUF" and "n \<notin> cv_dirty (view s)"
    and "n < word_of_int (dk_size s)" and "m < word_of_int (dk_size s)" and "length x = BSIZE"
  shows "\<exists>b s'. kseq (overwrite n x) (bread 1 m) s rs = Ret b s' rs \<and> io_ok i s' \<and>
    b_data (buf_at s' b) = (if m = n then x else blk s m) \<and> slk_holder (SBuf b) s' = Some (pid_of i s) \<and>
    dk_img s' = (dk_img s)(unat n := x) \<and> dk_trace s' = dk_trace s @ [(unat n, x)]"
proof -
  obtain b1 s1 where 1: "bread 1 n s rs = Ret b1 s1 rs" "io_ok i s1" "cframe s s1" "view s1 = (view s)\<lparr>cv_held := [b1 \<mapsto> n]\<rparr>"
    using bread_run [OF assms(1,5), of rs] assms(2-4) by auto
  let ?s2 = "set_data b1 x s1"
  have h1: "cv_held (view s1) b1 = Some n" using 1 by simp
  note 2 = set_data_spec [OF 1(2) h1 assms(7)]
  have h2: "cv_held (view ?s2) b1 = Some n" using 1 2 by simp
  obtain s3 where 3: "bwrite b1 ?s2 rs = Ret () s3 rs" "io_ok i s3" "cframe ?s2 s3"
      "view s3 = (view ?s2)\<lparr>cv_dirty := cv_dirty (view ?s2) - {n}, cv_img := (cv_img (view ?s2))(unat n := cv_blk (view ?s2) n),
        cv_trace := cv_trace (view ?s2) @ [(unat n, cv_blk (view ?s2) n)]\<rparr>"
    using bc.wr_law [OF 2(1) h2, of rs] by blast
  have v3: "view s3 = (view s)\<lparr>cv_blk := (cv_blk (view s))(n := x), cv_img := (dk_img s)(unat n := x),
      cv_trace := dk_trace s @ [(unat n, x)], cv_held := [b1 \<mapsto> n]\<rparr>"
    unfolding 3(4) 2(3) 1(4) using assms(4) by simp
  have h3: "cv_held (view s3) b1 = Some n" "cv_blk (view s3) n = cv_img (view s3) (unat n)" unfolding v3 by simp_all
  obtain s4 where 4: "brelse b1 s3 rs = Ret () s4 rs" "io_ok i s4" "cframe s3 s4"
      "view s4 = (view s3)\<lparr>cv_held := (cv_held (view s3))(b1 := None)\<rparr>"
    using bc.rel_law [OF 3(2) h3(1) disjI2 [OF h3(2)], of rs] by blast
  have v4: "view s4 = (view s)\<lparr>cv_blk := (cv_blk (view s))(n := x), cv_img := (dk_img s)(unat n := x),
      cv_trace := dk_trace s @ [(unat n, x)]\<rparr>"
    unfolding 4(4) v3 using assms(2) by simp
  have f: "cframe s s4" using cframe_trans [OF cframe_trans [OF 1(3) 2(2)] cframe_trans [OF 3(3) 4(3)]] .
  have "m < word_of_int (dk_size s4)" "m \<notin> ran (cv_held (view s4))" using assms(2,6) cframe_fields(5) [OF f] by (simp_all add: v4)
  moreover have "card (cv_dirty (view s4)) + card (dom (cv_held (view s4))) < NBUF" using assms(2,3) by (simp add: v4)
  ultimately obtain b s5 where 5: "bread 1 m s4 rs = Ret b s5 rs" "io_ok i s5" "cframe s4 s5"
      "view s5 = (view s4)\<lparr>cv_held := (cv_held (view s4))(b \<mapsto> m)\<rparr>"
    using bread_run [OF 4(2)] by blast
  have run: "kseq (overwrite n x) (bread 1 m) s rs = Ret b s5 rs"
    using 1(1) 3(1) 4(1) 5(1) by (simp add: overwrite_def)
  have p: "pid_of i s5 = pid_of i s"
    using cframe_fields(2) [OF cframe_trans [OF f 5(3)], of i] assms(1) by (simp add: io_ok_def quiescent_def)
  have h5: "cv_held (view s5) b = Some m" by (simp add: 5(4))
  have c5: "cache_ok (pid_of i s5) s5" using 5(2) by (simp add: io_ok_def)
  note H = held_buf [OF c5 h5]
  have "cv_blk (view s5) m = (if m = n then x else blk s m)" by (simp add: 5(4) v4) (simp add: view_def)
  moreover have "dk_img s5 = cv_img (view s5)" "dk_trace s5 = cv_trace (view s5)" by simp_all
  ultimately show ?thesis
    using run 5(2) H(3,4) p by (simp add: 5(4) v4 slk_holder_def mine_slk_def)
qed

definition small_bs :: bstate where
  "small_bs = sstate.extend (small_ss\<lparr>ss_locks := (\<lambda>l. \<lparr>slk_locked = 0, slk_name = [], slk_pid = 0\<rparr>)\<rparr>)
     \<lparr>bc_buf = map (\<lambda>b. \<lparr>b_flags = 0, b_dev = 0, b_blockno = 0, b_refcnt = 0, b_prev = (if b = 0 then NBUF else b - 1),
        b_next = (if b = NBUF then 0 else b + 1), b_data = replicate BSIZE 0\<rparr>) [0..<NBUF + 1],
      dk_img = (\<lambda>_. replicate BSIZE 0), dk_imgsize = 512000, dk_size = 1000, dk_trace = []\<rparr>"

lemma small_bs_fields:
  "m_cpus small_bs = m_cpus small_ss" "m_lapicid small_bs = m_lapicid small_ss" "m_if small_bs = m_if small_ss"
  "m_locks small_bs = m_locks small_ss" "pt_proc small_bs = pt_proc small_ss" "dk_size small_bs = 1000"
  "dk_img small_bs n = replicate BSIZE 0" "slk_locked (ss_locks small_bs l) = 0" "dk_trace small_bs = []"
  by (simp_all add: small_bs_def sstate.defs)

lemma small_bs_buf:
  assumes "b < NBUF + 1"
  shows "buf_at small_bs b = \<lparr>b_flags = 0, b_dev = 0, b_blockno = 0, b_refcnt = 0, b_prev = (if b = 0 then NBUF else b - 1),
    b_next = (if b = NBUF then 0 else b + 1), b_data = replicate BSIZE 0\<rparr>"
  using assms by (simp add: small_bs_def sstate.defs del: upt_Suc)

lemma small_bs_ok: "cache_ok pid small_bs" "io_ok 0 small_bs" "cv_held (view small_bs) = Map.empty" "cv_dirty (view small_bs) = {}"
proof -
  have len: "length (bc_buf small_bs) = NBUF + 1" by (simp add: small_bs_def sstate.defs)
  have N: "0 < NBUF" by (simp add: NBUF_def)
  have "chain (nxt small_bs) (prv small_bs) 0 [Suc 0..<NBUF] NBUF"
    by (rule chain_upt) (use N in \<open>auto simp: nxt_def prv_def small_bs_buf\<close>)
  then have "chain (nxt small_bs) (prv small_bs) NBUF [0..<NBUF] NBUF"
    using N small_bs_buf [of NBUF] small_bs_buf [of 0] by (simp add: nxt_def prv_def upt_conv_Cons)
  then have r: "ring small_bs [0..<NBUF]" by (simp add: ring_def)
  have "quiescent 0 small_bs"
  proof -
    have "self small_bs = self small_ss" by (rule self_cong) (simp_all add: small_bs_fields)
    then show ?thesis
      using small_ss_ok(4) by (simp add: quiescent_def cpu_ok_def cur_def mine_def ncli_def small_bs_fields)
  qed
  moreover show "cache_ok pid small_bs" for pid
    using len r by (auto simp: cache_ok_def on_block_def buf_ok_def Let_def small_bs_buf small_bs_fields dirty_def locked_buf_def)
  ultimately show "io_ok 0 small_bs" by (simp add: io_ok_def)
  show "cv_held (view small_bs) = Map.empty" "cv_dirty (view small_bs) = {}"
    by (auto simp: view_def locked_buf_def small_bs_fields on_block_def small_bs_buf fun_eq_iff)
qed

theorem buffer_cache_roundtrip_witness:
  "\<exists>b s'. kseq (overwrite 3 (replicate 512 7)) (bread 1 3) small_bs [] = Ret b s' [] \<and> b_data (buf_at s' b) = replicate 512 7 \<and>
    dk_trace s' = [(3, replicate 512 7)]"
  using buffer_cache_roundtrip [OF small_bs_ok(2,3), of 3 3 "replicate 512 7" "[]"] small_bs_ok(4)
  by (auto simp: NBUF_def BSIZE_def small_bs_fields)

end
