(* ===== verification/Bytes.thy ===== *)
theory Bytes
  imports Memory
begin

unbundle bit_operations_syntax

text \<open>
  Fields inside a disk block: a block is a list of bytes, and the structures of \<^verbatim>\<open>fs.h\<close> and \<^verbatim>\<open>log.c\<close> lie in
  it at fixed offsets, little endian. Storing a field and loading it gives it back, and fields that do
  not overlap do not disturb each other.
\<close>

definition get32 :: "nat \<Rightarrow> 8 word list \<Rightarrow> 32 word" where
  "get32 a xs = ucast (xs ! a) OR push_bit 8 (ucast (xs ! (a + 1)))
     OR push_bit 16 (ucast (xs ! (a + 2))) OR push_bit 24 (ucast (xs ! (a + 3)))"

definition put32 :: "nat \<Rightarrow> 32 word \<Rightarrow> 8 word list \<Rightarrow> 8 word list" where
  "put32 a w xs = xs[a := ucast w, a + 1 := ucast (drop_bit 8 w), a + 2 := ucast (drop_bit 16 w), a + 3 := ucast (drop_bit 24 w)]"

definition get16 :: "nat \<Rightarrow> 8 word list \<Rightarrow> 16 word" where
  "get16 a xs = ucast (xs ! a) OR push_bit 8 (ucast (xs ! (a + 1)))"

definition put16 :: "nat \<Rightarrow> 16 word \<Rightarrow> 8 word list \<Rightarrow> 8 word list" where
  "put16 a w xs = xs[a := ucast w, a + 1 := ucast (drop_bit 8 w)]"

definition slice :: "nat \<Rightarrow> nat \<Rightarrow> 'a list \<Rightarrow> 'a list" where
  "slice a n xs = take n (drop a xs)"

definition splice :: "nat \<Rightarrow> 'a list \<Rightarrow> 'a list \<Rightarrow> 'a list" where
  "splice a ys xs = take a xs @ ys @ drop (a + length ys) xs"

lemma length_put [simp]: "length (put32 a w xs) = length xs" "length (put16 a v xs) = length xs"
  by (simp_all add: put32_def put16_def)

lemma nth_put32:
  assumes "a + 4 \<le> length xs"
  shows "put32 a w xs ! i = (if i = a then ucast w else if i = a + 1 then ucast (drop_bit 8 w)
    else if i = a + 2 then ucast (drop_bit 16 w) else if i = a + 3 then ucast (drop_bit 24 w) else xs ! i)"
  using assms by (auto simp: put32_def nth_list_update)

lemma nth_put16:
  assumes "a + 2 \<le> length xs"
  shows "put16 a w xs ! i = (if i = a then ucast w else if i = a + 1 then ucast (drop_bit 8 w) else xs ! i)"
  using assms by (auto simp: put16_def nth_list_update)

lemma bytes_word32: "ucast (ucast w :: 8 word) OR push_bit 8 (ucast (ucast (drop_bit 8 w) :: 8 word))
    OR push_bit 16 (ucast (ucast (drop_bit 16 w) :: 8 word)) OR push_bit 24 (ucast (ucast (drop_bit 24 w) :: 8 word)) = (w :: 32 word)"
proof (rule bit_word_eqI)
  fix n assume "n < LENGTH(32)"
  then consider "n < 8" | "8 \<le> n" "n < 16" | "16 \<le> n" "n < 24" | "24 \<le> n" "n < 32" by fastforce
  then show "bit (ucast (ucast w :: 8 word) OR push_bit 8 (ucast (ucast (drop_bit 8 w) :: 8 word))
      OR push_bit 16 (ucast (ucast (drop_bit 16 w) :: 8 word))
      OR push_bit 24 (ucast (ucast (drop_bit 24 w) :: 8 word)) :: 32 word) n = bit w n"
    by cases (auto simp: bit_simps)
qed

lemma bytes_word16: "ucast (ucast w :: 8 word) OR push_bit 8 (ucast (ucast (drop_bit 8 w) :: 8 word)) = (w :: 16 word)"
proof (rule bit_word_eqI)
  fix n assume "n < LENGTH(16)"
  then consider "n < 8" | "8 \<le> n" "n < 16" by fastforce
  then show "bit (ucast (ucast w :: 8 word) OR push_bit 8 (ucast (ucast (drop_bit 8 w) :: 8 word)) :: 16 word) n = bit w n"
    by cases (auto simp: bit_simps)
qed

lemma get32_put32 [simp]: "a + 4 \<le> length xs \<Longrightarrow> get32 a (put32 a w xs) = w"
  using bytes_word32 [of w] by (simp add: get32_def nth_put32 ac_simps)

lemma get16_put16 [simp]: "a + 2 \<le> length xs \<Longrightarrow> get16 a (put16 a w xs) = w"
  using bytes_word16 [of w] by (simp add: get16_def nth_put16)

lemma get32_cong: "(\<And>i. i < 4 \<Longrightarrow> xs ! (a + i) = ys ! (a + i)) \<Longrightarrow> get32 a xs = get32 a ys"
proof -
  assume eq: "\<And>i. i < 4 \<Longrightarrow> xs ! (a + i) = ys ! (a + i)"
  show ?thesis using eq [of 0] eq [of 1] eq [of 2] eq [of 3] by (simp add: get32_def)
qed

lemma get16_cong: "(\<And>i. i < 2 \<Longrightarrow> xs ! (a + i) = ys ! (a + i)) \<Longrightarrow> get16 a xs = get16 a ys"
proof -
  assume eq: "\<And>i. i < 2 \<Longrightarrow> xs ! (a + i) = ys ! (a + i)"
  show ?thesis using eq [of 0] eq [of 1] by (simp add: get16_def)
qed

lemma get32_put32_other: "b + 4 \<le> length xs \<Longrightarrow> a + 4 \<le> b \<or> b + 4 \<le> a \<Longrightarrow> get32 a (put32 b w xs) = get32 a xs"
  by (rule get32_cong) (auto simp: nth_put32)

lemma get32_put16_other: "b + 2 \<le> length xs \<Longrightarrow> a + 4 \<le> b \<or> b + 2 \<le> a \<Longrightarrow> get32 a (put16 b w xs) = get32 a xs"
  by (rule get32_cong) (auto simp: nth_put16)

lemma get16_put16_other: "b + 2 \<le> length xs \<Longrightarrow> a + 2 \<le> b \<or> b + 2 \<le> a \<Longrightarrow> get16 a (put16 b w xs) = get16 a xs"
  by (rule get16_cong) (auto simp: nth_put16)

lemma get16_put32_other: "b + 4 \<le> length xs \<Longrightarrow> a + 2 \<le> b \<or> b + 4 \<le> a \<Longrightarrow> get16 a (put32 b w xs) = get16 a xs"
  by (rule get16_cong) (auto simp: nth_put32)

lemma length_slice [simp]: "a + n \<le> length xs \<Longrightarrow> length (slice a n xs) = n"
  by (simp add: slice_def)

lemma length_splice [simp]: "a + length ys \<le> length xs \<Longrightarrow> length (splice a ys xs) = length xs"
  by (simp add: splice_def)

lemma nth_splice:
  assumes "a + length ys \<le> length xs"
  shows "splice a ys xs ! i = (if a \<le> i \<and> i < a + length ys then ys ! (i - a) else xs ! i)"
proof (cases "i < a")
  case True
  then show ?thesis using assms by (simp add: splice_def nth_append)
next
  case False
  then show ?thesis using assms by (auto simp: splice_def nth_append not_less)
qed

lemma slice_splice: "a + length ys \<le> length xs \<Longrightarrow> slice a (length ys) (splice a ys xs) = ys"
  by (simp add: slice_def splice_def)

lemma nth_slice: "i < n \<Longrightarrow> a + n \<le> length xs \<Longrightarrow> slice a n xs ! i = xs ! (a + i)"
  by (simp add: slice_def)

lemma slice_splice_other:
  assumes "b + length ys \<le> length xs" and "a + n \<le> b \<or> b + length ys \<le> a" and "a + n \<le> length xs"
  shows "slice a n (splice b ys xs) = slice a n xs"
  using assms by (intro nth_equalityI) (auto simp: nth_slice nth_splice)

end
