(* ===== verification/Log.thy ===== *)
theory Log
  imports Bio Bytes
begin

text \<open>
  The redo log, \<^verbatim>\<open>log.c\<close>. A transaction collects the blocks that system calls change; \<^verbatim>\<open>commit\<close> writes them
  to the log area, writes the header, copies them home and clears the header. It is shown that the
  commit is atomic: if the machine stops between any two of these writes, \<^verbatim>\<open>recover_from_log\<close> brings the
  disk to the state before the transaction or to the state after it.
\<close>

section \<open>State\<close>

definition MAXOPBLOCKS :: int where "MAXOPBLOCKS = 10"
definition LOGSIZE :: int where "LOGSIZE = MAXOPBLOCKS * 3"

text \<open>\<open>lg_n\<close> and \<open>lg_block\<close> are the header \<^verbatim>\<open>log.lh\<close>.\<close>

record lstate = bstate +
  lg_start :: int
  lg_size :: int
  lg_outstanding :: int
  lg_committing :: int
  lg_dev :: int
  lg_n :: int
  lg_block :: "32 word list"

record superblock =
  sb_size :: "32 word"
  sb_nblocks :: "32 word"
  sb_ninodes :: "32 word"
  sb_nlog :: "32 word"
  sb_logstart :: "32 word"
  sb_inodestart :: "32 word"
  sb_bmapstart :: "32 word"

definition superblock_of :: "8 word list \<Rightarrow> superblock" where
  "superblock_of xs = \<lparr>sb_size = get32 0 xs, sb_nblocks = get32 4 xs, sb_ninodes = get32 8 xs, sb_nlog = get32 12 xs,
     sb_logstart = get32 16 xs, sb_inodestart = get32 20 xs, sb_bmapstart = get32 24 xs\<rparr>"

section \<open>Operations\<close>

definition readsb :: "int \<Rightarrow> (superblock, 'a bstate_scheme) kern" where
  "readsb dev =
     kbind (bread (word_of_int dev) 1) (\<lambda>bp.
     kget (\<lambda>s. let sb = superblock_of (b_data (buf_at s bp)) in
     kseq (brelse bp)
     (kret sb)))"

text \<open>
  The loops go over the blocks of the header. Past \<^verbatim>\<open>LOGSIZE\<close> they leave the array \<^verbatim>\<open>block\<close>, so rounds in
  excess of it have no defined result.
\<close>

primrec log_loop :: "nat \<Rightarrow> (nat \<Rightarrow> (unit, 'a lstate_scheme) kern) \<Rightarrow> nat \<Rightarrow> (unit, 'a lstate_scheme) kern" where
  "log_loop 0 body tail = (\<lambda>s rs. Undef)"
| "log_loop (Suc k) body tail = kget (\<lambda>s.
     if int tail < lg_n s then kseq (body tail) (log_loop k body (Suc tail)) else kret ())"

definition read_log_block :: "nat \<Rightarrow> (nat, 'a lstate_scheme) kern" where
  "read_log_block tail = kget (\<lambda>s. bread (word_of_int (lg_dev s)) (word_of_int (lg_start s + int tail + 1)))"

definition read_home_block :: "nat \<Rightarrow> (nat, 'a lstate_scheme) kern" where
  "read_home_block tail = kget (\<lambda>s. kbind (kopt (aref (lg_block s) (int tail))) (\<lambda>n.
     bread (word_of_int (lg_dev s)) n))"

definition install_one :: "nat \<Rightarrow> (unit, 'a lstate_scheme) kern" where
  "install_one tail =
     kbind (read_log_block tail) (\<lambda>lbuf.
     kbind (read_home_block tail) (\<lambda>dbuf.
     kget (\<lambda>s.
     kseq (kmod (set_data dbuf (b_data (buf_at s lbuf)))) (
     kseq (bwrite dbuf) (
     kseq (brelse lbuf)
     (brelse dbuf))))))"

definition install_trans :: "(unit, 'a lstate_scheme) kern" where
  "install_trans = log_loop (nat LOGSIZE + 1) install_one 0"

definition read_head_one :: "nat \<Rightarrow> nat \<Rightarrow> (unit, 'a lstate_scheme) kern" where
  "read_head_one buf i = kget (\<lambda>s.
     kbind (kopt (aset (lg_block s) (int i) (get32 (4 + 4 * i) (b_data (buf_at s buf))))) (\<lambda>bs.
     kmod (\<lambda>s. s\<lparr>lg_block := bs\<rparr>)))"

definition read_head :: "(unit, 'a lstate_scheme) kern" where
  "read_head = kget (\<lambda>s.
     kbind (bread (word_of_int (lg_dev s)) (word_of_int (lg_start s))) (\<lambda>buf.
     kseq (kmod (\<lambda>s. s\<lparr>lg_n := sint (get32 0 (b_data (buf_at s buf)))\<rparr>)) (
     kseq (log_loop (nat LOGSIZE + 1) (read_head_one buf) 0)
     (brelse buf))))"

definition write_head_one :: "nat \<Rightarrow> nat \<Rightarrow> (unit, 'a lstate_scheme) kern" where
  "write_head_one buf i = kget (\<lambda>s.
     kbind (kopt (aref (lg_block s) (int i))) (\<lambda>n.
     kmod (set_data buf (put32 (4 + 4 * i) n (b_data (buf_at s buf))))))"

definition write_head :: "(unit, 'a lstate_scheme) kern" where
  "write_head = kget (\<lambda>s.
     kbind (bread (word_of_int (lg_dev s)) (word_of_int (lg_start s))) (\<lambda>buf.
     kseq (kmod (\<lambda>s. set_data buf (put32 0 (word_of_int (lg_n s)) (b_data (buf_at s buf))) s)) (
     kseq (log_loop (nat LOGSIZE + 1) (write_head_one buf) 0) (
     kseq (bwrite buf)
     (brelse buf)))))"

definition recover_from_log :: "(unit, 'a lstate_scheme) kern" where
  "recover_from_log =
     kseq read_head (
     kseq install_trans (
     kseq (kmod (\<lambda>s. s\<lparr>lg_n := 0\<rparr>))
     write_head))"

definition initlog :: "int \<Rightarrow> (unit, 'a lstate_scheme) kern" where
  "initlog dev =
     (if 4 + 4 * LOGSIZE \<ge> int BSIZE then panic ''initlog: too big logheader'' else
     kseq (initlock LLog ''log'') (
     kbind (readsb dev) (\<lambda>sb.
     kseq (kmod (\<lambda>s. s\<lparr>lg_start := sint (sb_logstart sb), lg_size := sint (sb_nlog sb), lg_dev := dev\<rparr>))
     recover_from_log)))"

definition begin_op_wait :: "(unit option, 'a lstate_scheme) kern" where
  "begin_op_wait = kget (\<lambda>s.
     if lg_committing s \<noteq> 0 then kseq (sleep (Some ChLog) (Some LLog)) (kret None)
     else if lg_n s + (lg_outstanding s + 1) * MAXOPBLOCKS > LOGSIZE
       then kseq (sleep (Some ChLog) (Some LLog)) (kret None)
     else
       kseq (kmod (\<lambda>s. s\<lparr>lg_outstanding := lg_outstanding s + 1\<rparr>)) (
       kseq (release LLog)
       (kret (Some ()))))"

definition begin_op :: "(unit, 'a lstate_scheme) kern" where
  "begin_op =
     kseq (acquire LLog)
     (kforever begin_op_wait)"

definition write_log_one :: "nat \<Rightarrow> (unit, 'a lstate_scheme) kern" where
  "write_log_one tail =
     kbind (read_log_block tail) (\<lambda>to.
     kbind (read_home_block tail) (\<lambda>from.
     kget (\<lambda>s.
     kseq (kmod (set_data to (b_data (buf_at s from)))) (
     kseq (bwrite to) (
     kseq (brelse from)
     (brelse to))))))"

definition write_log :: "(unit, 'a lstate_scheme) kern" where
  "write_log = log_loop (nat LOGSIZE + 1) write_log_one 0"

definition commit :: "(unit, 'a lstate_scheme) kern" where
  "commit = kget (\<lambda>s. kwhen (lg_n s > 0) (
     kseq write_log (
     kseq write_head (
     kseq install_trans (
     kseq (kmod (\<lambda>s. s\<lparr>lg_n := 0\<rparr>))
     write_head)))))"

definition end_op :: "(unit, 'a lstate_scheme) kern" where
  "end_op =
     kseq (acquire LLog) (
     kseq (kmod (\<lambda>s. s\<lparr>lg_outstanding := lg_outstanding s - 1\<rparr>)) (
     kget (\<lambda>s. if lg_committing s \<noteq> 0 then panic ''log.committing'' else
     kbind (if lg_outstanding s = 0
       then kseq (kmod (\<lambda>s. s\<lparr>lg_committing := 1\<rparr>)) (kret True)
       else kseq (wakeup (Some ChLog)) (kret False)) (\<lambda>do_commit.
     kseq (release LLog)
     (kwhen do_commit (
       kseq commit (
       kseq (acquire LLog) (
       kseq (kmod (\<lambda>s. s\<lparr>lg_committing := 0\<rparr>)) (
       kseq (wakeup (Some ChLog))
       (release LLog))))))))))"

text \<open>The position of the block in the header, or the first free position.\<close>

primrec log_slot_of :: "nat \<Rightarrow> 32 word \<Rightarrow> nat \<Rightarrow> (nat, 'a lstate_scheme) kern" where
  "log_slot_of 0 blockno i = (\<lambda>s rs. Undef)"
| "log_slot_of (Suc k) blockno i = kget (\<lambda>s.
     if int i < lg_n s
     then kbind (kopt (aref (lg_block s) (int i))) (\<lambda>n. if n = blockno then kret i else log_slot_of k blockno (Suc i))
     else kret i)"

definition log_write :: "nat \<Rightarrow> (unit, 'a lstate_scheme) kern" where
  "log_write b = kget (\<lambda>s.
     if lg_n s \<ge> LOGSIZE \<or> lg_n s \<ge> lg_size s - 1 then panic ''too big a transaction''
     else if lg_outstanding s < 1 then panic ''log_write outside of trans'' else
     kseq (acquire LLog) (
     kget (\<lambda>s. kbind (log_slot_of (nat LOGSIZE + 1) (b_blockno (buf_at s b)) 0) (\<lambda>i.
     kseq (kget (\<lambda>s. kbind (kopt (aset (lg_block s) (int i) (b_blockno (buf_at s b)))) (\<lambda>bs.
       kmod (\<lambda>s. s\<lparr>lg_block := bs\<rparr>)))) (
     kseq (kget (\<lambda>s. kwhen (int i = lg_n s) (kmod (\<lambda>s. s\<lparr>lg_n := lg_n s + 1\<rparr>)))) (
     kseq (kmod (mark_dirty b))
     (release LLog)))))))"

lemma shrinks_log_loop [shrinks_intros]: "(\<And>i. shrinks (body i)) \<Longrightarrow> shrinks (log_loop k body tail)"
  by (induction k arbitrary: tail) (auto intro!: shrinks_intros)

lemma shrinks_log_slot [shrinks_intros]: "shrinks (log_slot_of k n i)"
  by (induction k arbitrary: i) (auto intro!: shrinks_intros)

lemma shrinks_logging [shrinks_intros]:
  "shrinks write_head" "shrinks install_trans" "shrinks write_log" "shrinks commit" "shrinks begin_op" "shrinks end_op"
  "shrinks (log_write b)" "shrinks (readsb dev)"
  unfolding write_head_def write_head_one_def install_trans_def install_one_def read_log_block_def read_home_block_def
    write_log_def write_log_one_def commit_def begin_op_def begin_op_wait_def end_op_def log_write_def readsb_def
  by (intro shrinks_intros)+

lemma waits_begin_op: "waits begin_op_wait"
  unfolding begin_op_wait_def
  by (intro waits_get waits_branch waits_seq waits_leave waits_strict strict_seq1 strict_sleep shrinks_intros)

section \<open>Sequences of writes\<close>

definition apply_writes :: "(nat \<times> 'a) list \<Rightarrow> (nat \<Rightarrow> 'a) \<Rightarrow> nat \<Rightarrow> 'a" where
  "apply_writes ws d = fold (\<lambda>(p, x) d. d(p := x)) ws d"

lemma apply_writes_simps [simp]:
  "apply_writes [] d = d" "apply_writes ((p, x) # ws) d = apply_writes ws (d(p := x))"
  "apply_writes (us @ ws) d = apply_writes ws (apply_writes us d)"
  by (simp_all add: apply_writes_def)

lemma apply_writes_other: "p \<notin> fst ` set ws \<Longrightarrow> apply_writes ws d p = d p"
  by (induction ws arbitrary: d) auto

lemma apply_writes_mem: "distinct (map fst ws) \<Longrightarrow> (p, x) \<in> set ws \<Longrightarrow> apply_writes ws d p = x"
proof (induction ws arbitrary: d)
  case (Cons w ws)
  obtain q y where w: "w = (q, y)" by (cases w)
  show ?case
  proof (cases "(p, x) = w")
    case True
    then have "p \<notin> fst ` set ws" using Cons.prems w by auto
    then show ?thesis using True w by (simp add: apply_writes_other)
  next
    case False
    then show ?thesis using Cons w by auto
  qed
qed simp

lemma apply_writes_cong: "d p = d' p \<Longrightarrow> apply_writes ws d p = apply_writes ws d' p"
proof (induction ws arbitrary: d d')
  case (Cons w ws)
  obtain q y where w: "w = (q, y)" by (cases w)
  have "apply_writes ws (d(q := y)) p = apply_writes ws (d'(q := y)) p" by (rule Cons.IH) (simp add: Cons.prems)
  then show ?case by (simp add: w)
qed simp

text \<open>Making some of the writes first does not change the outcome of making them all.\<close>

lemma apply_writes_again:
  assumes "distinct (map fst ws)"
  shows "apply_writes ws (apply_writes (take j ws) d) = apply_writes ws d"
proof
  fix p
  show "apply_writes ws (apply_writes (take j ws) d) p = apply_writes ws d p"
  proof (cases "p \<in> fst ` set ws")
    case True
    then obtain x where "(p, x) \<in> set ws" by auto
    then show ?thesis using apply_writes_mem [OF assms] by metis
  next
    case False
    then have "p \<notin> fst ` set (take j ws)" by (auto dest: in_set_takeD)
    then show ?thesis using False by (simp add: apply_writes_other)
  qed
qed

definition copies :: "(32 word \<times> 32 word) list \<Rightarrow> cview \<Rightarrow> cview" where
  "copies ps v = fold (\<lambda>(d, e). copied d e) ps v"

definition copy_writes :: "(32 word \<times> 32 word) list \<Rightarrow> cview \<Rightarrow> (nat \<times> 8 word list) list" where
  "copy_writes ps v = map (\<lambda>(d, e). (unat d, cv_blk v e)) ps"

lemma copies_view:
  "fst ` set ps \<inter> snd ` set ps = {} \<Longrightarrow>
    cv_dirty (copies ps v) = cv_dirty v - fst ` set ps \<and> cv_held (copies ps v) = cv_held v \<and>
    cv_img (copies ps v) = apply_writes (copy_writes ps v) (cv_img v) \<and>
    cv_trace (copies ps v) = cv_trace v @ copy_writes ps v \<and>
    (\<forall>n. n \<notin> fst ` set ps \<longrightarrow> cv_blk (copies ps v) n = cv_blk v n) \<and>
    (distinct (map fst ps) \<longrightarrow> (\<forall>(d, e) \<in> set ps. cv_blk (copies ps v) d = cv_blk v e))"
proof (induction ps arbitrary: v)
  case (Cons p ps)
  obtain d e where p: "p = (d, e)" by (cases p)
  let ?v = "copied d e v"
  have "fst ` set ps \<inter> snd ` set ps = {}" using Cons.prems by auto
  note IH = Cons.IH [OF this, of ?v]
  have c: "copies (p # ps) v = copies ps ?v" by (simp add: copies_def p)
  have eq: "cv_blk ?v e' = cv_blk v e'" if "e' \<in> snd ` set ps" for e'
    using that Cons.prems p by (auto simp: copied_def)
  have w: "copy_writes ps ?v = copy_writes ps v" 
    unfolding copy_writes_def by (rule map_cong) (auto intro!: eq rev_image_eqI)
  have f: "cv_dirty ?v = cv_dirty v - {d}" "cv_held ?v = cv_held v" "cv_img ?v = (cv_img v)(unat d := cv_blk v e)"
    "cv_trace ?v = cv_trace v @ [(unat d, cv_blk v e)]" "cv_blk ?v = (cv_blk v)(d := cv_blk v e)"
    by (simp_all add: copied_def)
  have wc: "copy_writes (p # ps) v = (unat d, cv_blk v e) # copy_writes ps v" by (simp add: copy_writes_def p)
  have mem: "cv_blk (copies ps ?v) d' = cv_blk v e'" if "distinct (map fst (p # ps))" "(d', e') \<in> set (p # ps)" for d' e'
  proof (cases "(d', e') = p")
    case True
    then show ?thesis using that IH f p by auto
  next
    case False
    then have "(d', e') \<in> set ps" "distinct (map fst ps)" using that by auto
    moreover have "cv_blk ?v e' = cv_blk v e'" using \<open>(d', e') \<in> set ps\<close> by (intro eq) force
    ultimately show ?thesis using IH by auto
  qed
  have "cv_dirty (copies ps ?v) = cv_dirty v - fst ` set (p # ps)" using IH by (auto simp: f p)
  moreover have "cv_held (copies ps ?v) = cv_held v" using IH f by simp
  moreover have "cv_img (copies ps ?v) = apply_writes (copy_writes ps ?v) (cv_img ?v)" using IH by blast
  then have "cv_img (copies ps ?v) = apply_writes (copy_writes (p # ps) v) (cv_img v)" unfolding f(3) w wc by simp
  moreover have "cv_trace (copies ps ?v) = cv_trace v @ copy_writes (p # ps) v" using IH by (simp add: f w wc)
  moreover have "cv_blk (copies ps ?v) n = cv_blk v n" if "n \<notin> fst ` set (p # ps)" for n
    using IH that by (simp add: f p)
  ultimately show ?case unfolding c using mem by blast
qed (simp add: copies_def copy_writes_def)

lemma copies_snoc: "copies (ps @ [(d, e)]) v = copied d e (copies ps v)"
  by (simp add: copies_def)

section \<open>Where the log lies\<close>

definition log_fit :: "'a lstate_scheme \<Rightarrow> bool" where
  "log_fit s \<longleftrightarrow> lg_dev s = 1 \<and> 0 \<le> lg_start s \<and> 1 \<le> lg_size s \<and> lg_size s \<le> LOGSIZE \<and>
     lg_start s + lg_size s \<le> dk_size s \<and> dk_size s < 2 ^ 31 \<and> length (lg_block s) = nat LOGSIZE"

definition log_area :: "'a lstate_scheme \<Rightarrow> nat set" where
  "log_area s = {nat (lg_start s) ..< nat (lg_start s + lg_size s)}"

definition head_block :: "'a lstate_scheme \<Rightarrow> 32 word" where
  "head_block s = word_of_int (lg_start s)"

definition log_block :: "'a lstate_scheme \<Rightarrow> nat \<Rightarrow> 32 word" where
  "log_block s k = word_of_int (lg_start s + int k + 1)"

text \<open>The blocks of the header, when there are \<open>n\<close>, lie on the disk and outside the log.\<close>

definition home_ok :: "'a lstate_scheme \<Rightarrow> 32 word list \<Rightarrow> bool" where
  "home_ok s bs \<longleftrightarrow> int (length bs) \<le> lg_size s - 1 \<and> distinct bs \<and>
     (\<forall>b \<in> set bs. b < word_of_int (dk_size s) \<and> unat b \<notin> log_area s)"

lemma cframe_lg:
  assumes "cframe s s'"
  shows "lg_start s' = lg_start s" "lg_size s' = lg_size s" "lg_outstanding s' = lg_outstanding s"
    "lg_committing s' = lg_committing s" "lg_dev s' = lg_dev s" "lg_n s' = lg_n s" "lg_block s' = lg_block s"
  using cframe_fields(4) [OF assms] by (cases s; cases s'; simp)+

lemma cframe_log:
  assumes "cframe s s'"
  shows "log_fit s' = log_fit s" "log_area s' = log_area s" "head_block s' = head_block s" "log_block s' = log_block s"
    "home_ok s' = home_ok s"
  using cframe_lg [OF assms] cframe_fields(5) [OF assms]
  by (simp_all add: log_fit_def log_area_def head_block_def log_block_def [abs_def] home_ok_def [abs_def])

lemma unat_block:
  assumes "0 \<le> m" and "m < 2 ^ 31"
  shows "unat (word_of_int m :: 32 word) = nat m"
  using assms by (simp add: unat_eq_nat_uint uint_word_of_int)

lemma log_blocks:
  assumes "log_fit s" and "int k < lg_size s - 1"
  shows "unat (log_block s k) = nat (lg_start s) + k + 1" "log_block s k < word_of_int (dk_size s)"
    "unat (log_block s k) \<in> log_area s"
proof -
  have b: "0 \<le> lg_start s + int k + 1" "lg_start s + int k + 1 < dk_size s" "dk_size s < 2 ^ 31" "0 \<le> lg_start s"
    using assms by (auto simp: log_fit_def)
  show u: "unat (log_block s k) = nat (lg_start s) + k + 1"
    unfolding log_block_def by (subst unat_block) (use b in auto)
  have "unat (word_of_int (dk_size s) :: 32 word) = nat (dk_size s)" using b by (intro unat_block) auto
  then show "log_block s k < word_of_int (dk_size s)" unfolding word_less_nat_alt u using b by linarith
  show "unat (log_block s k) \<in> log_area s" unfolding u log_area_def using b assms by auto
qed

lemma head_blocks:
  assumes "log_fit s"
  shows "unat (head_block s) = nat (lg_start s)" "head_block s < word_of_int (dk_size s)" "unat (head_block s) \<in> log_area s"
proof -
  have b: "0 \<le> lg_start s" "lg_start s < dk_size s" "dk_size s < 2 ^ 31" using assms by (auto simp: log_fit_def)
  show u: "unat (head_block s) = nat (lg_start s)" unfolding head_block_def by (subst unat_block) (use b in auto)
  have "unat (word_of_int (dk_size s) :: 32 word) = nat (dk_size s)" using b by (intro unat_block) auto
  then show "head_block s < word_of_int (dk_size s)" unfolding word_less_nat_alt u using b by linarith
  show "unat (head_block s) \<in> log_area s" unfolding u log_area_def using b assms by (auto simp: log_fit_def)
qed

section \<open>The loops\<close>

lemma log_loop_run:
  assumes "I t s" and "t \<le> n" and "n - t < k" and "\<And>j s. I j s \<Longrightarrow> lg_n s = int n"
    and "\<And>j s. t \<le> j \<Longrightarrow> j < n \<Longrightarrow> I j s \<Longrightarrow> \<exists>s'. body j s rs = Ret () s' rs \<and> I (Suc j) s'"
  shows "\<exists>s'. log_loop k body t s rs = Ret () s' rs \<and> I n s'"
  using assms
proof (induction k arbitrary: t s)
  case (Suc k)
  show ?case
  proof (cases "t = n")
    case True
    then show ?thesis using Suc.prems(1) Suc.prems(4) [OF Suc.prems(1)] by auto
  next
    case False
    then have lt: "t < n" using Suc.prems by simp
    obtain s1 where 1: "body t s rs = Ret () s1 rs" "I (Suc t) s1"
      using Suc.prems(5) [OF le_refl lt Suc.prems(1)] by blast
    have "\<exists>s'. log_loop k body (Suc t) s1 rs = Ret () s' rs \<and> I n s'"
      using lt Suc.prems by (intro Suc.IH 1) auto
    then show ?thesis using 1(1) Suc.prems(4) [OF Suc.prems(1)] lt by auto
  qed
qed simp

lemma read_blocks_run:
  assumes "log_fit s" and "cframe s t"
  shows "read_log_block k t rs = bread 1 (log_block s k) t rs"
    "k < nat LOGSIZE \<Longrightarrow> read_home_block k t rs = bread 1 (lg_block s ! k) t rs"
  using assms cframe_lg [OF assms(2)] by (simp_all add: read_log_block_def read_home_block_def log_block_def log_fit_def)

text \<open>The state between the copies of block \<open>k - 1\<close> and \<open>k\<close>.\<close>

definition copying :: "nat \<Rightarrow> (32 word \<times> 32 word) list \<Rightarrow> 'a lstate_scheme \<Rightarrow> nat \<Rightarrow> 'a lstate_scheme \<Rightarrow> bool" where
  "copying i ps s k t \<longleftrightarrow> io_ok i t \<and> cframe s t \<and> view t = copies (take k ps) (view s)"

lemma copying_step:
  assumes "copying i ps s k t" and "k < length ps" and "ps ! k = (d, e)"
    and "io_ok i u" and "cframe t u" and "view u = copied d e (view t)"
  shows "copying i ps s (Suc k) u"
  using assms cframe_trans [of s t u] copies_snoc [of "take k ps" d e "view s"]
  by (simp add: copying_def take_Suc_conv_app_nth)

lemma write_log_run:
  assumes ok: "io_ok i s" and fit: "log_fit s" and held: "cv_held (view s) = Map.empty"
    and bs: "home_ok s bs" "bs = take (length bs) (lg_block s)" "lg_n s = int (length bs)" "cv_dirty (view s) = set bs"
  shows "\<exists>t. write_log s rs = Ret () t rs \<and> copying i (map (\<lambda>k. (log_block s k, bs ! k)) [0..<length bs]) s (length bs) t"
proof -
  let ?ps = "map (\<lambda>k. (log_block s k, bs ! k)) [0..<length bs]"
  have n: "int (length bs) \<le> lg_size s - 1" "length bs < nat LOGSIZE" "length bs < NBUF"
    using bs(1) fit by (auto simp: home_ok_def log_fit_def LOGSIZE_def MAXOPBLOCKS_def NBUF_def)
  have nb: "lg_block s ! k = bs ! k" if "k < length bs" for k using bs(2) that by (metis nth_take)
  have step: "\<exists>u. write_log_one k t rs = Ret () u rs \<and> copying i ?ps s (Suc k) u" if k: "k < length bs" and c: "copying i ?ps s k t" for k t
  proof -
    have okt: "io_ok i t" and fr: "cframe s t" and v: "view t = copies (take k ?ps) (view s)" using c by (auto simp: copying_def)
    have L: "log_block s k < word_of_int (dk_size s)" "unat (log_block s k) \<in> log_area s"
      using log_blocks [OF fit, of k] n(1) k by auto
    have B: "bs ! k < word_of_int (dk_size s)" "unat (bs ! k) \<notin> log_area s" using bs(1) k by (auto simp: home_ok_def)
    have disj: "fst ` set (take k ?ps) \<inter> snd ` set (take k ?ps) = {}" "fst ` set (take k ?ps) \<inter> set bs = {}"
    proof -
      have "fst ` set ?ps \<inter> set bs = {}" using log_blocks(3) [OF fit] n(1) bs(1) by (fastforce simp: home_ok_def)
      moreover have "fst ` set (take k ?ps) \<subseteq> fst ` set ?ps" "snd ` set (take k ?ps) \<subseteq> set bs"
        by (auto dest!: in_set_takeD)
      ultimately show "fst ` set (take k ?ps) \<inter> snd ` set (take k ?ps) = {}" "fst ` set (take k ?ps) \<inter> set bs = {}" by blast+
    qed
    have vt: "cv_held (view t) = Map.empty" "cv_dirty (view t) = set bs"
      using copies_view [OF disj(1), of "view s"] disj(2) held bs(4) by (auto simp: v)
    have card: "card (cv_dirty (view t)) < NBUF" using vt(2) card_length [of bs] n(3) by simp
    have r1: "read_log_block k t rs = bread 1 (log_block s k) t rs" by (rule read_blocks_run(1) [OF fit fr])
    have r2: "read_home_block k u rs = bread 1 (bs ! k) u rs" if "cframe t u" for u
      using read_blocks_run(2) [OF fit cframe_trans [OF fr that]] k n(2) nb [OF k] by simp
    have "\<exists>u. write_log_one k t rs = Ret () u rs \<and> io_ok i u \<and> cframe t u \<and> view u = copied (log_block s k) (bs ! k) (view t)"
      unfolding write_log_one_def
      by (rule bc.copy_onto_first [where ?m1.0 = "read_log_block k" and ?m2.0 = "read_home_block k" and rs = rs, OF okt vt(1) _ _ _ card _ r1])
        (use L B vt(2) k cframe_fields(5) [OF fr] r2 in auto)
    then show ?thesis using copying_step [OF c, of "log_block s k" "bs ! k"] k by auto
  qed
  have "\<exists>t. log_loop (nat LOGSIZE + 1) write_log_one 0 s rs = Ret () t rs \<and> copying i ?ps s (length bs) t"
  proof (rule log_loop_run [where I = "copying i ?ps s"])
    show "copying i ?ps s 0 s" using ok by (simp add: copying_def copies_def)
    show "lg_n t = int (length bs)" if "copying i ?ps s j t" for j t
      using that cframe_lg(6) [of s t] bs(3) by (simp add: copying_def)
  qed (use n step in auto)
  then show ?thesis by (simp add: write_log_def)
qed

lemma nth_notin_take: "distinct xs \<Longrightarrow> k < length xs \<Longrightarrow> xs ! k \<notin> set (take k xs)"
  by (auto simp: in_set_conv_nth nth_eq_iff_index_eq)

lemma install_run:
  assumes ok: "io_ok i s" and fit: "log_fit s" and held: "cv_held (view s) = Map.empty"
    and bs: "home_ok s bs" "bs = take (length bs) (lg_block s)" "lg_n s = int (length bs)"
    and dirty: "cv_dirty (view s) = set bs \<or> cv_dirty (view s) = {}"
  shows "\<exists>t. install_trans s rs = Ret () t rs \<and> copying i (map (\<lambda>k. (bs ! k, log_block s k)) [0..<length bs]) s (length bs) t"
proof -
  let ?ps = "map (\<lambda>k. (bs ! k, log_block s k)) [0..<length bs]"
  have n: "int (length bs) \<le> lg_size s - 1" "length bs < nat LOGSIZE" "length bs < NBUF"
    using bs(1) fit by (auto simp: home_ok_def log_fit_def LOGSIZE_def MAXOPBLOCKS_def NBUF_def)
  have nb: "lg_block s ! k = bs ! k" if "k < length bs" for k using bs(2) that by (metis nth_take)
  have step: "\<exists>u. install_one k t rs = Ret () u rs \<and> copying i ?ps s (Suc k) u" if k: "k < length bs" and c: "copying i ?ps s k t" for k t
  proof -
    have okt: "io_ok i t" and fr: "cframe s t" and v: "view t = copies (take k ?ps) (view s)" using c by (auto simp: copying_def)
    have L: "log_block s k < word_of_int (dk_size s)" "unat (log_block s k) \<in> log_area s"
      using log_blocks [OF fit, of k] n(1) k by auto
    have B: "bs ! k < word_of_int (dk_size s)" "unat (bs ! k) \<notin> log_area s" using bs(1) k by (auto simp: home_ok_def)
    have fst: "fst ` set (take k ?ps) = set (take k bs)"
    proof -
      have "map fst (take k ?ps) = take k bs" by (intro nth_equalityI) (use k in auto)
      then show ?thesis by (metis list.set_map)
    qed
    have disj: "fst ` set (take k ?ps) \<inter> snd ` set (take k ?ps) = {}"
    proof -
      have "set bs \<inter> snd ` set ?ps = {}" using log_blocks(3) [OF fit] n(1) bs(1) by (fastforce simp: home_ok_def)
      moreover have "snd ` set (take k ?ps) \<subseteq> snd ` set ?ps" "set (take k bs) \<subseteq> set bs" by (auto dest!: in_set_takeD)
      ultimately show ?thesis unfolding fst by blast
    qed
    have vt: "cv_held (view t) = Map.empty" "cv_dirty (view t) = cv_dirty (view s) - set (take k bs)"
      using copies_view [OF disj, of "view s"] held by (auto simp: v fst)
    have "card (cv_dirty (view t)) \<le> card (set bs)" unfolding vt(2) using dirty by (auto intro: card_mono)
    then have card: "card (cv_dirty (view t)) < NBUF" using card_length [of bs] n(3) by simp
    have "distinct bs" using bs(1) by (simp add: home_ok_def)
    then have new: "bs ! k \<notin> set (take k bs)" using k by (rule nth_notin_take)
    have room: "bs ! k \<in> cv_dirty (view t) \<or> card (cv_dirty (view t)) + 1 < NBUF"
      using dirty
    proof
      assume "cv_dirty (view s) = set bs"
      then have "bs ! k \<in> cv_dirty (view t)" using new k by (simp only: vt(2)) simp
      then show ?thesis ..
    next
      assume "cv_dirty (view s) = {}"
      then have "cv_dirty (view t) = {}" by (simp only: vt(2)) simp
      then show ?thesis by (simp add: NBUF_def)
    qed
    have r1: "read_log_block k t rs = bread 1 (log_block s k) t rs" by (rule read_blocks_run(1) [OF fit fr])
    have r2: "read_home_block k u rs = bread 1 (bs ! k) u rs" if "cframe t u" for u
      using read_blocks_run(2) [OF fit cframe_trans [OF fr that]] k n(2) nb [OF k] by simp
    have "\<exists>u. install_one k t rs = Ret () u rs \<and> io_ok i u \<and> cframe t u \<and> view u = copied (bs ! k) (log_block s k) (view t)"
      unfolding install_one_def
      by (rule bc.copy_onto_second [where ?m1.0 = "read_log_block k" and ?m2.0 = "read_home_block k" and rs = rs,
            OF okt vt(1) _ _ _ card room r1])
        (use L B cframe_fields(5) [OF fr] r2 in auto)
    then show ?thesis using copying_step [OF c, of "bs ! k" "log_block s k"] k by auto
  qed
  have "\<exists>t. log_loop (nat LOGSIZE + 1) install_one 0 s rs = Ret () t rs \<and> copying i ?ps s (length bs) t"
  proof (rule log_loop_run [where I = "copying i ?ps s"])
    show "copying i ?ps s 0 s" using ok by (simp add: copying_def copies_def)
    show "lg_n t = int (length bs)" if "copying i ?ps s j t" for j t
      using that cframe_lg(6) [of s t] bs(3) by (simp add: copying_def)
  qed (use n step in auto)
  then show ?thesis by (simp add: install_trans_def)
qed

section \<open>The header\<close>

definition head_upto :: "nat \<Rightarrow> 32 word list \<Rightarrow> 8 word list \<Rightarrow> 8 word list" where
  "head_upto k bs xs = fold (\<lambda>i. put32 (4 + 4 * i) (bs ! i)) [0..<k] (put32 0 (of_nat (length bs)) xs)"

lemma head_upto_simps:
  "head_upto 0 bs xs = put32 0 (of_nat (length bs)) xs"
  "head_upto (Suc k) bs xs = put32 (4 + 4 * k) (bs ! k) (head_upto k bs xs)"
  by (simp_all add: head_upto_def)

lemma length_head_upto [simp]: "length (head_upto k bs xs) = length xs"
  by (induction k) (simp_all add: head_upto_simps)

lemma head_upto_get:
  assumes "4 + 4 * k \<le> length xs"
  shows "get32 0 (head_upto k bs xs) = of_nat (length bs) \<and> (\<forall>i<k. get32 (4 + 4 * i) (head_upto k bs xs) = bs ! i)"
  using assms
proof (induction k)
  case 0
  then show ?case by (simp add: head_upto_simps)
next
  case (Suc k)
  then show ?case by (auto simp: head_upto_simps get32_put32_other less_Suc_eq)
qed

definition head_data :: "32 word list \<Rightarrow> 8 word list \<Rightarrow> 8 word list" where
  "head_data bs xs = head_upto (length bs) bs xs"

lemma write_head_run:
  assumes ok: "io_ok i s" and fit: "log_fit s" and held: "cv_held (view s) = Map.empty"
    and bs: "bs = take (length bs) (lg_block s)" "lg_n s = int (length bs)" "length bs \<le> nat LOGSIZE"
    and dirty: "head_block s \<notin> cv_dirty (view s)" "card (cv_dirty (view s)) < NBUF"
  defines "H \<equiv> head_data bs (cv_blk (view s) (head_block s))"
  shows "\<exists>t. write_head s rs = Ret () t rs \<and> io_ok i t \<and> cframe s t \<and>
    view t = (view s)\<lparr>cv_blk := (cv_blk (view s))(head_block s := H), cv_img := (cv_img (view s))(unat (head_block s) := H),
      cv_trace := cv_trace (view s) @ [(unat (head_block s), H)]\<rparr>"
proof -
  let ?h = "head_block s" and ?x = "cv_blk (view s) (head_block s)"
  obtain b s1 where 1: "bread 1 ?h s rs = Ret b s1 rs" "io_ok i s1" "cframe s s1" "view s1 = (view s)\<lparr>cv_held := [b \<mapsto> ?h]\<rparr>"
    using bread_run [OF ok head_blocks(2) [OF fit], of rs] held dirty by auto
  have nb: "lg_block s ! k = bs ! k" if "k < length bs" for k using bs(1) that by (metis nth_take)
  have lx: "length ?x = BSIZE" using blk_length [of "pid_of i s" s] ok by (simp add: io_ok_def)
  define I where "I = (\<lambda>k t. io_ok i t \<and> cframe s t \<and>
    view t = (view s)\<lparr>cv_held := [b \<mapsto> ?h], cv_blk := (cv_blk (view s))(?h := head_upto k bs ?x)\<rparr>)"
  have data: "b_data (buf_at t b) = head_upto k bs ?x" if "I k t" for k t
    using that bc.data_law [of i t b ?h] by (simp add: I_def)
  have dat1: "b_data (buf_at s1 b) = ?x" using 1 bc.data_law [of i s1 b ?h] by simp
  let ?s2 = "set_data b (put32 0 (word_of_int (lg_n s1)) (b_data (buf_at s1 b))) s1"
  have h1: "cv_held (view s1) b = Some ?h" using 1 by simp
  have "length (put32 0 (word_of_int (lg_n s1)) (b_data (buf_at s1 b))) = BSIZE" using lx dat1 by simp
  note S = set_data_spec [OF 1(2) h1 this]
  have I0: "I 0 ?s2"
    using S cframe_trans [OF 1(3) S(2)] 1(4) dat1 bs(2) cframe_lg(6) [OF 1(3)] by (simp add: I_def head_upto_simps)
  have step: "\<exists>u. write_head_one b k t rs = Ret () u rs \<and> I (Suc k) u" if k: "k < length bs" and c: "I k t" for k t
  proof -
    have t: "io_ok i t" "cframe s t" "cv_held (view t) b = Some ?h"
      "view t = (view s)\<lparr>cv_held := [b \<mapsto> ?h], cv_blk := (cv_blk (view s))(?h := head_upto k bs ?x)\<rparr>"
      using c by (auto simp: I_def)
    let ?u = "set_data b (put32 (4 + 4 * k) (bs ! k) (b_data (buf_at t b))) t"
    have "length (put32 (4 + 4 * k) (bs ! k) (b_data (buf_at t b))) = BSIZE" using lx data [OF c] by simp
    note S = set_data_spec [OF t(1,3) this]
    have "I (Suc k) ?u"
      using S cframe_trans [OF t(2) S(2)] data [OF c] by (simp add: I_def head_upto_simps t(4))
    moreover have "write_head_one b k t rs = Ret () ?u rs"
      using k nb [OF k] bs(3) fit cframe_lg(7) [OF t(2)] by (simp add: write_head_one_def log_fit_def)
    ultimately show ?thesis by blast
  qed
  have "\<exists>t. log_loop (nat LOGSIZE + 1) (write_head_one b) 0 ?s2 rs = Ret () t rs \<and> I (length bs) t"
  proof (rule log_loop_run [where I = I])
    show "lg_n t = int (length bs)" if "I j t" for j t using that cframe_lg(6) [of s t] bs(2) by (simp add: I_def)
  qed (use I0 step bs(3) in auto)
  then obtain t where t: "log_loop (nat LOGSIZE + 1) (write_head_one b) 0 ?s2 rs = Ret () t rs" "I (length bs) t" by blast
  have t': "io_ok i t" "cframe s t" "cv_held (view t) b = Some ?h"
    "view t = (view s)\<lparr>cv_held := [b \<mapsto> ?h], cv_blk := (cv_blk (view s))(?h := H)\<rparr>"
    using t(2) by (auto simp: I_def H_def head_data_def)
  obtain u where u: "bwrite b t rs = Ret () u rs" "io_ok i u" "cframe t u"
      "view u = (view t)\<lparr>cv_dirty := cv_dirty (view t) - {?h}, cv_img := (cv_img (view t))(unat ?h := cv_blk (view t) ?h),
        cv_trace := cv_trace (view t) @ [(unat ?h, cv_blk (view t) ?h)]\<rparr>"
    using bc.wr_law [OF t'(1,3), of rs] by blast
  have vu: "view u = (view s)\<lparr>cv_held := [b \<mapsto> ?h], cv_blk := (cv_blk (view s))(?h := H), cv_img := (cv_img (view s))(unat ?h := H),
      cv_trace := cv_trace (view s) @ [(unat ?h, H)]\<rparr>"
    unfolding u(4) t'(4) using dirty(1) by simp
  have hu: "cv_held (view u) b = Some ?h" "cv_blk (view u) ?h = cv_img (view u) (unat ?h)" unfolding vu by simp_all
  obtain w where w: "brelse b u rs = Ret () w rs" "io_ok i w" "cframe u w" "view w = (view u)\<lparr>cv_held := (cv_held (view u))(b := None)\<rparr>"
    using bc.rel_law [OF u(2) hu(1) disjI2 [OF hu(2)], of rs] by blast
  have "write_head s rs = Ret () w rs"
    using 1(1) t(1) u(1) w(1) fit by (simp add: write_head_def head_block_def log_fit_def)
  moreover have "cframe s w" using cframe_trans [OF t'(2) cframe_trans [OF u(3) w(3)]] .
  moreover have "view w = (view s)\<lparr>cv_blk := (cv_blk (view s))(?h := H), cv_img := (cv_img (view s))(unat ?h := H),
      cv_trace := cv_trace (view s) @ [(unat ?h, H)]\<rparr>"
    unfolding w(4) vu using held by (intro cview.equality) (auto simp: fun_eq_iff)
  ultimately show ?thesis using w(2) by blast
qed

section \<open>Updates of the log's own variables\<close>

lemma io_lg [simp]:
  "view (s\<lparr>lg_n := x\<rparr>) = view s" "view (s\<lparr>lg_block := y\<rparr>) = view s"
  "io_ok i (s\<lparr>lg_n := x\<rparr>) = io_ok i s" "io_ok i (s\<lparr>lg_block := y\<rparr>) = io_ok i s"
  by (rule view_cong io_ok_cong; simp)+

lemma calm_lg:
  assumes "calm s s'"
  shows "calm (s\<lparr>lg_n := x\<rparr>) (s'\<lparr>lg_n := x\<rparr>)" "calm (s\<lparr>lg_block := y\<rparr>) (s'\<lparr>lg_block := y\<rparr>)"
proof -
  have "same_locks (s\<lparr>lg_n := x\<rparr>) (s'\<lparr>lg_n := x\<rparr>)" "same_locks (s\<lparr>lg_block := y\<rparr>) (s'\<lparr>lg_block := y\<rparr>)"
    using calm_fields(1) [OF assms] by (simp_all cong: same_locks_cong)
  then show "calm (s\<lparr>lg_n := x\<rparr>) (s'\<lparr>lg_n := x\<rparr>)" "calm (s\<lparr>lg_block := y\<rparr>) (s'\<lparr>lg_block := y\<rparr>)"
    using assms by (cases s; cases s'; simp add: calm_def)+
qed

lemma cframe_lg_update:
  assumes "cframe s s'"
  shows "cframe (s\<lparr>lg_n := x\<rparr>) (s'\<lparr>lg_n := x\<rparr>)" "cframe (s\<lparr>lg_block := y\<rparr>) (s'\<lparr>lg_block := y\<rparr>)"
proof -
  have c: "calm (over s s') s'" using assms by (simp add: cframe_def)
  have "over (s\<lparr>lg_n := x\<rparr>) (s'\<lparr>lg_n := x\<rparr>) = (over s s')\<lparr>lg_n := x\<rparr>"
    "over (s\<lparr>lg_block := y\<rparr>) (s'\<lparr>lg_block := y\<rparr>) = (over s s')\<lparr>lg_block := y\<rparr>" by (simp_all add: over_def)
  then show "cframe (s\<lparr>lg_n := x\<rparr>) (s'\<lparr>lg_n := x\<rparr>)" "cframe (s\<lparr>lg_block := y\<rparr>) (s'\<lparr>lg_block := y\<rparr>)"
    using assms calm_lg [OF c] by (simp_all add: cframe_def)
qed

section \<open>Recovery\<close>

text \<open>The transaction a header stands for.\<close>

definition head_list :: "8 word list \<Rightarrow> 32 word list" where
  "head_list xs = map (\<lambda>k. get32 (4 + 4 * k) xs) [0..<nat (sint (get32 0 xs))]"

lemma head_list_data:
  assumes "4 + 4 * length bs \<le> length xs" and "length bs < 2 ^ 31"
  shows "head_list (head_data bs xs) = bs"
proof -
  have g: "get32 0 (head_data bs xs) = of_nat (length bs)" "\<And>k. k < length bs \<Longrightarrow> get32 (4 + 4 * k) (head_data bs xs) = bs ! k"
    using head_upto_get [OF assms(1), of bs] by (auto simp: head_data_def)
  have "sint (of_nat (length bs) :: 32 word) = int (length bs)"
    using assms(2) by (simp add: signed_of_nat signed_take_bit_int_eq_self)
  then have "head_list (head_data bs xs) = map (\<lambda>k. get32 (4 + 4 * k) (head_data bs xs)) [0..<length bs]"
    by (simp add: head_list_def g)
  also have "\<dots> = map (\<lambda>k. bs ! k) [0..<length bs]" using g(2) by simp
  finally show ?thesis by (simp add: map_nth)
qed

lemma read_head_run:
  assumes ok: "io_ok i s" and fit: "log_fit s" and held: "cv_held (view s) = Map.empty" and dirty: "cv_dirty (view s) = {}"
    and n: "sint (get32 0 (cv_blk (view s) (head_block s))) = int n" "n \<le> nat LOGSIZE"
  shows "\<exists>t. read_head s rs = Ret () t rs \<and> io_ok i t \<and> cframe (s\<lparr>lg_n := int n, lg_block := lg_block t\<rparr>) t \<and> view t = view s \<and>
    take n (lg_block t) = head_list (cv_blk (view s) (head_block s)) \<and> length (lg_block t) = nat LOGSIZE"
proof -
  let ?h = "head_block s" and ?x = "cv_blk (view s) (head_block s)"
  obtain b s1 where 1: "bread 1 ?h s rs = Ret b s1 rs" "io_ok i s1" "cframe s s1" "view s1 = (view s)\<lparr>cv_held := [b \<mapsto> ?h]\<rparr>"
    using bread_run [OF ok head_blocks(2) [OF fit], of rs] held dirty by (auto simp: NBUF_def)
  define I where "I = (\<lambda>k t. io_ok i t \<and> cframe (s\<lparr>lg_n := int n, lg_block := lg_block t\<rparr>) t \<and>
    view t = (view s)\<lparr>cv_held := [b \<mapsto> ?h]\<rparr> \<and> length (lg_block t) = nat LOGSIZE \<and>
    (\<forall>j<k. lg_block t ! j = get32 (4 + 4 * j) ?x))"
  have data: "b_data (buf_at t b) = ?x" if "view t = (view s)\<lparr>cv_held := [b \<mapsto> ?h]\<rparr>" "io_ok i t" for t
    using that bc.data_law [of i t b ?h] by simp
  let ?s2 = "s1\<lparr>lg_n := int n\<rparr>"
  have "lg_block s1 = lg_block s" using cframe_lg(7) [OF 1(3)] .
  then have "cframe (s\<lparr>lg_n := int n, lg_block := lg_block s1\<rparr>) ?s2"
    using cframe_lg_update(1) [OF 1(3), of "int n"] by simp
  then have I0: "I 0 ?s2" using 1 fit \<open>lg_block s1 = lg_block s\<close> by (simp add: I_def log_fit_def)
  have step: "\<exists>u. read_head_one b k t rs = Ret () u rs \<and> I (Suc k) u" if k: "k < n" and c: "I k t" for k t
  proof -
    have t: "io_ok i t" "cframe (s\<lparr>lg_n := int n, lg_block := lg_block t\<rparr>) t" "view t = (view s)\<lparr>cv_held := [b \<mapsto> ?h]\<rparr>"
      "length (lg_block t) = nat LOGSIZE" "\<forall>j<k. lg_block t ! j = get32 (4 + 4 * j) ?x"
      using c by (auto simp: I_def)
    let ?y = "(lg_block t)[k := get32 (4 + 4 * k) ?x]"
    have "read_head_one b k t rs = Ret () (t\<lparr>lg_block := ?y\<rparr>) rs"
      using k n(2) t(4) data [OF t(3,1)] by (simp add: read_head_one_def)
    moreover have "cframe (s\<lparr>lg_n := int n, lg_block := ?y\<rparr>) (t\<lparr>lg_block := ?y\<rparr>)"
      using cframe_lg_update(2) [OF t(2), of ?y] by simp
    ultimately show ?thesis using t k n(2) by (auto simp: I_def nth_list_update less_Suc_eq)
  qed
  have "\<exists>t. log_loop (nat LOGSIZE + 1) (read_head_one b) 0 ?s2 rs = Ret () t rs \<and> I n t"
  proof (rule log_loop_run [where I = I])
    show "lg_n t = int n" if "I j t" for j t
      using that cframe_lg(6) [of "s\<lparr>lg_n := int n, lg_block := lg_block t\<rparr>" t] by (simp add: I_def)
  qed (use I0 step n(2) in auto)
  then obtain t where t: "log_loop (nat LOGSIZE + 1) (read_head_one b) 0 ?s2 rs = Ret () t rs" "I n t" by blast
  have t': "io_ok i t" "cframe (s\<lparr>lg_n := int n, lg_block := lg_block t\<rparr>) t" "view t = (view s)\<lparr>cv_held := [b \<mapsto> ?h]\<rparr>"
    "length (lg_block t) = nat LOGSIZE" "\<forall>j<n. lg_block t ! j = get32 (4 + 4 * j) ?x"
    using t(2) by (auto simp: I_def)
  have "cv_blk (view s) ?h = dk_img s (unat ?h)" using bc.settled [OF ok, of ?h] held dirty by simp
  then have hu: "cv_held (view t) b = Some ?h" "cv_blk (view t) ?h = cv_img (view t) (unat ?h)" using t'(3) by (simp_all only: t'(3)) simp_all
  obtain w where w: "brelse b t rs = Ret () w rs" "io_ok i w" "cframe t w" "view w = (view t)\<lparr>cv_held := (cv_held (view t))(b := None)\<rparr>"
    using bc.rel_law [OF t'(1) hu(1) disjI2 [OF hu(2)], of rs] by blast
  have run: "read_head s rs = Ret () w rs"
    using 1(1) t(1) w(1) fit n(1) data [OF 1(4,2)] by (simp add: read_head_def head_block_def log_fit_def)
  have "view w = view s" unfolding w(4) t'(3) using held by (intro cview.equality) auto
  moreover have "lg_block w = lg_block t" using cframe_lg(7) [OF w(3)] .
  moreover have "take n (lg_block t) = head_list ?x"
    using t'(4,5) n by (intro nth_equalityI) (auto simp: head_list_def)
  ultimately show ?thesis using run w(2) t'(4) cframe_trans [OF t'(2) w(3)] by auto
qed

lemma log_lg [simp]:
  "log_fit (s\<lparr>lg_n := x\<rparr>) = log_fit s" "log_area (s\<lparr>lg_n := x\<rparr>) = log_area s" "head_block (s\<lparr>lg_n := x\<rparr>) = head_block s"
  "log_block (s\<lparr>lg_n := x\<rparr>) = log_block s" "home_ok (s\<lparr>lg_n := x\<rparr>) = home_ok s"
  "log_area (s\<lparr>lg_block := y\<rparr>) = log_area s" "head_block (s\<lparr>lg_block := y\<rparr>) = head_block s"
  "log_block (s\<lparr>lg_block := y\<rparr>) = log_block s" "home_ok (s\<lparr>lg_block := y\<rparr>) = home_ok s"
  "length y = length (lg_block s) \<Longrightarrow> log_fit (s\<lparr>lg_block := y\<rparr>) = log_fit s"
  by (simp_all add: log_fit_def log_area_def head_block_def log_block_def [abs_def] home_ok_def [abs_def])

lemma home_bounds:
  assumes "log_fit s" and "home_ok s bs"
  shows "length bs < nat LOGSIZE" "length bs < NBUF" "4 + 4 * length bs \<le> BSIZE" "distinct bs" "length bs < 2 ^ 31"
  using assms by (auto simp: home_ok_def log_fit_def LOGSIZE_def MAXOPBLOCKS_def NBUF_def BSIZE_def)

text \<open>The log blocks and the home blocks of a transaction are different blocks.\<close>

lemma log_home_disjoint:
  assumes "log_fit s" and "home_ok s bs"
  shows "log_block s ` {..<length bs} \<inter> set bs = {}" "head_block s \<notin> set bs" "head_block s \<notin> log_block s ` {..<length bs}"
    "inj_on (log_block s) {..<length bs}"
proof -
  have k: "int k < lg_size s - 1" if "k < length bs" for k using assms(2) that by (simp add: home_ok_def)
  note L = log_blocks [OF assms(1) k]
  have out: "unat b \<notin> log_area s" if "b \<in> set bs" for b using assms(2) that by (simp add: home_ok_def)
  show "log_block s ` {..<length bs} \<inter> set bs = {}"
  proof (rule equals0I)
    fix b assume "b \<in> log_block s ` {..<length bs} \<inter> set bs"
    then obtain k where "k < length bs" "b = log_block s k" "b \<in> set bs" by auto
    then show False using L(3) [of k] out [of b] by simp
  qed
  show "head_block s \<notin> set bs" using head_blocks(3) [OF assms(1)] out [of "head_block s"] by auto
  show "head_block s \<notin> log_block s ` {..<length bs}"
  proof
    assume "head_block s \<in> log_block s ` {..<length bs}"
    then obtain k where j: "k < length bs" "head_block s = log_block s k" by auto
    have "unat (head_block s) = nat (lg_start s) + k + 1" unfolding j(2) by (rule L(1) [OF j(1)])
    then show False using head_blocks(1) [OF assms(1)] by linarith
  qed
  show "inj_on (log_block s) {..<length bs}"
  proof (rule inj_onI)
    fix j k
    assume jk: "j \<in> {..<length bs}" "k \<in> {..<length bs}" "log_block s j = log_block s k"
    have "nat (lg_start s) + j + 1 = nat (lg_start s) + k + 1"
      using L(1) [of j] L(1) [of k] jk(1,2) arg_cong [OF jk(3), of unat] by (metis lessThan_iff)
    then show "j = k" by linarith
  qed
qed

definition install_writes :: "'a lstate_scheme \<Rightarrow> 32 word list \<Rightarrow> (nat \<Rightarrow> 8 word list) \<Rightarrow> (nat \<times> 8 word list) list" where
  "install_writes s bs d = map (\<lambda>k. (unat (bs ! k), d (nat (lg_start s) + k + 1))) [0..<length bs]"

lemma recover_run:
  assumes ok: "io_ok i s" and fit: "log_fit s" and held: "cv_held (view s) = Map.empty" and dirty: "cv_dirty (view s) = {}"
    and bs: "bs = head_list (dk_img s (nat (lg_start s)))" "0 \<le> sint (get32 0 (dk_img s (nat (lg_start s))))" "home_ok s bs"
  shows "\<exists>t H. recover_from_log s rs = Ret () t rs \<and> io_ok i t \<and> lg_n t = 0 \<and> cv_dirty (view t) = {} \<and>
    cv_held (view t) = Map.empty \<and> get32 0 H = 0 \<and>
    dk_img t = (apply_writes (install_writes s bs (dk_img s)) (dk_img s))(nat (lg_start s) := H)"
proof -
  let ?h = "head_block s" and ?x = "dk_img s (nat (lg_start s))"
  have settled: "cv_blk (view s) n = dk_img s (unat n)" for n using bc.settled [OF ok, of n] held dirty by simp
  have x: "cv_blk (view s) ?h = ?x" using settled head_blocks(1) [OF fit] by simp
  have n: "sint (get32 0 (cv_blk (view s) ?h)) = int (length bs)" using bs(1,2) by (simp add: x head_list_def)
  note B = home_bounds [OF fit bs(3)]
  obtain t1 where 1: "read_head s rs = Ret () t1 rs" "io_ok i t1" "cframe (s\<lparr>lg_n := int (length bs), lg_block := lg_block t1\<rparr>) t1"
      "view t1 = view s" "take (length bs) (lg_block t1) = bs" "length (lg_block t1) = nat LOGSIZE"
    using read_head_run [OF ok fit held dirty n less_imp_le [OF B(1)], of rs] unfolding x bs(1) [symmetric] by blast
  let ?s1 = "s\<lparr>lg_n := int (length bs), lg_block := lg_block t1\<rparr>"
  have len: "length (lg_block t1) = length (lg_block s)" using 1(6) fit by (simp add: log_fit_def)
  have fit1: "log_fit t1" and L1: "log_block t1 = log_block s" and ho1: "home_ok t1 bs" and h1: "head_block t1 = ?h"
    using cframe_log [OF 1(3)] fit bs(3) len by simp_all
  have n1: "lg_n t1 = int (length bs)" using cframe_lg(6) [OF 1(3)] by simp
  let ?ps = "map (\<lambda>k. (bs ! k, log_block s k)) [0..<length bs]"
  obtain t2 where 2: "install_trans t1 rs = Ret () t2 rs" "copying i ?ps t1 (length bs) t2"
    using install_run [OF 1(2) fit1 _ ho1 1(5) [symmetric] n1, of rs] held dirty unfolding 1(4) L1 by blast
  have c2: "io_ok i t2" "cframe t1 t2" "view t2 = copies ?ps (view s)" using 2(2) 1(4) by (simp_all add: copying_def)
  have fs: "fst ` set ?ps = set bs" by (force simp: set_conv_nth)
  have "fst ` set ?ps \<inter> snd ` set ?ps = {}"
    using log_home_disjoint(1) [OF fit bs(3)] unfolding fs by (auto simp: atLeast0LessThan)
  note V = copies_view [OF this, of "view s"]
  have w: "copy_writes ?ps (view s) = install_writes s bs (dk_img s)"
    using log_blocks(1) [OF fit] bs(3) by (auto simp: copy_writes_def install_writes_def settled home_ok_def)
  have v2: "cv_held (view t2) = Map.empty" "cv_dirty (view t2) = {}" "cv_img (view t2) = apply_writes (install_writes s bs (dk_img s)) (dk_img s)"
    using V held dirty w by (simp_all add: c2(3))
  let ?t3 = "t2\<lparr>lg_n := 0\<rparr>"
  have fit3: "log_fit ?t3" and h3: "head_block ?t3 = ?h" using cframe_log [OF c2(2)] fit1 h1 by simp_all
  let ?H = "head_data [] (cv_blk (view ?t3) ?h)"
  obtain t where t: "write_head ?t3 rs = Ret () t rs" "io_ok i t" "cframe ?t3 t"
      "view t = (view ?t3)\<lparr>cv_blk := (cv_blk (view ?t3))(?h := ?H), cv_img := (cv_img (view ?t3))(unat ?h := ?H),
        cv_trace := cv_trace (view ?t3) @ [(unat ?h, ?H)]\<rparr>"
    using write_head_run [where bs = "[]" and s = ?t3 and rs = rs and i = i] c2(1) fit3 v2 h3 by (auto simp: NBUF_def)
  have "recover_from_log s rs = Ret () t rs" using 1(1) 2(1) t(1) by (simp add: recover_from_log_def)
  moreover have "length (cv_blk (view ?t3) ?h) = BSIZE" using blk_length [of "pid_of i t2" t2] c2(1) by (simp add: io_ok_def)
  then have "get32 0 ?H = 0" using head_upto_get [of 0 _ "[]"] by (simp add: head_data_def BSIZE_def)
  moreover have "dk_img t = (apply_writes (install_writes s bs (dk_img s)) (dk_img s))(nat (lg_start s) := ?H)"
    using v2(3) head_blocks(1) [OF fit] view_disk(1) [of t] by (simp only: t(4)) simp
  moreover have "lg_n t = 0" "cv_dirty (view t) = {}" "cv_held (view t) = Map.empty"
    using cframe_lg(6) [OF t(3)] v2 by (simp_all add: t(4))
  ultimately show ?thesis using t(2) by blast
qed

section \<open>Commit\<close>

text \<open>
  A transaction ready to commit: no buffer is held, the blocks of the header are exactly the ones not
  yet on the disk, and the header on the disk is empty.
\<close>

definition trans_ok :: "nat \<Rightarrow> 'a lstate_scheme \<Rightarrow> bool" where
  "trans_ok i s \<longleftrightarrow> io_ok i s \<and> log_fit s \<and> cv_held (view s) = Map.empty \<and> 0 \<le> lg_n s \<and>
     home_ok s (take (nat (lg_n s)) (lg_block s)) \<and> lg_n s \<le> LOGSIZE \<and>
     cv_dirty (view s) = set (take (nat (lg_n s)) (lg_block s)) \<and> get32 0 (dk_img s (nat (lg_start s))) = 0"

definition log_writes :: "'a lstate_scheme \<Rightarrow> 32 word list \<Rightarrow> (nat \<times> 8 word list) list" where
  "log_writes s bs = map (\<lambda>k. (nat (lg_start s) + k + 1, blk s (bs ! k))) [0..<length bs]"

definition home_writes :: "'a lstate_scheme \<Rightarrow> 32 word list \<Rightarrow> (nat \<times> 8 word list) list" where
  "home_writes s bs = map (\<lambda>k. (unat (bs ! k), blk s (bs ! k))) [0..<length bs]"

lemma cv_blk_view [simp]: "cv_blk (view s) = blk s"
  by (simp add: view_def)

text \<open>The first half of the commit: the blocks to the log, then the header.\<close>

lemma log_half:
  assumes ok: "io_ok i s" and fit: "log_fit s" and held: "cv_held (view s) = Map.empty" and ho: "home_ok s bs"
    and n: "bs = take (length bs) (lg_block s)" "lg_n s = int (length bs)" and dirty: "cv_dirty (view s) = set bs"
  defines "H \<equiv> head_data bs (dk_img s (nat (lg_start s)))"
  shows "\<exists>t. kseq write_log write_head s rs = Ret () t rs \<and> io_ok i t \<and> cframe s t \<and> cv_held (view t) = Map.empty \<and>
    cv_dirty (view t) = set bs \<and> cv_img (view t) = (apply_writes (log_writes s bs) (dk_img s))(nat (lg_start s) := H) \<and>
    cv_trace (view t) = dk_trace s @ log_writes s bs @ [(nat (lg_start s), H)] \<and>
    (\<forall>k<length bs. blk t (log_block s k) = blk s (bs ! k))"
proof -
  let ?h = "head_block s" and ?a = "nat (lg_start s)"
  note B = home_bounds [OF fit ho] and D = log_home_disjoint [OF fit ho] and hb = head_blocks [OF fit]
  let ?ps = "map (\<lambda>k. (log_block s k, bs ! k)) [0..<length bs]"
  obtain t1 where 1: "write_log s rs = Ret () t1 rs" "copying i ?ps s (length bs) t1"
    using write_log_run [OF ok fit held ho n dirty] by blast
  have c1: "io_ok i t1" "cframe s t1" "view t1 = copies ?ps (view s)" using 1(2) by (simp_all add: copying_def)
  have sets: "fst ` set ?ps = log_block s ` {..<length bs}" "snd ` set ?ps = set bs" by (force simp: set_conv_nth)+
  have disj: "fst ` set ?ps \<inter> snd ` set ?ps = {}" unfolding sets by (rule D(1))
  note V1 = copies_view [OF disj, of "view s"]
  have dist: "distinct (map fst ?ps)" using D(4) by (simp add: distinct_map inj_on_def comp_def)
  have blk1: "cv_blk (view t1) (log_block s k) = blk s (bs ! k)" if "k < length bs" for k
  proof -
    have "(log_block s k, bs ! k) \<in> set ?ps" using that by auto
    then show ?thesis using V1 dist by (auto simp: c1(3))
  qed
  have h1: "cv_blk (view t1) ?h = dk_img s ?a"
  proof -
    have "cv_blk (view t1) ?h = cv_blk (view s) ?h" using V1 D(3) by (simp add: c1(3) sets del: cv_blk_view set_map)
    also have "\<dots> = dk_img s ?a" using bc.settled [OF ok, of ?h] held dirty D(2) hb(1) by simp
    finally show ?thesis .
  qed
  have w1: "copy_writes ?ps (view s) = log_writes s bs"
    using log_blocks(1) [OF fit] ho by (auto simp: copy_writes_def log_writes_def home_ok_def)
  have v1: "cv_held (view t1) = Map.empty" "cv_dirty (view t1) = set bs" "cv_img (view t1) = apply_writes (log_writes s bs) (dk_img s)"
      "cv_trace (view t1) = dk_trace s @ log_writes s bs"
    using V1 held dirty D(1) w1 by (auto simp: c1(3) sets simp del: set_map)
  have L1: "lg_n t1 = int (length bs)" "bs = take (length bs) (lg_block t1)" "log_fit t1" "head_block t1 = ?h"
    using cframe_lg [OF c1(2)] cframe_log [OF c1(2)] n fit by simp_all
  have card: "card (set bs) < NBUF" using card_length [of bs] B(2) by simp
  have "\<exists>t. write_head t1 rs = Ret () t rs \<and> io_ok i t \<and> cframe t1 t \<and>
      view t = (view t1)\<lparr>cv_blk := (cv_blk (view t1))(?h := H), cv_img := (cv_img (view t1))(unat ?h := H),
        cv_trace := cv_trace (view t1) @ [(unat ?h, H)]\<rparr>"
    using write_head_run [OF c1(1) L1(3) v1(1) L1(2,1), of rs] B(1) D(2) card by (simp only: L1(4) v1(2) h1 H_def) simp
  then obtain t where t: "write_head t1 rs = Ret () t rs" "io_ok i t" "cframe t1 t"
      "view t = (view t1)\<lparr>cv_blk := (cv_blk (view t1))(?h := H), cv_img := (cv_img (view t1))(unat ?h := H),
        cv_trace := cv_trace (view t1) @ [(unat ?h, H)]\<rparr>" by blast
  have "blk t (log_block s k) = blk s (bs ! k)" if "k < length bs" for k
  proof -
    have "log_block s k \<noteq> ?h" using D(3) that by (metis image_eqI lessThan_iff)
    then show ?thesis using blk1 [OF that] unfolding cv_blk_view [symmetric] by (simp only: t(4)) simp
  qed
  moreover have "kseq write_log write_head s rs = Ret () t rs" using 1(1) t(1) by simp
  moreover have "cframe s t" by (rule cframe_trans [OF c1(2) t(3)])
  moreover have "cv_held (view t) = Map.empty" "cv_dirty (view t) = set bs"
      "cv_img (view t) = (apply_writes (log_writes s bs) (dk_img s))(?a := H)" "cv_trace (view t) = dk_trace s @ log_writes s bs @ [(?a, H)]"
    using v1 hb(1) by (simp_all add: t(4) del: cv_blk_view view_disk)
  ultimately show ?thesis using t(2) by blast
qed

text \<open>The second half: the blocks to their homes, then the empty header.\<close>

lemma home_half:
  assumes ok: "io_ok i s" and fit: "log_fit s" and held: "cv_held (view s) = Map.empty" and ho: "home_ok s bs"
    and n: "bs = take (length bs) (lg_block s)" "lg_n s = int (length bs)" and dirty: "cv_dirty (view s) = set bs"
    and W: "W = map (\<lambda>k. (unat (bs ! k), blk s (log_block s k))) [0..<length bs]"
  shows "\<exists>t E. kseq install_trans (kseq (kmod (\<lambda>s. s\<lparr>lg_n := 0\<rparr>)) write_head) s rs = Ret () t rs \<and> io_ok i t \<and> lg_n t = 0 \<and>
    cv_held (view t) = Map.empty \<and> cv_dirty (view t) = {} \<and> get32 0 E = 0 \<and>
    cv_img (view t) = (apply_writes W (cv_img (view s)))(nat (lg_start s) := E) \<and>
    cv_trace (view t) = cv_trace (view s) @ W @ [(nat (lg_start s), E)]"
proof -
  let ?h = "head_block s" and ?a = "nat (lg_start s)"
  note D = log_home_disjoint [OF fit ho] and hb = head_blocks [OF fit]
  let ?qs = "map (\<lambda>k. (bs ! k, log_block s k)) [0..<length bs]"
  have sets: "fst ` set ?qs = set bs" "snd ` set ?qs = log_block s ` {..<length bs}" by (force simp: set_conv_nth)+
  have disj: "fst ` set ?qs \<inter> snd ` set ?qs = {}" unfolding sets using D(1) by blast
  obtain t1 where 1: "install_trans s rs = Ret () t1 rs" "copying i ?qs s (length bs) t1"
    using install_run [OF ok fit held ho n, of rs] dirty by auto
  have c1: "io_ok i t1" "cframe s t1" "view t1 = copies ?qs (view s)" using 1(2) by (simp_all add: copying_def)
  note V1 = copies_view [OF disj, of "view s"]
  have w1: "copy_writes ?qs (view s) = W" by (simp add: copy_writes_def W)
  have v1: "cv_held (view t1) = Map.empty" "cv_dirty (view t1) = {}"
      "cv_img (view t1) = apply_writes W (cv_img (view s))" "cv_trace (view t1) = cv_trace (view s) @ W"
    using V1 held dirty w1 by (simp_all only: c1(3) sets Diff_cancel)
  let ?t2 = "t1\<lparr>lg_n := 0\<rparr>"
  let ?E = "head_data [] (cv_blk (view ?t2) ?h)"
  have L2: "log_fit ?t2" "head_block ?t2 = ?h" using cframe_log [OF c1(2)] fit by simp_all
  have "\<exists>t. write_head ?t2 rs = Ret () t rs \<and> io_ok i t \<and> cframe ?t2 t \<and>
      view t = (view ?t2)\<lparr>cv_blk := (cv_blk (view ?t2))(?h := ?E), cv_img := (cv_img (view ?t2))(unat ?h := ?E),
        cv_trace := cv_trace (view ?t2) @ [(unat ?h, ?E)]\<rparr>"
    using write_head_run [where bs = "[]" and s = ?t2 and rs = rs and i = i] c1(1) L2 v1 by (simp add: NBUF_def)
  then obtain t where t: "write_head ?t2 rs = Ret () t rs" "io_ok i t" "cframe ?t2 t"
      "view t = (view ?t2)\<lparr>cv_blk := (cv_blk (view ?t2))(?h := ?E), cv_img := (cv_img (view ?t2))(unat ?h := ?E),
        cv_trace := cv_trace (view ?t2) @ [(unat ?h, ?E)]\<rparr>" by blast
  have "length (cv_blk (view ?t2) ?h) = BSIZE" using blk_length [of "pid_of i t1" t1] c1(1) by (simp add: io_ok_def)
  then have E: "get32 0 ?E = 0" using head_upto_get [of 0 _ "[]"] by (simp add: head_data_def BSIZE_def)
  have "kseq install_trans (kseq (kmod (\<lambda>s. s\<lparr>lg_n := 0\<rparr>)) write_head) s rs = Ret () t rs" using 1(1) t(1) by simp
  moreover have "cv_img (view t) = (apply_writes W (cv_img (view s)))(?a := ?E)" "cv_trace (view t) = cv_trace (view s) @ W @ [(?a, ?E)]"
    using v1(3,4) hb(1) by (simp_all add: t(4) del: view_disk cv_blk_view)
  moreover have "lg_n t = 0" "cv_held (view t) = Map.empty" "cv_dirty (view t) = {}"
    using cframe_lg(6) [OF t(3)] v1 by (simp_all add: t(4))
  ultimately show ?thesis using t(2) E by blast
qed

lemma kseq_assoc: "kseq (kseq a b) c = kseq a (kseq b c)"
  by (simp add: kseq_def kbind_assoc)

lemma commit_run:
  assumes tr: "trans_ok i s" and bs: "bs = take (nat (lg_n s)) (lg_block s)" "lg_n s > 0"
  shows "\<exists>t E. commit s rs = Ret () t rs \<and> io_ok i t \<and> lg_n t = 0 \<and> cv_held (view t) = Map.empty \<and> cv_dirty (view t) = {} \<and>
    get32 0 E = 0 \<and> (let W = log_writes s bs @ (nat (lg_start s), head_data bs (dk_img s (nat (lg_start s)))) #
      home_writes s bs @ [(nat (lg_start s), E)] in dk_trace t = dk_trace s @ W \<and> dk_img t = apply_writes W (dk_img s))"
proof -
  let ?a = "nat (lg_start s)" and ?H = "head_data bs (dk_img s (nat (lg_start s)))"
  have ok: "io_ok i s" and fit: "log_fit s" and held: "cv_held (view s) = Map.empty" and ho: "home_ok s bs"
      and dirty: "cv_dirty (view s) = set bs" and n0: "lg_n s \<le> LOGSIZE"
    using tr bs(1) by (auto simp: trans_ok_def)
  have len: "length bs = nat (lg_n s)" using n0 fit bs(2) by (simp add: bs(1) log_fit_def)
  have n: "bs = take (length bs) (lg_block s)" "lg_n s = int (length bs)" using len bs by simp_all
  obtain u where u: "kseq write_log write_head s rs = Ret () u rs" "io_ok i u" "cframe s u" "cv_held (view u) = Map.empty"
      "cv_dirty (view u) = set bs" "cv_img (view u) = (apply_writes (log_writes s bs) (dk_img s))(?a := ?H)"
      "cv_trace (view u) = dk_trace s @ log_writes s bs @ [(?a, ?H)]" "\<forall>k<length bs. blk u (log_block s k) = blk s (bs ! k)"
    using log_half [OF ok fit held ho n dirty, of rs] by blast
  have L: "lg_n u = int (length bs)" "bs = take (length bs) (lg_block u)" "log_fit u" "home_ok u bs" "log_block u = log_block s" "lg_start u = lg_start s"
    using cframe_lg [OF u(3)] cframe_log [OF u(3)] n fit ho by simp_all
  have W: "home_writes s bs = map (\<lambda>k. (unat (bs ! k), blk u (log_block u k))) [0..<length bs]"
    using u(8) by (simp add: home_writes_def L(5))
  obtain t E where t: "kseq install_trans (kseq (kmod (\<lambda>s. s\<lparr>lg_n := 0\<rparr>)) write_head) u rs = Ret () t rs" "io_ok i t" "lg_n t = 0"
      "cv_held (view t) = Map.empty" "cv_dirty (view t) = {}" "get32 0 E = 0"
      "cv_img (view t) = (apply_writes (home_writes s bs) (cv_img (view u)))(?a := E)"
      "cv_trace (view t) = cv_trace (view u) @ home_writes s bs @ [(?a, E)]"
    using home_half [OF u(2) L(3) u(4) L(4,2,1) u(5) W, of rs] unfolding L(6) by blast
  have "commit s rs = kseq (kseq write_log write_head) (kseq install_trans (kseq (kmod (\<lambda>s. s\<lparr>lg_n := 0\<rparr>)) write_head)) s rs"
    using bs(2) by (simp add: commit_def kseq_assoc)
  then have "commit s rs = Ret () t rs" using u(1) t(1) by simp
  then show ?thesis using t u(6,7) by (auto simp: Let_def)
qed

section \<open>Stopping between the writes\<close>

text \<open>
  The disk after the first \<open>j\<close> writes of a commit of \<open>n\<close> blocks: with \<open>j \<le> n\<close> the header is still the
  empty one and only the log area has changed. After that the header names the transaction, with all
  its blocks in the log, until it is cleared with all blocks at home.
\<close>

lemma crash_disk:
  fixes d :: "nat \<Rightarrow> 'a" and H H0 :: 'a and j :: nat
  assumes "length Ls = n" and "length Hs = n" and Ls: "map fst Ls = map (\<lambda>k. a + k + 1) [0..<n]"
    and area: "n < z" "fst ` set Hs \<inter> {a ..< a + z} = {}"
  defines "e \<equiv> apply_writes (take j (Ls @ (a, H) # Hs @ [(a, H0)])) d"
  shows "(j \<le> n \<and> e a = d a \<and> (\<forall>p. p \<notin> {a ..< a + z} \<longrightarrow> e p = d p)) \<or>
    (n < j \<and> e a = H \<and> (\<forall>k<n. e (a + k + 1) = snd (Ls ! k)) \<and> (\<exists>m. \<forall>p. p \<notin> {a ..< a + z} \<longrightarrow> e p = apply_writes (take m Hs) d p)) \<or>
    (n < j \<and> e a = H0 \<and> (\<forall>p. p \<notin> {a ..< a + z} \<longrightarrow> e p = apply_writes Hs d p))"
proof -
  have fL: "fst ` set Ls \<subseteq> {a ..< a + z}" "a \<notin> fst ` set Ls"
  proof -
    have "fst ` set Ls = set (map (\<lambda>k. a + k + 1) [0..<n])" using Ls by (metis list.set_map)
    then show "fst ` set Ls \<subseteq> {a ..< a + z}" "a \<notin> fst ` set Ls" using area(1) by auto
  qed
  have sub: "fst ` set (take m Ls) \<subseteq> fst ` set Ls" "fst ` set (take m Hs) \<subseteq> fst ` set Hs" for m
    by (auto dest!: in_set_takeD)
  have aH: "a \<notin> fst ` set Hs" using area by auto
  have logged: "apply_writes Ls d (a + k + 1) = snd (Ls ! k)" if k: "k < n" for k
  proof -
    have "fst (Ls ! k) = a + k + 1" using Ls k assms(1) by (metis (no_types, lifting) add_0 diff_zero length_upt nth_map nth_upt)
    then have "(a + k + 1, snd (Ls ! k)) \<in> set Ls" using k assms(1) by (metis nth_mem prod.collapse)
    moreover have "distinct (map fst Ls)" unfolding Ls by (simp add: distinct_map inj_on_def)
    ultimately show ?thesis by (intro apply_writes_mem)
  qed
  consider "j \<le> n" | "n < j" "j \<le> 2 * n + 1" | "2 * n + 1 < j" by linarith
  then show ?thesis
  proof cases
    case 1
    then have e: "e = apply_writes (take j Ls) d" by (simp add: e_def assms(1))
    have "a \<notin> fst ` set (take j Ls)" using sub(1) fL(2) by blast
    moreover have "p \<notin> fst ` set (take j Ls)" if "p \<notin> {a ..< a + z}" for p using sub(1) fL(1) that by blast
    ultimately show ?thesis using 1 by (simp add: e apply_writes_other)
  next
    case 2
    let ?m = "j - n - 1"
    have "take j (Ls @ (a, H) # Hs @ [(a, H0)]) = Ls @ (a, H) # take ?m Hs"
      using 2 assms(1,2) by (simp add: take_Cons' not_le)
    then have e: "e = apply_writes (take ?m Hs) ((apply_writes Ls d)(a := H))" by (simp add: e_def)
    have notin: "p \<notin> fst ` set (take ?m Hs)" if "p \<in> {a ..< a + z}" for p using sub(2) area(2) that by blast
    have "e a = H" using notin [of a] area(1) by (simp add: e apply_writes_other)
    moreover have "e (a + k + 1) = snd (Ls ! k)" if "k < n" for k
      using notin [of "a + k + 1"] area(1) that logged [OF that] by (simp add: e apply_writes_other)
    moreover have "e p = apply_writes (take ?m Hs) d p" if "p \<notin> {a ..< a + z}" for p
    proof -
      have "p \<notin> fst ` set Ls" "p \<noteq> a" using that fL(1) area(1) by auto
      then have "((apply_writes Ls d)(a := H)) p = d p" by (simp add: apply_writes_other)
      then show ?thesis unfolding e by (rule apply_writes_cong)
    qed
    ultimately show ?thesis using 2(1) by blast
  next
    case 3
    then have "take j (Ls @ (a, H) # Hs @ [(a, H0)]) = Ls @ (a, H) # Hs @ [(a, H0)]" using assms(1,2) by simp
    then have e: "e = (apply_writes Hs ((apply_writes Ls d)(a := H)))(a := H0)" by (simp add: e_def)
    have "e p = apply_writes Hs d p" if "p \<notin> {a ..< a + z}" for p
    proof -
      have "p \<notin> fst ` set Ls" "p \<noteq> a" using that fL(1) area(1) by auto
      then have "((apply_writes Ls d)(a := H)) p = d p" by (simp add: apply_writes_other)
      then have "apply_writes Hs ((apply_writes Ls d)(a := H)) p = apply_writes Hs d p" by (rule apply_writes_cong)
      then show ?thesis unfolding e using \<open>p \<noteq> a\<close> by simp
    qed
    then show ?thesis using 3 by (simp add: e)
  qed
qed

text \<open>A machine that has come up again on a disk of the same layout, with nothing cached.\<close>

definition booted :: "nat \<Rightarrow> 'a lstate_scheme \<Rightarrow> 'a lstate_scheme \<Rightarrow> bool" where
  "booted i s r \<longleftrightarrow> io_ok i r \<and> cv_held (view r) = Map.empty \<and> cv_dirty (view r) = {} \<and> log_fit r \<and>
     lg_start r = lg_start s \<and> lg_size r = lg_size s \<and> dk_size r = dk_size s"

lemma sint_length:
  assumes "length bs < 2 ^ 31" and "4 + 4 * length bs \<le> length xs"
  shows "sint (get32 0 (head_data bs xs)) = int (length bs)"
  using assms head_upto_get [OF assms(2), of bs] by (simp add: head_data_def signed_of_nat signed_take_bit_int_eq_self)

lemma head_list_0: "get32 0 xs = 0 \<Longrightarrow> head_list xs = []"
  by (simp add: head_list_def)

lemma recover_crashed:
  assumes tr: "trans_ok i s" and bs: "bs = take (nat (lg_n s)) (lg_block s)" and H0: "get32 0 H0 = 0" and b: "booted i s r"
    and r: "dk_img r = apply_writes (take j (log_writes s bs @ (nat (lg_start s), head_data bs (dk_img s (nat (lg_start s)))) #
      home_writes s bs @ [(nat (lg_start s), H0)])) (dk_img s)"
  shows "\<exists>r'. recover_from_log r rs = Ret () r' rs \<and> lg_n r' = 0 \<and> get32 0 (dk_img r' (nat (lg_start s))) = 0 \<and>
    (\<forall>p. p \<notin> log_area s \<longrightarrow> dk_img r' p = (if j \<le> length bs then dk_img s p else apply_writes (home_writes s bs) (dk_img s) p))"
proof -
  let ?a = "nat (lg_start s)" and ?H = "head_data bs (dk_img s (nat (lg_start s)))" and ?z = "nat (lg_size s)"
  have fit: "log_fit s" and ho: "home_ok s bs" and clean: "get32 0 (dk_img s ?a) = 0" using tr bs by (auto simp: trans_ok_def)
  note B = home_bounds [OF fit ho]
  have len: "length (dk_img s ?a) = BSIZE" using tr cache_okD(5) [of "pid_of i s" s] by (simp add: trans_ok_def io_ok_def)
  have hl: "head_list ?H = bs" "sint (get32 0 ?H) = int (length bs)"
    using head_list_data [of bs "dk_img s ?a"] sint_length [of bs "dk_img s ?a"] B(3,5) len by simp_all
  have br: "io_ok i r" "cv_held (view r) = Map.empty" "cv_dirty (view r) = {}" "log_fit r" "lg_start r = lg_start s" and hr: "home_ok r = home_ok s"
    using b by (simp_all add: booted_def home_ok_def [abs_def] log_area_def)
  have area: "log_area s = {?a ..< ?a + ?z}" using fit by (auto simp: log_area_def log_fit_def)
  have dist: "distinct (map fst (home_writes s bs))"
    using B(4) by (simp add: home_writes_def comp_def distinct_map inj_on_def nth_eq_iff_index_eq word_unat_eq_iff [symmetric])
  have rec: "\<exists>r'. recover_from_log r rs = Ret () r' rs \<and> lg_n r' = 0 \<and> get32 0 (dk_img r' ?a) = 0 \<and>
      (\<forall>p. p \<notin> log_area s \<longrightarrow> dk_img r' p = apply_writes (install_writes r cs (dk_img r)) (dk_img r) p)"
    if cs: "cs = head_list (dk_img r ?a)" "0 \<le> sint (get32 0 (dk_img r ?a))" "home_ok s cs" for cs
  proof -
    obtain r' K where "recover_from_log r rs = Ret () r' rs" "lg_n r' = 0" "get32 0 K = 0"
        "dk_img r' = (apply_writes (install_writes r cs (dk_img r)) (dk_img r))(?a := K)"
      using recover_run [OF br(1,4,2,3), of cs rs] cs unfolding br(5) hr by blast
    moreover have "?a \<in> log_area s" using fit by (auto simp: area log_fit_def)
    ultimately show ?thesis by auto
  qed
  have L: "length (log_writes s bs) = length bs" "length (home_writes s bs) = length bs"
    "map fst (log_writes s bs) = map (\<lambda>k. ?a + k + 1) [0..<length bs]" by (simp_all add: log_writes_def home_writes_def comp_def)
  have z: "length bs < ?z" using ho by (auto simp: home_ok_def)
  have out: "fst ` set (home_writes s bs) \<inter> {?a ..< ?a + ?z} = {}"
    using ho unfolding area [symmetric] by (auto simp: home_writes_def home_ok_def)
  have nil: "home_ok s []" using fit by (simp add: home_ok_def log_fit_def)
  have none: "\<exists>r'. recover_from_log r rs = Ret () r' rs \<and> lg_n r' = 0 \<and> get32 0 (dk_img r' ?a) = 0 \<and>
      (\<forall>p. p \<notin> log_area s \<longrightarrow> dk_img r' p = dk_img r p)" if "get32 0 (dk_img r ?a) = 0"
    using rec [of "[]"] nil that head_list_0 [OF that] by (simp add: install_writes_def)
  consider "j \<le> length bs" "dk_img r ?a = dk_img s ?a" "\<forall>p. p \<notin> log_area s \<longrightarrow> dk_img r p = dk_img s p"
    | m where "length bs < j" "dk_img r ?a = ?H" "\<forall>k<length bs. dk_img r (?a + k + 1) = snd (log_writes s bs ! k)"
        "\<forall>p. p \<notin> log_area s \<longrightarrow> dk_img r p = apply_writes (take m (home_writes s bs)) (dk_img s) p"
    | "length bs < j" "dk_img r ?a = H0" "\<forall>p. p \<notin> log_area s \<longrightarrow> dk_img r p = apply_writes (home_writes s bs) (dk_img s) p"
    using crash_disk [OF L z out, of j ?H H0 "dk_img s"] unfolding r [symmetric] area [symmetric] by blast
  then show ?thesis
  proof cases
    case 1
    then show ?thesis using none clean by simp
  next
    case 2
    have "install_writes r bs (dk_img r) = home_writes s bs"
      using 2(3) br(5) by (auto simp: install_writes_def home_writes_def log_writes_def)
    moreover have "apply_writes (home_writes s bs) (dk_img r) p = apply_writes (home_writes s bs) (dk_img s) p" if "p \<notin> log_area s" for p
    proof -
      have "apply_writes (home_writes s bs) (dk_img r) p = apply_writes (home_writes s bs) (apply_writes (take m (home_writes s bs)) (dk_img s)) p"
        using 2(4) that by (intro apply_writes_cong) simp
      then show ?thesis by (simp add: apply_writes_again [OF dist])
    qed
    ultimately show ?thesis using rec [of bs] hl ho 2(1,2) by auto
  next
    case 3
    then show ?thesis using none H0 by simp
  qed
qed

section \<open>Properties\<close>

lemma home_writes_blk:
  assumes "trans_ok i s" and "bs = take (nat (lg_n s)) (lg_block s)"
  shows "apply_writes (home_writes s bs) (dk_img s) (unat n) = blk s n"
proof -
  have tr: "io_ok i s" "cv_held (view s) = Map.empty" "home_ok s bs" "cv_dirty (view s) = set bs"
    using assms by (auto simp: trans_ok_def)
  show ?thesis
  proof (cases "n \<in> set bs")
    case True
    then obtain k where "k < length bs" "n = bs ! k" by (auto simp: in_set_conv_nth)
    then have "(unat n, blk s n) \<in> set (home_writes s bs)" by (auto simp: home_writes_def)
    moreover have "distinct (map fst (home_writes s bs))"
      using tr(3) by (simp add: home_writes_def comp_def distinct_map inj_on_def nth_eq_iff_index_eq home_ok_def
          word_unat_eq_iff [symmetric])
    ultimately show ?thesis by (intro apply_writes_mem)
  next
    case False
    then have "unat n \<notin> fst ` set (home_writes s bs)"
      by (auto simp: home_writes_def word_unat_eq_iff [symmetric])
    moreover have "blk s n = dk_img s (unat n)" using bc.settled [OF tr(1), of n] tr(2,4) False by simp
    ultimately show ?thesis by (simp add: apply_writes_other)
  qed
qed

lemma commit_disk:
  assumes "log_fit s" and "home_ok s bs" and "p \<notin> log_area s"
  shows "apply_writes (log_writes s bs @ (nat (lg_start s), H) # home_writes s bs @ [(nat (lg_start s), E)]) (dk_img s) p
    = apply_writes (home_writes s bs) (dk_img s) p"
proof -
  let ?a = "nat (lg_start s)"
  have a: "?a \<in> log_area s" using head_blocks [OF assms(1)] by simp
  have "p \<notin> fst ` set (log_writes s bs)"
  proof
    assume "p \<in> fst ` set (log_writes s bs)"
    then obtain k where "k < length bs" "p = ?a + k + 1" by (auto simp: log_writes_def)
    then show False using assms(3) log_blocks(1,3) [OF assms(1), of k] assms(2) by (auto simp: home_ok_def)
  qed
  then have "((apply_writes (log_writes s bs) (dk_img s))(?a := H)) p = dk_img s p"
    using assms(3) a by (auto simp: apply_writes_other)
  then have "apply_writes (home_writes s bs) ((apply_writes (log_writes s bs) (dk_img s))(?a := H)) p
      = apply_writes (home_writes s bs) (dk_img s) p" by (rule apply_writes_cong)
  moreover have "p \<noteq> ?a" using assms(3) a by auto
  ultimately show ?thesis by simp
qed

lemma recover_idle:
  assumes tr: "trans_ok i s" and z: "lg_n s = 0" and b: "booted i s r" and r: "dk_img r = dk_img s"
  shows "\<exists>r'. recover_from_log r rs = Ret () r' rs \<and> lg_n r' = 0 \<and> get32 0 (dk_img r' (nat (lg_start s))) = 0 \<and>
    (\<forall>p. p \<in> log_area s \<or> dk_img r' p = dk_img s p)"
proof -
  have fit: "log_fit s" and clean: "get32 0 (dk_img s (nat (lg_start s))) = 0" using tr by (auto simp: trans_ok_def)
  have b: "io_ok i r" "cv_held (view r) = Map.empty" "cv_dirty (view r) = {}" "log_fit r" "lg_start r = lg_start s" "home_ok r []"
    using b fit by (auto simp: booted_def home_ok_def log_area_def log_fit_def)
  obtain r' H where "recover_from_log r rs = Ret () r' rs" "lg_n r' = 0" "get32 0 H = 0"
      "dk_img r' = (apply_writes (install_writes r [] (dk_img r)) (dk_img r))(nat (lg_start r) := H)"
    using recover_run [OF b(1,4,2,3), of "[]" rs] head_list_0 [OF clean] clean b(5,6) r by auto
  moreover have "nat (lg_start s) \<in> log_area s" using head_blocks [OF fit] by simp
  ultimately show ?thesis using r b(5) by (auto simp: install_writes_def)
qed

text \<open>C4: A commit is atomic. It returns with every block outside the log on the disk as the cache had it;
  and if the machine stops after any number \<open>j\<close> of its disk writes, recovery from the disk left behind
  returns, with the log empty and, outside the log, either the disk from before the commit or the one it
  would have ended with. The write of the header decides which.\<close>

theorem commit_is_atomic:
  assumes "trans_ok i s"
  shows "\<exists>t W. commit s rs = Ret () t rs \<and> dk_trace t = dk_trace s @ W \<and> dk_img t = apply_writes W (dk_img s) \<and>
    (\<forall>n. unat n \<in> log_area s \<or> dk_img t (unat n) = blk s n) \<and>
    (\<forall>j r rs'. booted i s r \<and> dk_img r = apply_writes (take j W) (dk_img s) \<longrightarrow>
      (\<exists>r'. recover_from_log r rs' = Ret () r' rs' \<and> lg_n r' = 0 \<and> get32 0 (dk_img r' (nat (lg_start s))) = 0 \<and>
        (\<forall>p. p \<in> log_area s \<or> dk_img r' p = (if int j \<le> lg_n s then dk_img s p else dk_img t p))))"
proof (cases "lg_n s > 0")
  case True
  let ?a = "nat (lg_start s)"
  define bs where "bs = take (nat (lg_n s)) (lg_block s)"
  have fit: "log_fit s" and n0: "lg_n s \<le> LOGSIZE" and ho: "home_ok s bs" using assms by (auto simp: trans_ok_def bs_def)
  have len: "int (length bs) = lg_n s" using n0 fit True by (simp add: bs_def log_fit_def)
  obtain t E where t: "commit s rs = Ret () t rs" "get32 0 E = 0"
      "let W = log_writes s bs @ (?a, head_data bs (dk_img s ?a)) # home_writes s bs @ [(?a, E)]
       in dk_trace t = dk_trace s @ W \<and> dk_img t = apply_writes W (dk_img s)"
    using commit_run [OF assms bs_def True] by blast
  define W where "W = log_writes s bs @ (?a, head_data bs (dk_img s ?a)) # home_writes s bs @ [(?a, E)]"
  have W: "dk_trace t = dk_trace s @ W" "dk_img t = apply_writes W (dk_img s)" using t(3) unfolding W_def Let_def by auto
  have whole: "dk_img t p = apply_writes (home_writes s bs) (dk_img s) p" if "p \<notin> log_area s" for p
    unfolding W(2) W_def by (rule commit_disk [OF fit ho that])
  have "\<exists>r'. recover_from_log r rs' = Ret () r' rs' \<and> lg_n r' = 0 \<and> get32 0 (dk_img r' ?a) = 0 \<and>
      (\<forall>p. p \<in> log_area s \<or> dk_img r' p = (if int j \<le> lg_n s then dk_img s p else dk_img t p))"
    if "booted i s r" "dk_img r = apply_writes (take j W) (dk_img s)" for j r rs'
    using recover_crashed [OF assms bs_def t(2) that(1) that(2) [unfolded W_def], of rs'] whole unfolding len [symmetric] of_nat_le_iff
    by metis
  moreover have "unat n \<in> log_area s \<or> dk_img t (unat n) = blk s n" for n
    using whole [of "unat n"] home_writes_blk [OF assms bs_def, of n] by metis
  ultimately show ?thesis using t(1) W by blast
next
  case False
  have z: "lg_n s = 0" using False assms by (simp add: trans_ok_def)
  have run: "commit s rs = Ret () s rs" by (simp add: commit_def z)
  have "blk s n = dk_img s (unat n)" for n using bc.settled [of i s n] assms z by (simp add: trans_ok_def)
  then show ?thesis using run z recover_idle [OF assms z] by (intro exI [of _ s] exI [of _ "[]"]) auto
qed

text \<open>A transaction of one block: block 100 is changed in the cache only.\<close>

definition small_ls :: lstate where
  "small_ls = bstate.extend (up_buf 0 (\<lambda>k. k\<lparr>b_dev := 1, b_blockno := 100, b_flags := 6, b_data := replicate BSIZE 9\<rparr>) small_bs)
     \<lparr>lg_start = 2, lg_size = 30, lg_outstanding = 0, lg_committing = 1, lg_dev = 1, lg_n = 1, lg_block = 100 # replicate 29 0\<rparr>"

lemma small_ls_fields:
  "m_cpus small_ls = m_cpus small_bs" "m_lapicid small_ls = m_lapicid small_bs" "m_if small_ls = m_if small_bs"
  "m_locks small_ls = m_locks small_bs" "pt_proc small_ls = pt_proc small_bs" "dk_size small_ls = 1000"
  "dk_img small_ls n = replicate BSIZE 0" "slk_locked (ss_locks small_ls l) = 0" "dk_trace small_ls = []"
  "lg_start small_ls = 2" "lg_size small_ls = 30" "lg_dev small_ls = 1" "lg_n small_ls = 1" "lg_block small_ls = 100 # replicate 29 0"
  "lg_outstanding small_ls = 0" "lg_committing small_ls = 1"
  by (simp_all add: small_ls_def bstate.defs up_buf_def small_bs_fields)

lemma small_ls_buf:
  "buf_at small_ls 0 = (buf_at small_bs 0)\<lparr>b_dev := 1, b_blockno := 100, b_flags := 6, b_data := replicate BSIZE 9\<rparr>"
  "j \<noteq> 0 \<Longrightarrow> buf_at small_ls j = buf_at small_bs j" "length (bc_buf small_ls) = NBUF + 1"
proof -
  have b: "bc_buf small_ls = bc_buf (up_buf 0 (\<lambda>k. k\<lparr>b_dev := 1, b_blockno := 100, b_flags := 6, b_data := replicate BSIZE 9\<rparr>) small_bs)"
    by (simp add: small_ls_def bstate.defs)
  have l: "length (bc_buf small_bs) = NBUF + 1" by (simp add: small_bs_def sstate.defs)
  show "buf_at small_ls 0 = (buf_at small_bs 0)\<lparr>b_dev := 1, b_blockno := 100, b_flags := 6, b_data := replicate BSIZE 9\<rparr>"
    "j \<noteq> 0 \<Longrightarrow> buf_at small_ls j = buf_at small_bs j" "length (bc_buf small_ls) = NBUF + 1"
    unfolding b using l by simp_all
qed

lemma small_ls_cache: "cache_ok pid small_ls" "on_block small_ls b n \<longleftrightarrow> b = 0 \<and> n = 100" "dirty (buf_at small_ls 0)"
proof -
  have ok: "cache_ok pid small_bs" for pid by (rule small_bs_ok(1))
  obtain xs where "ring small_bs xs" using cache_okD(2) [OF ok] by blast
  moreover have "b_next (buf_at small_ls j) = b_next (buf_at small_bs j)" "b_prev (buf_at small_ls j) = b_prev (buf_at small_bs j)" for j
    using small_ls_buf by (cases "j = 0"; simp)+
  ultimately have r: "\<exists>xs. ring small_ls xs" by (auto simp: ring_def nxt_def [abs_def] prv_def [abs_def])
  show on: "on_block small_ls b n \<longleftrightarrow> b = 0 \<and> n = 100" for b n
    using small_ls_buf small_bs_buf [of b] by (cases "b = 0") (auto simp: on_block_def NBUF_def)
  show d: "dirty (buf_at small_ls 0)" by (simp add: small_ls_buf dirty_def B_DIRTY_def)
  have "buf_ok pid small_ls b" if "b < NBUF" for b
  proof (cases "b = 0")
    case True
    then show ?thesis
      using small_bs_buf [of 0] by (simp add: buf_ok_def Let_def small_ls_buf small_ls_fields locked_buf_def valid_def dirty_def B_VALID_def B_DIRTY_def)
  next
    case False
    then show ?thesis
      using small_bs_buf [of b] that by (simp add: buf_ok_def Let_def small_ls_buf small_ls_fields locked_buf_def dirty_def)
  qed
  then show "cache_ok pid small_ls"
    using r on by (auto simp: cache_ok_def small_ls_buf small_ls_fields)
qed

lemma small_ls_trans: "trans_ok 0 small_ls" "cv_held (view small_ls) = Map.empty" "cv_dirty (view small_ls) = {100}"
proof -
  have "quiescent 0 small_ls" using small_bs_ok(2) quiescent_cong [of small_ls small_bs 0] by (simp add: io_ok_def small_ls_fields)
  then have io: "io_ok 0 small_ls" using small_ls_cache(1) by (simp add: io_ok_def)
  show h: "cv_held (view small_ls) = Map.empty" by (simp add: view_def locked_buf_def small_ls_fields)
  show d: "cv_dirty (view small_ls) = {100}" using small_ls_cache(2,3) by (auto simp: view_def)
  have "log_fit small_ls" by (simp add: log_fit_def small_ls_fields LOGSIZE_def MAXOPBLOCKS_def)
  then show "trans_ok 0 small_ls"
    using io h d by (simp add: trans_ok_def small_ls_fields home_ok_def log_area_def LOGSIZE_def MAXOPBLOCKS_def get32_def BSIZE_def)
qed

theorem commit_is_atomic_witness:
  "\<exists>t W. commit small_ls [] = Ret () t [] \<and> dk_trace t = W \<and> dk_img t 100 = replicate 512 9 \<and>
    (\<forall>j r. booted 0 small_ls r \<and> dk_img r = apply_writes (take j W) (dk_img small_ls) \<longrightarrow>
      (\<exists>r'. recover_from_log r [] = Ret () r' [] \<and> dk_img r' 100 = (if j \<le> 1 then replicate 512 0 else replicate 512 9)))"
proof -
  have b: "blk small_ls 100 = replicate BSIZE 9"
    using blk_cached [OF small_ls_cache(1), of 0 100] by (simp add: small_ls_cache(2) small_ls_buf)
  have a: "(100 :: nat) \<notin> log_area small_ls" by (simp add: log_area_def small_ls_fields)
  obtain t W where t: "commit small_ls [] = Ret () t []" "dk_trace t = dk_trace small_ls @ W"
      "\<forall>n. unat n \<in> log_area small_ls \<or> dk_img t (unat n) = blk small_ls n"
      "\<forall>j r rs'. booted 0 small_ls r \<and> dk_img r = apply_writes (take j W) (dk_img small_ls) \<longrightarrow>
      (\<exists>r'. recover_from_log r rs' = Ret () r' rs' \<and> lg_n r' = 0 \<and> get32 0 (dk_img r' (nat (lg_start small_ls))) = 0 \<and>
        (\<forall>p. p \<in> log_area small_ls \<or> dk_img r' p = (if int j \<le> lg_n small_ls then dk_img small_ls p else dk_img t p)))"
    using commit_is_atomic [OF small_ls_trans(1), of "[]"] by blast
  have c: "dk_img t 100 = replicate 512 9" using spec [OF t(3), of 100] a b by (simp add: BSIZE_def)
  have "\<exists>r'. recover_from_log r [] = Ret () r' [] \<and> dk_img r' 100 = (if j \<le> 1 then replicate 512 0 else replicate 512 9)"
    if r: "booted 0 small_ls r" "dk_img r = apply_writes (take j W) (dk_img small_ls)" for j r
  proof -
    obtain r' where "recover_from_log r [] = Ret () r' []" "\<forall>p. p \<in> log_area small_ls \<or> dk_img r' p = (if int j \<le> lg_n small_ls then dk_img small_ls p else dk_img t p)"
      using t(4) r by blast
    then show ?thesis using a c by (auto simp: small_ls_fields BSIZE_def)
  qed
  then show ?thesis using t(1,2) c by (auto simp: small_ls_fields)
qed

section \<open>Joining a transaction\<close>

lemma lg_section [simp]:
  "lg_n (acquired l s) = lg_n s" "lg_block (acquired l s) = lg_block s" "lg_n (released l s) = lg_n s" "lg_block (released l s) = lg_block s"
  "dk_trace (acquired l s) = dk_trace s" "dk_trace (released l s) = dk_trace s"
  by (simp_all add: acquired_def released_def up_lock_def pushed_def popped_def up_cpu_def)

lemma log_entry_run:
  assumes "lg_n s = int n" and "n \<le> length (lg_block s)" and "i \<le> n" and "n - i < k"
  shows "\<exists>j. log_slot_of k b i s rs = Ret j s rs \<and> i \<le> j \<and> j \<le> n \<and> (j < n \<longrightarrow> lg_block s ! j = b) \<and>
    (\<forall>l. i \<le> l \<longrightarrow> l < j \<longrightarrow> lg_block s ! l \<noteq> b)"
  using assms
proof (induction k arbitrary: i)
  case (Suc k)
  show ?case
  proof (cases "i < n \<and> lg_block s ! i \<noteq> b")
    case True
    then obtain j where "log_slot_of k b (Suc i) s rs = Ret j s rs" "Suc i \<le> j" "j \<le> n" "j < n \<longrightarrow> lg_block s ! j = b"
        "\<forall>l. Suc i \<le> l \<longrightarrow> l < j \<longrightarrow> lg_block s ! l \<noteq> b"
      using Suc.IH [of "Suc i"] Suc.prems by fastforce
    moreover have "lg_block s ! l \<noteq> b" if "i \<le> l" "l < j" for l using that True calculation(5) by (cases "l = i") auto
    ultimately show ?thesis using True Suc.prems by (intro exI [of _ j]) auto
  next
    case False
    then show ?thesis using Suc.prems by (intro exI [of _ i]) auto
  qed
qed simp

definition joined :: "nat \<Rightarrow> nat \<Rightarrow> 'a lstate_scheme \<Rightarrow> 'a lstate_scheme" where
  "joined b j s = (let t = s\<lparr>lg_block := (lg_block s)[j := b_blockno (buf_at s b)]\<rparr>
     in mark_dirty b (if int j = lg_n s then t\<lparr>lg_n := lg_n s + 1\<rparr> else t))"

lemma joined_fields:
  "m_cpus (joined b j s) = m_cpus s" "m_lapicid (joined b j s) = m_lapicid s" "m_if (joined b j s) = m_if s"
  "m_locks (joined b j s) = m_locks s" "lg_block (joined b j s) = (lg_block s)[j := b_blockno (buf_at s b)]"
  "lg_n (joined b j s) = (if int j = lg_n s then lg_n s + 1 else lg_n s)" "dk_trace (joined b j s) = dk_trace s"
  "bc_buf (joined b j s) = (bc_buf s)[b := (buf_at s b)\<lparr>b_flags := b_flags (buf_at s b) OR B_DIRTY\<rparr>]"
  by (simp_all add: joined_def Let_def mark_dirty_def up_buf_def)

lemma log_write_run:
  assumes "quiescent i s" and "length (lg_block s) = nat LOGSIZE" and "lg_n s = int n" and "b < length (bc_buf s)"
    and "lg_n s < LOGSIZE" and "lg_n s < lg_size s - 1" and "\<not> lg_outstanding s < 1"
  shows "\<exists>j. j \<le> n \<and> (j < n \<longrightarrow> lg_block s ! j = b_blockno (buf_at s b)) \<and> (\<forall>l<j. lg_block s ! l \<noteq> b_blockno (buf_at s b)) \<and>
    log_write b s rs = Ret () (released LLog (joined b j (acquired LLog s))) rs"
proof -
  let ?a = "acquired LLog s" and ?m = "b_blockno (buf_at s b)"
  have ok: "cpu_ok s" "self s \<noteq> None" "0 \<le> ncli s" "lk_locked (m_locks s LLog) = 0"
    using assms(1) by (auto simp: quiescent_def cpu_ok_def)
  have n: "n < nat LOGSIZE" using assms(3,5) by (simp add: LOGSIZE_def MAXOPBLOCKS_def)
  obtain j where j: "log_slot_of (nat LOGSIZE + 1) ?m 0 ?a rs = Ret j ?a rs" "j \<le> n" "j < n \<longrightarrow> lg_block s ! j = ?m"
      "\<forall>l<j. lg_block s ! l \<noteq> ?m"
    using log_entry_run [of ?a n 0 "nat LOGSIZE + 1" ?m rs] assms(2,3) n by auto
  let ?u = "joined b j ?a"
  have same: "cpu_ok ?u = cpu_ok ?a" "holds LLog ?u = holds LLog ?a" "ncli ?u = ncli ?a"
    by (rule machine_cong; simp add: joined_fields)+
  have rel: "release LLog ?u rs = Ret () (released LLog ?u) rs" using ok same by (intro release_run) simp_all
  have jl: "aset (lg_block s) (int j) ?m = Some ((lg_block s)[j := ?m])" using j(2) n assms(2) by (intro aset_int) simp
  have guard: "\<not> (lg_n s \<ge> LOGSIZE \<or> lg_n s \<ge> lg_size s - 1)" using assms(5,6) by simp
  have acq: "acquire LLog s rs = Ret () ?a rs" using ok by (simp add: acquire_run)
  have "log_write b s rs = release LLog ?u rs"
    unfolding log_write_def kprim_simps(2) if_not_P [OF guard] if_not_P [OF assms(7)] kseq_simps(1) [where m = "acquire LLog" and s = s, OF acq]
      kprim_simps(2) bc_section kbind_simps(1) [where m = "log_slot_of (nat LOGSIZE + 1) ?m 0" and s = ?a, OF j(1)]
    by (simp add: jl joined_def Let_def)
  then show ?thesis using j(2-4) rel by auto
qed

text \<open>C37: \<^verbatim>\<open>log_write\<close> adds the block to the transaction once: a block already in the header is not entered
  again. The buffer is pinned and nothing is written. A transaction that would outgrow the log, and a
  write outside every transaction, stop the kernel.\<close>

theorem log_write_absorbs:
  assumes "quiescent i s" and "length (lg_block s) = nat LOGSIZE" and "0 \<le> lg_n s" and "b < length (bc_buf s)"
  shows "if lg_n s \<ge> LOGSIZE \<or> lg_n s \<ge> lg_size s - 1 then log_write b s rs = Panic ''too big a transaction'' s
    else if lg_outstanding s < 1 then log_write b s rs = Panic ''log_write outside of trans'' s
    else \<exists>t. log_write b s rs = Ret () t rs \<and> dirty (buf_at t b) \<and> b_data (buf_at t b) = b_data (buf_at s b) \<and>
      (\<forall>j. j = b \<or> buf_at t j = buf_at s j) \<and> dk_trace t = dk_trace s \<and>
      (let n = b_blockno (buf_at s b); bs = take (nat (lg_n s)) (lg_block s)
       in take (nat (lg_n t)) (lg_block t) = (if n \<in> set bs then bs else bs @ [n]))"
proof (cases "lg_n s \<ge> LOGSIZE \<or> lg_n s \<ge> lg_size s - 1 \<or> lg_outstanding s < 1")
  case True
  then show ?thesis by (auto simp: log_write_def)
next
  case False
  obtain n where n: "lg_n s = int n" using assms(3) nonneg_int_cases by blast
  let ?m = "b_blockno (buf_at s b)" and ?bs = "take n (lg_block s)"
  obtain j where j: "j \<le> n" "j < n \<longrightarrow> lg_block s ! j = ?m" "\<forall>l<j. lg_block s ! l \<noteq> ?m"
      "log_write b s rs = Ret () (released LLog (joined b j (acquired LLog s))) rs"
    using log_write_run [OF assms(1,2) n assms(4), of rs] False by auto
  let ?t = "released LLog (joined b j (acquired LLog s))"
  have lt: "n < length (lg_block s)" using False n assms(2) by (simp add: LOGSIZE_def MAXOPBLOCKS_def)
  have head: "take (nat (lg_n ?t)) (lg_block ?t) = (if ?m \<in> set ?bs then ?bs else ?bs @ [?m])"
  proof (cases "j < n")
    case True
    then have "(lg_block s)[j := ?m] = lg_block s" using j(2) by (metis list_update_id)
    moreover have "?m \<in> set ?bs" using True j(2) lt by (metis in_set_conv_nth length_take min.absorb2 nth_take order_less_imp_le)
    ultimately show ?thesis using True n by (simp add: joined_fields)
  next
    case False
    then have jn: "j = n" using j(1) by simp
    have "?m \<notin> set ?bs" using j(3) lt jn by (auto simp: in_set_conv_nth)
    moreover have "take (Suc n) ((lg_block s)[n := ?m]) = ?bs @ [?m]" using lt by (simp add: take_Suc_conv_app_nth take_update_cancel)
    moreover have "nat (int n + 1) = Suc n" by simp
    ultimately show ?thesis using jn n by (simp add: joined_fields)
  qed
  have bc: "bc_buf ?t = (bc_buf s)[b := (buf_at s b)\<lparr>b_flags := b_flags (buf_at s b) OR B_DIRTY\<rparr>]" by (simp add: joined_fields)
  then have "dirty (buf_at ?t b)" "b_data (buf_at ?t b) = b_data (buf_at s b)"
    using assms(4) by (simp_all add: dirty_def flag_bits flag_bit_tests)
  moreover have "\<forall>j. j = b \<or> buf_at ?t j = buf_at s j" unfolding bc by (metis nth_list_update_neq)
  moreover have "dk_trace ?t = dk_trace s" by (simp add: joined_fields)
  ultimately show ?thesis using head j(4) False n by (auto simp: Let_def)
qed

theorem log_write_absorbs_witness:
  "log_write 0 (small_ls\<lparr>lg_outstanding := 0\<rparr>) [] = Panic ''log_write outside of trans'' (small_ls\<lparr>lg_outstanding := 0\<rparr>) \<and>
   (\<exists>t. log_write 0 (small_ls\<lparr>lg_outstanding := 1\<rparr>) [] = Ret () t [] \<and> take (nat (lg_n t)) (lg_block t) = [100])"
proof -
  have q: "quiescent 0 (small_ls\<lparr>lg_outstanding := x\<rparr>)" for x
    using small_ls_trans(1) quiescent_cong [of "small_ls\<lparr>lg_outstanding := x\<rparr>" small_ls 0] by (simp add: trans_ok_def io_ok_def)
  note W = log_write_absorbs [OF q, of _ 0 "[]"]
  show ?thesis
    using W [of 0] W [of 1] small_ls_buf by (auto simp: small_ls_fields LOGSIZE_def MAXOPBLOCKS_def Let_def)
qed

end
