(* ===== verification/Inode.thy ===== *)
theory Inode
  imports Log
begin

unbundle bit_operations_syntax

text \<open>
  Blocks and inodes, the lower half of \<^verbatim>\<open>fs.c\<close>: the allocation bitmap, the cache of inodes, the map from
  file positions to blocks, and truncation. It is shown that \<^verbatim>\<open>iget\<close> keeps one slot of the cache per inode
  in use, and that an inode survives the trip to the disk and back. The other operations are modelled
  and are used by the theories above.
\<close>

section \<open>Layout\<close>

definition NINODE :: nat where "NINODE = 50"
definition NDEV :: int where "NDEV = 10"
definition ROOTDEV :: "32 word" where "ROOTDEV = 1"
definition ROOTINO :: "32 word" where "ROOTINO = 1"
definition NDIRECT :: nat where "NDIRECT = 12"
definition NINDIRECT :: nat where "NINDIRECT = BSIZE div 4"
definition MAXFILE :: nat where "MAXFILE = NDIRECT + NINDIRECT"
definition sizeof_dinode :: nat where "sizeof_dinode = 64"
definition IPB :: nat where "IPB = BSIZE div sizeof_dinode"
definition BPB :: nat where "BPB = BSIZE * 8"
definition DIRSIZ :: nat where "DIRSIZ = 14"
definition T_DIR :: "16 word" where "T_DIR = 1"
definition T_FILE :: "16 word" where "T_FILE = 2"
definition T_DEV :: "16 word" where "T_DEV = 3"

definition IBLOCK :: "32 word \<Rightarrow> superblock \<Rightarrow> 32 word" where
  "IBLOCK i sb = i div of_nat IPB + sb_inodestart sb"

definition BBLOCK :: "32 word \<Rightarrow> superblock \<Rightarrow> 32 word" where
  "BBLOCK b sb = b div of_nat BPB + sb_bmapstart sb"

record inode =
  i_dev :: "32 word"
  i_inum :: "32 word"
  i_ref :: int
  i_valid :: int
  i_type :: "16 word"
  i_major :: "16 word"
  i_minor :: "16 word"
  i_nlink :: "16 word"
  i_size :: "32 word"
  i_addrs :: "32 word list"

record istate = lstate +
  fs_sb :: superblock
  ic_inode :: "inode list"

abbreviation inode_at :: "'a istate_scheme \<Rightarrow> nat \<Rightarrow> inode" where
  "inode_at s ip \<equiv> ic_inode s ! ip"

definition up_inode :: "nat \<Rightarrow> (inode \<Rightarrow> inode) \<Rightarrow> 'a istate_scheme \<Rightarrow> 'a istate_scheme" where
  "up_inode ip f s = s\<lparr>ic_inode := (ic_inode s)[ip := f (inode_at s ip)]\<rparr>"

text \<open>\<^verbatim>\<open>struct dinode\<close> in its block: the assignments in \<^verbatim>\<open>iupdate\<close> and in \<^verbatim>\<open>ilock\<close>.\<close>

definition dinode_off :: "32 word \<Rightarrow> nat" where
  "dinode_off inum = unat (inum mod of_nat IPB) * sizeof_dinode"

definition put_addrs :: "nat \<Rightarrow> 32 word list \<Rightarrow> 8 word list \<Rightarrow> 8 word list" where
  "put_addrs a ws xs = fold (\<lambda>k. put32 (a + 4 * k) (ws ! k)) [0..<NDIRECT + 1] xs"

definition get_addrs :: "nat \<Rightarrow> 8 word list \<Rightarrow> 32 word list" where
  "get_addrs a xs = map (\<lambda>k. get32 (a + 4 * k) xs) [0..<NDIRECT + 1]"

definition dinode_put :: "inode \<Rightarrow> 8 word list \<Rightarrow> 8 word list" where
  "dinode_put ip xs = (let a = dinode_off (i_inum ip) in
     put_addrs (a + 12) (i_addrs ip) (put32 (a + 8) (i_size ip) (put16 (a + 6) (i_nlink ip)
       (put16 (a + 4) (i_minor ip) (put16 (a + 2) (i_major ip) (put16 a (i_type ip) xs))))))"

definition dinode_get :: "8 word list \<Rightarrow> inode \<Rightarrow> inode" where
  "dinode_get xs ip = (let a = dinode_off (i_inum ip) in
     ip\<lparr>i_type := get16 a xs, i_major := get16 (a + 2) xs, i_minor := get16 (a + 4) xs, i_nlink := get16 (a + 6) xs,
        i_size := get32 (a + 8) xs, i_addrs := get_addrs (a + 12) xs\<rparr>)"

section \<open>Blocks\<close>

definition bzero :: "32 word \<Rightarrow> 32 word \<Rightarrow> (unit, 'a lstate_scheme) kern" where
  "bzero dev bno =
     kbind (bread dev bno) (\<lambda>bp.
     kseq (kmod (set_data bp (replicate BSIZE 0))) (
     kseq (log_write bp)
     (brelse bp)))"

definition bit_clear :: "8 word list \<Rightarrow> nat \<Rightarrow> bool" where
  "bit_clear xs bi \<longleftrightarrow> xs ! (bi div 8) AND push_bit (bi mod 8) 1 = 0"

definition set_bit_in :: "nat \<Rightarrow> 8 word list \<Rightarrow> 8 word list" where
  "set_bit_in bi xs = xs[bi div 8 := xs ! (bi div 8) OR push_bit (bi mod 8) 1]"

definition clear_bit_in :: "nat \<Rightarrow> 8 word list \<Rightarrow> 8 word list" where
  "clear_bit_in bi xs = xs[bi div 8 := xs ! (bi div 8) AND NOT (push_bit (bi mod 8) 1)]"

text \<open>The superblock is read once, since it changes in \<^verbatim>\<open>iinit\<close> only.\<close>

function balloc_loop :: "superblock \<Rightarrow> 32 word \<Rightarrow> nat \<Rightarrow> (32 word, 'a lstate_scheme) kern" where
  "balloc_loop sb dev b =
     (if b < unat (sb_size sb) then
       kbind (bread dev (BBLOCK (of_nat b) sb)) (\<lambda>bp.
       kget (\<lambda>s. case List.find (\<lambda>bi. b + bi < unat (sb_size sb) \<and> bit_clear (b_data (buf_at s bp)) bi) [0..<BPB] of
         Some bi \<Rightarrow>
           kseq (kmod (set_data bp (set_bit_in bi (b_data (buf_at s bp))))) (
           kseq (log_write bp) (
           kseq (brelse bp) (
           kseq (bzero dev (of_nat (b + bi)))
           (kret (of_nat (b + bi))))))
       | None \<Rightarrow>
           kseq (brelse bp)
           (balloc_loop sb dev (b + BPB))))
     else panic ''balloc: out of blocks'')"
  by pat_completeness auto

termination balloc_loop
  by (relation "measure (\<lambda>(sb, dev, b). unat (sb_size sb) - b)") (auto simp: BPB_def BSIZE_def)

declare balloc_loop.simps [simp del]

definition balloc :: "32 word \<Rightarrow> (32 word, 'a istate_scheme) kern" where
  "balloc dev = kget (\<lambda>s. balloc_loop (fs_sb s) dev 0)"

definition bfree :: "32 word \<Rightarrow> 32 word \<Rightarrow> (unit, 'a istate_scheme) kern" where
  "bfree dev b = kget (\<lambda>s.
     kbind (bread dev (BBLOCK b (fs_sb s))) (\<lambda>bp.
     let bi = unat (b mod of_nat BPB) in
     kget (\<lambda>s. if bit_clear (b_data (buf_at s bp)) bi then panic ''freeing free block'' else
     kseq (kmod (set_data bp (clear_bit_in bi (b_data (buf_at s bp))))) (
     kseq (log_write bp)
     (brelse bp)))))"

section \<open>The inode cache\<close>

definition iinit :: "int \<Rightarrow> (unit, 'a istate_scheme) kern" where
  "iinit dev =
     kseq (initlock LIcache ''icache'') (
     kseq (kfor [0..<NINODE] (\<lambda>i. initsleeplock (SInode i) ''inode'')) (
     kbind (readsb dev) (\<lambda>sb.
     kseq (kmod (\<lambda>s. s\<lparr>fs_sb := sb\<rparr>))
     (cprintf (''sb: size %d nblocks %d ninodes %d nlog %d logstart %d inodestart %d bmap start %d'' @ [CHR 0x0A])
       [AWord (sb_size sb), AWord (sb_nblocks sb), AWord (sb_ninodes sb), AWord (sb_nlog sb), AWord (sb_logstart sb),
        AWord (sb_inodestart sb), AWord (sb_bmapstart sb)]))))"

definition iget :: "32 word \<Rightarrow> 32 word \<Rightarrow> (nat, 'a istate_scheme) kern" where
  "iget dev inum =
     kseq (acquire LIcache) (
     kget (\<lambda>s. case List.find (\<lambda>ip. i_ref (inode_at s ip) > 0 \<and> i_dev (inode_at s ip) = dev \<and> i_inum (inode_at s ip) = inum) [0..<NINODE] of
       Some ip \<Rightarrow>
         kseq (kmod (up_inode ip (\<lambda>k. k\<lparr>i_ref := i_ref k + 1\<rparr>))) (
         kseq (release LIcache)
         (kret ip))
     | None \<Rightarrow> (case List.find (\<lambda>ip. i_ref (inode_at s ip) = 0) [0..<NINODE] of
         None \<Rightarrow> panic ''iget: no inodes''
       | Some ip \<Rightarrow>
           kseq (kmod (up_inode ip (\<lambda>k. k\<lparr>i_dev := dev, i_inum := inum, i_ref := 1, i_valid := 0\<rparr>))) (
           kseq (release LIcache)
           (kret ip)))))"

function ialloc_loop :: "superblock \<Rightarrow> 32 word \<Rightarrow> 16 word \<Rightarrow> nat \<Rightarrow> (nat, 'a istate_scheme) kern" where
  "ialloc_loop sb dev type inum =
     (if inum < unat (sb_ninodes sb) then
       kbind (bread dev (IBLOCK (of_nat inum) sb)) (\<lambda>bp.
       kget (\<lambda>s. let a = dinode_off (of_nat inum); xs = b_data (buf_at s bp) in
       if get16 a xs = 0 then
         kseq (kmod (set_data bp (put16 a type (splice a (replicate sizeof_dinode 0) xs)))) (
         kseq (log_write bp) (
         kseq (brelse bp)
         (iget dev (of_nat inum))))
       else
         kseq (brelse bp)
         (ialloc_loop sb dev type (Suc inum))))
     else panic ''ialloc: no inodes'')"
  by pat_completeness auto

termination ialloc_loop
  by (relation "measure (\<lambda>(sb, dev, type, inum). unat (sb_ninodes sb) - inum)") auto

declare ialloc_loop.simps [simp del]

definition ialloc :: "32 word \<Rightarrow> 16 word \<Rightarrow> (nat, 'a istate_scheme) kern" where
  "ialloc dev type = kget (\<lambda>s. ialloc_loop (fs_sb s) dev type 1)"

definition iupdate :: "nat \<Rightarrow> (unit, 'a istate_scheme) kern" where
  "iupdate ip = kget (\<lambda>s.
     kbind (bread (i_dev (inode_at s ip)) (IBLOCK (i_inum (inode_at s ip)) (fs_sb s))) (\<lambda>bp.
     kseq (kmod (\<lambda>s. set_data bp (dinode_put (inode_at s ip) (b_data (buf_at s bp))) s)) (
     kseq (log_write bp)
     (brelse bp))))"

definition idup :: "nat \<Rightarrow> (nat, 'a istate_scheme) kern" where
  "idup ip =
     kseq (acquire LIcache) (
     kseq (kmod (up_inode ip (\<lambda>k. k\<lparr>i_ref := i_ref k + 1\<rparr>))) (
     kseq (release LIcache)
     (kret ip)))"

definition ilock :: "nat option \<Rightarrow> (unit, 'a istate_scheme) kern" where
  "ilock p = (case p of None \<Rightarrow> panic ''ilock'' | Some ip \<Rightarrow> kget (\<lambda>s.
     if i_ref (inode_at s ip) < 1 then panic ''ilock'' else
     kseq (acquiresleep (SInode ip)) (
     kget (\<lambda>s. kwhen (i_valid (inode_at s ip) = 0) (
       kbind (bread (i_dev (inode_at s ip)) (IBLOCK (i_inum (inode_at s ip)) (fs_sb s))) (\<lambda>bp.
       kseq (kmod (\<lambda>s. up_inode ip (dinode_get (b_data (buf_at s bp))) s)) (
       kseq (brelse bp) (
       kseq (kmod (up_inode ip (\<lambda>k. k\<lparr>i_valid := 1\<rparr>)))
       (kget (\<lambda>s. kwhen (i_type (inode_at s ip) = 0) (panic ''ilock: no type'')))))))))))"

definition iunlock :: "nat option \<Rightarrow> (unit, 'a istate_scheme) kern" where
  "iunlock p = (case p of None \<Rightarrow> panic ''iunlock'' | Some ip \<Rightarrow>
     kbind (holdingsleep (SInode ip)) (\<lambda>h. kget (\<lambda>s.
     if \<not> h \<or> i_ref (inode_at s ip) < 1 then panic ''iunlock'' else
     releasesleep (SInode ip))))"

definition itrunc_direct :: "nat \<Rightarrow> nat \<Rightarrow> (unit, 'a istate_scheme) kern" where
  "itrunc_direct ip i = kget (\<lambda>s. kwhen (i_addrs (inode_at s ip) ! i \<noteq> 0) (
     kseq (bfree (i_dev (inode_at s ip)) (i_addrs (inode_at s ip) ! i))
     (kmod (up_inode ip (\<lambda>k. k\<lparr>i_addrs := (i_addrs k)[i := 0]\<rparr>)))))"

definition itrunc :: "nat \<Rightarrow> (unit, 'a istate_scheme) kern" where
  "itrunc ip =
     kseq (kfor [0..<NDIRECT] (itrunc_direct ip)) (
     kseq (kget (\<lambda>s. kwhen (i_addrs (inode_at s ip) ! NDIRECT \<noteq> 0) (
       kbind (bread (i_dev (inode_at s ip)) (i_addrs (inode_at s ip) ! NDIRECT)) (\<lambda>bp.
       kseq (kfor [0..<NINDIRECT] (\<lambda>j. kget (\<lambda>s. let a = get32 (4 * j) (b_data (buf_at s bp)) in
         kwhen (a \<noteq> 0) (bfree (i_dev (inode_at s ip)) a)))) (
       kseq (brelse bp) (
       kseq (kget (\<lambda>s. bfree (i_dev (inode_at s ip)) (i_addrs (inode_at s ip) ! NDIRECT)))
       (kmod (up_inode ip (\<lambda>k. k\<lparr>i_addrs := (i_addrs k)[NDIRECT := 0]\<rparr>))))))))) (
     kseq (kmod (up_inode ip (\<lambda>k. k\<lparr>i_size := 0\<rparr>)))
     (iupdate ip)))"

definition iput_last :: "nat \<Rightarrow> (unit, 'a istate_scheme) kern" where
  "iput_last ip =
     kseq (itrunc ip) (
     kseq (kmod (up_inode ip (\<lambda>k. k\<lparr>i_type := 0\<rparr>))) (
     kseq (iupdate ip)
     (kmod (up_inode ip (\<lambda>k. k\<lparr>i_valid := 0\<rparr>)))))"

definition iput :: "nat \<Rightarrow> (unit, 'a istate_scheme) kern" where
  "iput ip =
     kseq (acquiresleep (SInode ip)) (
     kseq (kget (\<lambda>s. kwhen (i_valid (inode_at s ip) \<noteq> 0 \<and> i_nlink (inode_at s ip) = 0) (
       kseq (acquire LIcache) (
       kget (\<lambda>s. let r = i_ref (inode_at s ip) in
       kseq (release LIcache)
       (kwhen (r = 1) (iput_last ip))))))) (
     kseq (releasesleep (SInode ip)) (
     kseq (acquire LIcache) (
     kseq (kmod (up_inode ip (\<lambda>k. k\<lparr>i_ref := i_ref k - 1\<rparr>)))
     (release LIcache)))))"

definition iunlockput :: "nat \<Rightarrow> (unit, 'a istate_scheme) kern" where
  "iunlockput ip = kseq (iunlock (Some ip)) (iput ip)"

section \<open>Inode content\<close>

definition bmap :: "nat \<Rightarrow> 32 word \<Rightarrow> (32 word, 'a istate_scheme) kern" where
  "bmap ip bn = kget (\<lambda>s.
     if unat bn < NDIRECT then
       (let addr = i_addrs (inode_at s ip) ! unat bn in
        if addr = 0 then
          kbind (balloc (i_dev (inode_at s ip))) (\<lambda>addr.
          kseq (kmod (up_inode ip (\<lambda>k. k\<lparr>i_addrs := (i_addrs k)[unat bn := addr]\<rparr>)))
          (kret addr))
        else kret addr)
     else if unat bn - NDIRECT < NINDIRECT then
       (let n = unat bn - NDIRECT; addr = i_addrs (inode_at s ip) ! NDIRECT in
        kbind (if addr = 0 then
            kbind (balloc (i_dev (inode_at s ip))) (\<lambda>addr.
            kseq (kmod (up_inode ip (\<lambda>k. k\<lparr>i_addrs := (i_addrs k)[NDIRECT := addr]\<rparr>)))
            (kret addr))
          else kret addr) (\<lambda>addr.
        kget (\<lambda>s. kbind (bread (i_dev (inode_at s ip)) addr) (\<lambda>bp.
        kbind (kget (\<lambda>s. let addr = get32 (4 * n) (b_data (buf_at s bp)) in
          if addr = 0 then
            kbind (balloc (i_dev (inode_at s ip))) (\<lambda>addr.
            kseq (kmod (\<lambda>s. set_data bp (put32 (4 * n) addr (b_data (buf_at s bp))) s)) (
            kseq (log_write bp)
            (kret addr)))
          else kret addr)) (\<lambda>addr.
        kseq (brelse bp)
        (kret addr))))))
     else panic ''bmap: out of range'')"

record stat =
  st_type :: "16 word"
  st_dev :: "32 word"
  st_ino :: "32 word"
  st_nlink :: "16 word"
  st_size :: "32 word"

definition stati :: "nat \<Rightarrow> 'a istate_scheme \<Rightarrow> stat" where
  "stati ip s = \<lparr>st_type = i_type (inode_at s ip), st_dev = i_dev (inode_at s ip), st_ino = i_inum (inode_at s ip),
     st_nlink = i_nlink (inode_at s ip), st_size = i_size (inode_at s ip)\<rparr>"

section \<open>Inodes on the disk\<close>

lemma dinode_off_less: "dinode_off n + sizeof_dinode \<le> BSIZE"
proof -
  have "unat (n mod (8 :: 32 word)) < 8" by (simp add: unat_mod)
  then show ?thesis by (simp add: dinode_off_def sizeof_dinode_def IPB_def BSIZE_def)
qed

lemma dinode_off_apart:
  assumes "n mod of_nat IPB \<noteq> m mod of_nat IPB"
  shows "dinode_off n + sizeof_dinode \<le> dinode_off m \<or> dinode_off m + sizeof_dinode \<le> dinode_off n"
proof -
  have "unat (n mod of_nat IPB) \<noteq> unat (m mod of_nat IPB)" using assms word_unat_eqI by blast
  then show ?thesis unfolding dinode_off_def sizeof_dinode_def by linarith
qed

definition put_addrs_upto :: "nat \<Rightarrow> nat \<Rightarrow> 32 word list \<Rightarrow> 8 word list \<Rightarrow> 8 word list" where
  "put_addrs_upto n a ws xs = fold (\<lambda>k. put32 (a + 4 * k) (ws ! k)) [0..<n] xs"

lemma put_addrs_upto_simps:
  "put_addrs_upto 0 a ws xs = xs" "put_addrs_upto (Suc n) a ws xs = put32 (a + 4 * n) (ws ! n) (put_addrs_upto n a ws xs)"
  by (simp_all add: put_addrs_upto_def)

lemma put_addrs_upto_get:
  assumes "a + 4 * n \<le> length xs"
  shows "length (put_addrs_upto n a ws xs) = length xs \<and> (\<forall>k<n. get32 (a + 4 * k) (put_addrs_upto n a ws xs) = ws ! k) \<and>
    (\<forall>i. i < a \<or> a + 4 * n \<le> i \<longrightarrow> put_addrs_upto n a ws xs ! i = xs ! i)"
  using assms
proof (induction n)
  case (Suc n)
  then have IH: "length (put_addrs_upto n a ws xs) = length xs"
      "\<And>k. k < n \<Longrightarrow> get32 (a + 4 * k) (put_addrs_upto n a ws xs) = ws ! k"
      "\<And>i. i < a \<or> a + 4 * n \<le> i \<Longrightarrow> put_addrs_upto n a ws xs ! i = xs ! i"
    and room: "a + 4 * n + 4 \<le> length xs"
    by auto
  have "get32 (a + 4 * k) (put32 (a + 4 * n) (ws ! n) (put_addrs_upto n a ws xs)) = ws ! k" if "k < Suc n" for k
    using that IH(1,2) room by (cases "k = n") (simp_all add: get32_put32_other)
  moreover have "put32 (a + 4 * n) (ws ! n) (put_addrs_upto n a ws xs) ! i = xs ! i" if "i < a \<or> a + 4 * Suc n \<le> i" for i
  proof -
    have "i < a \<or> a + 4 * n \<le> i" and "\<not> (a + 4 * n \<le> i \<and> i < a + 4 * n + 4)" using that by auto
    then show ?thesis using IH(1) IH(3) [of i] room by (auto simp: nth_put32)
  qed
  ultimately show ?case using IH(1) by (simp add: put_addrs_upto_simps)
qed (simp add: put_addrs_upto_simps)

lemma get_put_addrs:
  assumes "a + 52 \<le> length xs" and "length ws = NDIRECT + 1"
  shows "length (put_addrs a ws xs) = length xs" and "get_addrs a (put_addrs a ws xs) = ws"
    and "\<And>i. i < a \<or> a + 52 \<le> i \<Longrightarrow> put_addrs a ws xs ! i = xs ! i"
proof -
  have eq: "put_addrs a ws xs = put_addrs_upto 13 a ws xs" by (simp add: put_addrs_def put_addrs_upto_def NDIRECT_def)
  note upto = put_addrs_upto_get [of a 13 xs ws]
  show "length (put_addrs a ws xs) = length xs" using upto assms by (simp add: eq)
  show "get_addrs a (put_addrs a ws xs) = ws"
    using upto assms by (intro nth_equalityI) (simp_all add: eq get_addrs_def NDIRECT_def del: upt.simps upt_Suc)
  show "put_addrs a ws xs ! i = xs ! i" if "i < a \<or> a + 52 \<le> i" for i
    using upto assms(1) that by (auto simp: eq)
qed

lemma get_put_addrs_other:
  assumes "a + 52 \<le> length xs" and "length ws = NDIRECT + 1"
  shows "b + 2 \<le> a \<Longrightarrow> get16 b (put_addrs a ws xs) = get16 b xs" and "b + 4 \<le> a \<Longrightarrow> get32 b (put_addrs a ws xs) = get32 b xs"
  by (auto intro!: get16_cong get32_cong get_put_addrs(3) [OF assms])

lemma dinode_put_frame:
  assumes "length xs = BSIZE" and "length (i_addrs k) = NDIRECT + 1"
  shows "length (dinode_put k xs) = BSIZE"
    and "\<And>i. i < dinode_off (i_inum k) \<or> dinode_off (i_inum k) + sizeof_dinode \<le> i \<Longrightarrow> dinode_put k xs ! i = xs ! i"
  using assms dinode_off_less [of "i_inum k"]
  by (auto simp: dinode_put_def Let_def get_put_addrs sizeof_dinode_def nth_put16 nth_put32)

text \<open>C14: What \<^verbatim>\<open>iupdate\<close> puts into an inode block is what \<^verbatim>\<open>ilock\<close> takes out of it, every field of it, and the other
  inodes of the block keep all their bytes.\<close>

theorem dinode_roundtrip:
  assumes "length xs = BSIZE" and "length (i_addrs k) = NDIRECT + 1" and "i_inum k' = i_inum k"
  shows "dinode_get (dinode_put k xs) k' = k'\<lparr>i_type := i_type k, i_major := i_major k, i_minor := i_minor k,
      i_nlink := i_nlink k, i_size := i_size k, i_addrs := i_addrs k\<rparr> \<and>
    (\<forall>n. n mod of_nat IPB \<noteq> i_inum k mod of_nat IPB \<longrightarrow>
      slice (dinode_off n) sizeof_dinode (dinode_put k xs) = slice (dinode_off n) sizeof_dinode xs)"
proof (intro conjI allI impI)
  show "dinode_get (dinode_put k xs) k' = k'\<lparr>i_type := i_type k, i_major := i_major k, i_minor := i_minor k,
      i_nlink := i_nlink k, i_size := i_size k, i_addrs := i_addrs k\<rparr>"
    using assms dinode_off_less [of "i_inum k"]
    by (simp add: dinode_put_def dinode_get_def Let_def get_put_addrs get_put_addrs_other sizeof_dinode_def
        get16_put16_other get16_put32_other get32_put16_other)
next
  fix n :: "32 word"
  assume n: "n mod of_nat IPB \<noteq> i_inum k mod of_nat IPB"
  show "slice (dinode_off n) sizeof_dinode (dinode_put k xs) = slice (dinode_off n) sizeof_dinode xs"
    using dinode_off_apart [OF n] dinode_off_less [of n] assms(1) dinode_put_frame [OF assms(1,2)]
    by (intro nth_equalityI) (auto simp: nth_slice)
qed

definition sample_inode :: inode where
  "sample_inode = \<lparr>i_dev = 1, i_inum = 11, i_ref = 1, i_valid = 1, i_type = T_FILE, i_major = 0, i_minor = 0, i_nlink = 2,
     i_size = 700, i_addrs = [60, 61] @ replicate 11 0\<rparr>"

theorem dinode_roundtrip_witness:
  "dinode_get (dinode_put sample_inode (replicate BSIZE 7)) (sample_inode\<lparr>i_size := 0, i_addrs := [], i_valid := 0\<rparr>) =
     sample_inode\<lparr>i_valid := 0\<rparr> \<and>
   slice (dinode_off 2) sizeof_dinode (dinode_put sample_inode (replicate BSIZE 7)) =
     slice (dinode_off 2) sizeof_dinode (replicate BSIZE 7)"
  using dinode_roundtrip [of "replicate BSIZE 7" sample_inode "sample_inode\<lparr>i_size := 0, i_addrs := [], i_valid := 0\<rparr>"]
  by (auto simp: sample_inode_def NDIRECT_def IPB_def BSIZE_def sizeof_dinode_def)

section \<open>The cache and \<^verbatim>\<open>iget\<close>\<close>

text \<open>Reference counts are not negative, and an inode has at most one slot that is in use.\<close>

definition caches :: "32 word \<Rightarrow> 32 word \<Rightarrow> inode \<Rightarrow> bool" where
  "caches dev inum k \<longleftrightarrow> i_ref k > 0 \<and> i_dev k = dev \<and> i_inum k = inum"

definition icache_ok :: "inode list \<Rightarrow> bool" where
  "icache_ok ks \<longleftrightarrow> length ks = NINODE \<and> (\<forall>i<NINODE. 0 \<le> i_ref (ks ! i)) \<and>
     (\<forall>i j dev inum. i < NINODE \<longrightarrow> j < NINODE \<longrightarrow> caches dev inum (ks ! i) \<longrightarrow> caches dev inum (ks ! j) \<longrightarrow> i = j)"

text \<open>The two ways to get a slot: one more reference, or a fresh one.\<close>

definition referenced :: "inode \<Rightarrow> inode" where
  "referenced k = k\<lparr>i_ref := i_ref k + 1\<rparr>"

definition recycled :: "32 word \<Rightarrow> 32 word \<Rightarrow> inode \<Rightarrow> inode" where
  "recycled dev inum k = k\<lparr>i_dev := dev, i_inum := inum, i_ref := 1, i_valid := 0\<rparr>"

lemma icache_ok_referenced:
  assumes "icache_ok ks" and "ip < NINODE" and "caches dev inum (ks ! ip)"
  shows "icache_ok (ks[ip := referenced (ks ! ip)])"
proof -
  let ?ks = "ks[ip := referenced (ks ! ip)]"
  have len: "length ks = NINODE" using assms(1) by (simp add: icache_ok_def)
  have "caches d n (?ks ! i) \<longleftrightarrow> caches d n (ks ! i)" "0 \<le> i_ref (?ks ! i)" if "i < NINODE" for i d n
    using that assms len by (auto simp: nth_list_update caches_def referenced_def icache_ok_def)
  then show ?thesis using assms(1) unfolding icache_ok_def by simp
qed

lemma icache_ok_recycled:
  assumes "icache_ok ks" and "ip < NINODE" and "\<forall>i<NINODE. \<not> caches dev inum (ks ! i)"
  shows "icache_ok (ks[ip := recycled dev inum (ks ! ip)])"
proof -
  let ?ks = "ks[ip := recycled dev inum (ks ! ip)]"
  have len: "length ks = NINODE" using assms(1) by (simp add: icache_ok_def)
  have "caches d n (?ks ! i) \<longleftrightarrow> (if i = ip then d = dev \<and> n = inum else caches d n (ks ! i))" if "i < NINODE" for i d n
    using that assms(2) len by (auto simp: nth_list_update caches_def recycled_def)
  moreover have "0 \<le> i_ref (?ks ! i)" if "i < NINODE" for i
    using that assms(1) len by (cases "i = ip") (auto simp: recycled_def icache_ok_def)
  ultimately show ?thesis using assms unfolding icache_ok_def by (auto split: if_splits)
qed

lemma section_inode [simp]:
  "ic_inode (acquired l s) = ic_inode s" "ic_inode (released l s) = ic_inode s"
  by (simp_all add: acquired_def released_def up_lock_def pushed_def popped_def up_cpu_def)

lemma up_inode_machine [simp]:
  "m_cpus (up_inode ip f s) = m_cpus s" "m_lapicid (up_inode ip f s) = m_lapicid s" "m_if (up_inode ip f s) = m_if s"
  "m_locks (up_inode ip f s) = m_locks s" "ic_inode (up_inode ip f s) = (ic_inode s)[ip := f (inode_at s ip)]"
  by (simp_all add: up_inode_def)

text \<open>A slot changed under the lock of the cache.\<close>

lemma under_icache:
  assumes "cpu_ok s" and "lk_locked (m_locks s LIcache) = 0"
  obtains s' where "kseq (kmod (up_inode ip f)) (kseq (release LIcache) (kret ip)) (acquired LIcache s) rs = Ret ip s' rs"
    and "ic_inode s' = (ic_inode s)[ip := f (inode_at s ip)]" and "same_locks s s'"
proof -
  let ?u = "up_inode ip f (acquired LIcache s)"
  note same = machine_cong [of ?u "acquired LIcache s", OF up_inode_machine(1-4)]
  have "release LIcache ?u rs = Ret () (released LIcache ?u) rs"
    using assms same by (intro release_run) (simp_all add: cpu_ok_def)
  moreover have "same_locks s (released LIcache ?u)"
    by (rule same_locks_section [OF assms]) simp_all
  ultimately show ?thesis using that [of "released LIcache ?u"] by simp
qed

text \<open>C38: \<^verbatim>\<open>iget\<close> keeps one slot of the inode cache per inode. If the inode is cached it returns that slot with one
  reference more; if not, it takes a slot without references, which then stands for the inode with one reference and
  with its content still to be read; if there is none it panics. No other slot changes, and the lock is given back.\<close>

theorem iget_one_slot_per_inode:
  assumes "cpu_ok s" and "lk_locked (m_locks s LIcache) = 0" and "icache_ok (ic_inode s)"
  shows "if (\<forall>i<NINODE. \<not> caches dev inum (inode_at s i)) \<and> (\<forall>i<NINODE. i_ref (inode_at s i) \<noteq> 0)
    then \<exists>s'. iget dev inum s rs = Panic ''iget: no inodes'' s'
    else \<exists>ip s'. iget dev inum s rs = Ret ip s' rs \<and> ip < NINODE \<and> caches dev inum (inode_at s' ip) \<and>
      icache_ok (ic_inode s') \<and> same_locks s s' \<and> (\<forall>j. j \<noteq> ip \<longrightarrow> inode_at s' j = inode_at s j) \<and>
      (if \<exists>i<NINODE. caches dev inum (inode_at s i)
       then caches dev inum (inode_at s ip) \<and> inode_at s' ip = (inode_at s ip)\<lparr>i_ref := i_ref (inode_at s ip) + 1\<rparr>
       else i_ref (inode_at s ip) = 0 \<and>
         inode_at s' ip = (inode_at s ip)\<lparr>i_dev := dev, i_inum := inum, i_ref := 1, i_valid := 0\<rparr>)"
proof -
  let ?hit = "List.find (\<lambda>ip. caches dev inum (inode_at s ip)) [0..<NINODE]"
  let ?free = "List.find (\<lambda>ip. i_ref (inode_at s ip) = 0) [0..<NINODE]"
  have len: "length (ic_inode s) = NINODE" using assms(3) by (simp add: icache_ok_def)
  have run: "iget dev inum s rs = (case ?hit of
      Some ip \<Rightarrow> kseq (kmod (up_inode ip referenced)) (kseq (release LIcache) (kret ip)) (acquired LIcache s) rs
    | None \<Rightarrow> (case ?free of
        None \<Rightarrow> Panic ''iget: no inodes'' (acquired LIcache s)
      | Some ip \<Rightarrow> kseq (kmod (up_inode ip (recycled dev inum))) (kseq (release LIcache) (kret ip)) (acquired LIcache s) rs))"
    using assms(1,2) by (simp add: iget_def acquire_run caches_def referenced_def [abs_def] recycled_def [abs_def] split: option.split)
  show ?thesis
  proof (cases ?hit)
    case (Some ip)
    then have ip: "ip < NINODE" "caches dev inum (inode_at s ip)" by (auto simp: find_Some_iff)
    obtain s' where "iget dev inum s rs = Ret ip s' rs" "ic_inode s' = (ic_inode s)[ip := referenced (inode_at s ip)]" "same_locks s s'"
      using under_icache [OF assms(1,2), of ip referenced rs] run Some by auto
    then show ?thesis
      using ip len icache_ok_referenced [OF assms(3) ip] by (auto simp: caches_def referenced_def)
  next
    case None
    then have no: "\<forall>i<NINODE. \<not> caches dev inum (inode_at s i)" by (auto simp: find_None_iff)
    show ?thesis
    proof (cases ?free)
      case none: None
      then have "\<forall>i<NINODE. i_ref (inode_at s i) \<noteq> 0" by (auto simp: find_None_iff)
      then show ?thesis using run None none no by simp
    next
      case (Some ip)
      then have ip: "ip < NINODE" "i_ref (inode_at s ip) = 0" by (auto simp: find_Some_iff)
      obtain s' where "iget dev inum s rs = Ret ip s' rs"
          "ic_inode s' = (ic_inode s)[ip := recycled dev inum (inode_at s ip)]" "same_locks s s'"
        using under_icache [OF assms(1,2), of ip "recycled dev inum" rs] run None Some by auto
      then show ?thesis
        using ip len no icache_ok_recycled [OF assms(3) ip(1) no] by (auto simp: caches_def recycled_def)
    qed
  qed
qed

text \<open>An empty cache, and one in which the inode 11 has a slot.\<close>

definition small_is :: istate where
  "small_is = lstate.extend small_ls
     \<lparr>fs_sb = \<lparr>sb_size = 1000, sb_nblocks = 941, sb_ninodes = 200, sb_nlog = 30, sb_logstart = 2, sb_inodestart = 32, sb_bmapstart = 58\<rparr>,
      ic_inode = replicate NINODE (sample_inode\<lparr>i_ref := 0, i_valid := 0\<rparr>)\<rparr>"

lemma small_is_ok:
  "cpu_ok small_is" "lk_locked (m_locks small_is LIcache) = 0" "icache_ok (ic_inode small_is)" "i_ref (inode_at small_is 0) = 0"
proof -
  have m: "m_cpus small_is = m_cpus small_ls" "m_lapicid small_is = m_lapicid small_ls" "m_if small_is = m_if small_ls"
      "m_locks small_is = m_locks small_ls" "ic_inode small_is = replicate NINODE (sample_inode\<lparr>i_ref := 0, i_valid := 0\<rparr>)"
    by (simp_all add: small_is_def lstate.defs)
  have "cpu_ok small_bs" "lk_locked (m_locks small_bs LIcache) = 0"
    using small_bs_ok(2) by (simp_all add: io_ok_def quiescent_def)
  then show "cpu_ok small_is" "lk_locked (m_locks small_is LIcache) = 0"
    using machine_cong(4) [of small_is small_bs] m(1-4) by (simp_all add: small_ls_fields)
  show "icache_ok (ic_inode small_is)" "i_ref (inode_at small_is 0) = 0"
    by (simp_all add: m(5) icache_ok_def caches_def NINODE_def)
qed

theorem iget_one_slot_per_inode_witness:
  "\<exists>ip s1 s2. iget 1 11 small_is [] = Ret ip s1 [] \<and> i_ref (inode_at s1 ip) = 1 \<and>
     iget 1 11 s1 [] = Ret ip s2 [] \<and> i_ref (inode_at s2 ip) = 2"
proof -
  have no: "\<not> (\<exists>i<NINODE. caches 1 11 (inode_at small_is i))"
    by (auto simp: small_is_def lstate.defs caches_def)
  have room: "\<not> ((\<forall>i<NINODE. \<not> caches 1 11 (inode_at small_is i)) \<and> (\<forall>i<NINODE. i_ref (inode_at small_is i) \<noteq> 0))"
    using small_is_ok(4) by (auto simp: NINODE_def)
  obtain ip s1 where 1: "iget 1 11 small_is [] = Ret ip s1 []" "ip < NINODE" "caches 1 11 (inode_at s1 ip)"
      "icache_ok (ic_inode s1)" "same_locks small_is s1" "i_ref (inode_at s1 ip) = 1"
    using iget_one_slot_per_inode [OF small_is_ok(1-3), of 1 11 "[]", unfolded if_not_P [OF room] if_not_P [OF no]] by auto
  have ok: "cpu_ok s1" "lk_locked (m_locks s1 LIcache) = 0"
    using same_locks_ok [OF 1(5) small_is_ok(1)] 1(5) small_is_ok(2) by (auto simp: same_locks_def)
  have hit: "\<exists>i<NINODE. caches 1 11 (inode_at s1 i)"
    and room1: "\<not> ((\<forall>i<NINODE. \<not> caches 1 11 (inode_at s1 i)) \<and> (\<forall>i<NINODE. i_ref (inode_at s1 i) \<noteq> 0))"
    using 1(2,3) by auto
  obtain jp s2 where 2: "iget 1 11 s1 [] = Ret jp s2 []" "jp < NINODE" "caches 1 11 (inode_at s1 jp)"
      "i_ref (inode_at s2 jp) = i_ref (inode_at s1 jp) + 1"
    using iget_one_slot_per_inode [OF ok 1(4), of 1 11 "[]", unfolded if_not_P [OF room1] if_P [OF hit]] by auto
  have "jp = ip" using 1(2-4) 2(2,3) unfolding icache_ok_def by blast
  then show ?thesis using 1(1,6) 2(1,4) by auto
qed

end
