(* ===== verification/Tty.thy ===== *)
theory Tty
  imports Inode
begin

text \<open>
  Console input and the device switch: the line editor of \<^verbatim>\<open>consoleintr\<close>, and \<^verbatim>\<open>consoleread\<close> and
  \<^verbatim>\<open>consolewrite\<close>, the device behind inodes of type \<^verbatim>\<open>T_DEV\<close>. A caller's buffer is a sink, which is given
  the bytes for an offset, or a source, which is asked for the bytes at an offset: \<^verbatim>\<open>vstore\<close> and \<^verbatim>\<open>vload\<close> for a
  buffer in the memory of the process.
\<close>

definition INPUT_BUF :: nat where "INPUT_BUF = 128"
definition CONSOLE :: nat where "CONSOLE = 1"

record tstate = istate +
  in_buf :: "8 word list"
  in_r :: "32 word"
  in_w :: "32 word"
  in_e :: "32 word"
  devsw :: "bool list"

type_synonym 's sink = "nat \<Rightarrow> 8 word list \<Rightarrow> (unit, 's) kern"
type_synonym 's source = "nat \<Rightarrow> nat \<Rightarrow> (8 word list, 's) kern"

section \<open>Memory of the process\<close>

text \<open>
  The processor translates an address through the page directory in \<^verbatim>\<open>cr3\<close>; a fault in the kernel ends in the
  default case of \<^verbatim>\<open>trap\<close>, which panics. All user pages are mapped writable.
\<close>

definition vload8 :: "addr \<Rightarrow> (8 word, 'a vmstate_scheme) kern" where
  "vload8 va = kget (\<lambda>s. case translate (m_mem s) (vm_cr3 s + KERNBASE) va of
     None \<Rightarrow> panic ''trap'' | Some a \<Rightarrow> kret (m_mem s a))"

definition vstore8 :: "addr \<Rightarrow> 8 word \<Rightarrow> (unit, 'a vmstate_scheme) kern" where
  "vstore8 va x = kget (\<lambda>s. case translate (m_mem s) (vm_cr3 s + KERNBASE) va of
     None \<Rightarrow> panic ''trap'' | Some a \<Rightarrow> kmod (\<lambda>s. s\<lparr>m_mem := (m_mem s)(a := x)\<rparr>))"

primrec vload :: "addr \<Rightarrow> nat \<Rightarrow> (8 word list, 'a vmstate_scheme) kern" where
  "vload va 0 = kret []"
| "vload va (Suc n) = kbind (vload va n) (\<lambda>xs. kbind (vload8 (va + of_nat n)) (\<lambda>x. kret (xs @ [x])))"

definition vstore :: "addr \<Rightarrow> 8 word list \<Rightarrow> (unit, 'a vmstate_scheme) kern" where
  "vstore va xs = kfor [0..<length xs] (\<lambda>i. vstore8 (va + of_nat i) (xs ! i))"

definition user_sink :: "addr \<Rightarrow> 'a vmstate_scheme sink" where
  "user_sink va i xs = vstore (va + of_nat i) xs"

definition user_source :: "addr \<Rightarrow> 'a vmstate_scheme source" where
  "user_source va i n = vload (va + of_nat i) n"

definition local_sink :: "'s sink" where
  "local_sink i xs = kret ()"

definition local_source :: "8 word list \<Rightarrow> 's source" where
  "local_source xs i n = kret (slice i n xs)"

section \<open>Input\<close>

definition Ctl :: "int \<Rightarrow> int" where
  "Ctl x = x - 64"

primrec kill_line :: "nat \<Rightarrow> (unit, 'a tstate_scheme) kern" where
  "kill_line 0 = kret ()"
| "kill_line (Suc k) = kget (\<lambda>s.
     if in_e s \<noteq> in_w s \<and> in_buf s ! (unat (in_e s - 1) mod INPUT_BUF) \<noteq> 10 then
       kseq (kmod (\<lambda>s. s\<lparr>in_e := in_e s - 1\<rparr>)) (
       kseq (consputc BACKSPACE)
       (kill_line k))
     else kret ())"

definition input_char :: "int \<Rightarrow> (unit, 'a tstate_scheme) kern" where
  "input_char c = kget (\<lambda>s.
     if c = Ctl 85 then kill_line (unat (in_e s - in_w s))
     else if c = Ctl 72 \<or> c = 127 then
       kwhen (in_e s \<noteq> in_w s) (
         kseq (kmod (\<lambda>s. s\<lparr>in_e := in_e s - 1\<rparr>))
         (consputc BACKSPACE))
     else kwhen (c \<noteq> 0 \<and> in_e s - in_r s < of_nat INPUT_BUF) (
       let c = (if c = 13 then 10 else c) in
       kseq (kmod (\<lambda>s. s\<lparr>in_buf := (in_buf s)[unat (in_e s) mod INPUT_BUF := word_of_int c], in_e := in_e s + 1\<rparr>)) (
       kseq (consputc c)
       (kget (\<lambda>s. kwhen (c = 10 \<or> c = Ctl 68 \<or> in_e s = in_r s + of_nat INPUT_BUF) (
         kseq (kmod (\<lambda>s. s\<lparr>in_w := in_e s\<rparr>))
         (wakeup (Some ChInput))))))))"

text \<open>The argument holds what the calls of \<^verbatim>\<open>getc\<close> return before the first negative result.\<close>

definition consoleintr :: "int list \<Rightarrow> (unit, 'a tstate_scheme) kern" where
  "consoleintr cs =
     kseq (acquire LCons) (
     kseq (kfor cs (\<lambda>c. kwhen (c \<noteq> Ctl 80) (input_char c))) (
     kseq (release LCons)
     (kwhen (Ctl 80 \<in> set cs) procdump)))"

definition killed :: "(bool, 'a pstate_scheme) kern" where
  "killed = kbind myproc (\<lambda>p. kbind (kptr p) (\<lambda>i. kget (\<lambda>s. kret (p_killed (proc_at s i) \<noteq> 0))))"

definition consoleread_wait :: "(bool, 'a tstate_scheme) kern" where
  "consoleread_wait = kforever (kget (\<lambda>s.
     if in_r s \<noteq> in_w s then kret (Some True)
     else kbind killed (\<lambda>k. if k then kret (Some False)
       else kseq (sleep (Some ChInput) (Some LCons)) (kret None))))"

text \<open>The rounds of the reading loop with \<open>n\<close> bytes still to read of \<open>target\<close>; \<open>None\<close> when the process was killed.\<close>

primrec consoleread_loop :: "'a tstate_scheme sink \<Rightarrow> nat \<Rightarrow> nat \<Rightarrow> (nat option, 'a tstate_scheme) kern" where
  "consoleread_loop put target 0 = kret (Some 0)"
| "consoleread_loop put target (Suc n) =
     kbind consoleread_wait (\<lambda>ready. if \<not> ready then kret None else
     kget (\<lambda>s. let c = in_buf s ! (unat (in_r s) mod INPUT_BUF) in
     kseq (kmod (\<lambda>s. s\<lparr>in_r := in_r s + 1\<rparr>)) (
     if uint c = Ctl 68 then
       kseq (kwhen (Suc n < target) (kmod (\<lambda>s. s\<lparr>in_r := in_r s - 1\<rparr>)))
       (kret (Some (Suc n)))
     else
       kseq (put (target - Suc n) [c])
       (if c = 10 then kret (Some n) else consoleread_loop put target n))))"

definition consoleread :: "nat \<Rightarrow> 'a tstate_scheme sink \<Rightarrow> int \<Rightarrow> (int, 'a tstate_scheme) kern" where
  "consoleread ip put n =
     kseq (iunlock (Some ip)) (
     kseq (acquire LCons) (
     kbind (consoleread_loop put (nat n) (nat n)) (\<lambda>r.
     kseq (release LCons) (
     kseq (ilock (Some ip))
     (kret (case r of None \<Rightarrow> -1 | Some k \<Rightarrow> int (nat n) - int k))))))"

definition consolewrite :: "nat \<Rightarrow> 'a tstate_scheme source \<Rightarrow> int \<Rightarrow> (int, 'a tstate_scheme) kern" where
  "consolewrite ip get n =
     kseq (iunlock (Some ip)) (
     kseq (acquire LCons) (
     kseq (kfor [0..<nat n] (\<lambda>i. kbind (get i 1) (\<lambda>xs. consputc (uint (xs ! 0))))) (
     kseq (release LCons) (
     kseq (ilock (Some ip))
     (kret n)))))"

definition consoleinit :: "(unit, 'a tstate_scheme) kern" where
  "consoleinit =
     kseq (initlock LCons ''console'')
     (kmod (\<lambda>s. s\<lparr>devsw := (devsw s)[CONSOLE := True], con_locking := 1\<rparr>))"

end
