(* ===== verification/Fs.thy ===== *)
theory Fs
  imports Tty
begin

text \<open>
  Files, directories and paths, the upper half of \<^verbatim>\<open>fs.c\<close>. A directory entry is sixteen bytes, an inode number and
  a name of at most \<^verbatim>\<open>DIRSIZ\<close> characters, padded with zeros; reading a name past the end of its list gives the zero
  that ends a C string. A path is the list of its characters before the zero.
\<close>

section \<open>File contents\<close>

function readi_loop :: "nat \<Rightarrow> 'a tstate_scheme sink \<Rightarrow> nat \<Rightarrow> nat \<Rightarrow> nat \<Rightarrow> (8 word list, 'a tstate_scheme) kern" where
  "readi_loop ip put off tot n =
     (if tot < n then
       (let m = min (n - tot) (BSIZE - off mod BSIZE) in
       kget (\<lambda>s. kbind (bmap ip (of_nat (off div BSIZE))) (\<lambda>addr.
       kbind (bread (i_dev (inode_at s ip)) addr) (\<lambda>bp.
       kget (\<lambda>s. let xs = slice (off mod BSIZE) m (b_data (buf_at s bp)) in
       kseq (put tot xs) (
       kseq (brelse bp) (
       kbind (readi_loop ip put (off + m) (tot + m) n) (\<lambda>ys.
       kret (xs @ ys)))))))))
     else kret [])"
  by pat_completeness auto

lemma chunk_less: "tot < n \<Longrightarrow> n - (tot + min (n - tot) (BSIZE - off mod BSIZE)) < n - tot"
proof -
  assume "tot < n"
  moreover have "0 < BSIZE - off mod BSIZE" by (simp add: BSIZE_def)
  ultimately show ?thesis by linarith
qed

termination readi_loop
  by (relation "measure (\<lambda>(ip, put, off, tot, n). n - tot)") (simp_all add: chunk_less)

declare readi_loop.simps [simp del]

definition no_device :: "(inode \<Rightarrow> 'a tstate_scheme \<Rightarrow> bool)" where
  "no_device k s \<longleftrightarrow> sint (i_major k) < 0 \<or> sint (i_major k) \<ge> NDEV \<or> \<not> devsw s ! unat (i_major k)"

text \<open>The result is the count that the code returns and the bytes that it copied from the file.\<close>

definition readi :: "nat \<Rightarrow> 'a tstate_scheme sink \<Rightarrow> 32 word \<Rightarrow> 32 word \<Rightarrow> (int \<times> 8 word list, 'a tstate_scheme) kern" where
  "readi ip put off n = kget (\<lambda>s. let k = inode_at s ip in
     if i_type k = T_DEV then
       (if no_device k s then kret (-1, [])
        else kbind (consoleread ip put (sint n)) (\<lambda>r. kret (r, [])))
     else if off > i_size k \<or> off + n < off then kret (-1, [])
     else let n = (if off + n > i_size k then i_size k - off else n) in
       kbind (readi_loop ip put (unat off) 0 (unat n)) (\<lambda>xs.
       kret (sint n, xs)))"

function writei_loop :: "nat \<Rightarrow> 'a tstate_scheme source \<Rightarrow> nat \<Rightarrow> nat \<Rightarrow> nat \<Rightarrow> (nat, 'a tstate_scheme) kern" where
  "writei_loop ip get off tot n =
     (if tot < n then
       (let m = min (n - tot) (BSIZE - off mod BSIZE) in
       kget (\<lambda>s. kbind (bmap ip (of_nat (off div BSIZE))) (\<lambda>addr.
       kbind (bread (i_dev (inode_at s ip)) addr) (\<lambda>bp.
       kbind (get tot m) (\<lambda>xs.
       kseq (kmod (\<lambda>s. set_data bp (splice (off mod BSIZE) xs (b_data (buf_at s bp))) s)) (
       kseq (log_write bp) (
       kseq (brelse bp)
       (writei_loop ip get (off + m) (tot + m) n))))))))
     else kret off)"
  by pat_completeness auto

termination writei_loop
  by (relation "measure (\<lambda>(ip, get, off, tot, n). n - tot)") (simp_all add: chunk_less)

declare writei_loop.simps [simp del]

definition writei :: "nat \<Rightarrow> 'a tstate_scheme source \<Rightarrow> 32 word \<Rightarrow> 32 word \<Rightarrow> (int, 'a tstate_scheme) kern" where
  "writei ip get off n = kget (\<lambda>s. let k = inode_at s ip in
     if i_type k = T_DEV then
       (if no_device k s then kret (-1) else consolewrite ip get (sint n))
     else if off > i_size k \<or> off + n < off then kret (-1)
     else if off + n > of_nat (MAXFILE * BSIZE) then kret (-1)
     else
       kbind (writei_loop ip get (unat off) 0 (unat n)) (\<lambda>off.
       kseq (kget (\<lambda>s. kwhen (n > 0 \<and> of_nat off > i_size (inode_at s ip)) (
         kseq (kmod (up_inode ip (\<lambda>k. k\<lparr>i_size := of_nat off\<rparr>)))
         (iupdate ip))))
       (kret (sint n))))"

section \<open>Directories\<close>

definition sizeof_dirent :: nat where "sizeof_dirent = 16"

definition name_at :: "8 word list \<Rightarrow> nat \<Rightarrow> 8 word" where
  "name_at xs i = (if i < length xs then xs ! i else 0)"

primrec namecmp_loop :: "nat \<Rightarrow> nat \<Rightarrow> 8 word list \<Rightarrow> 8 word list \<Rightarrow> int" where
  "namecmp_loop 0 i p q = 0"
| "namecmp_loop (Suc n) i p q =
     (if name_at p i \<noteq> 0 \<and> name_at p i = name_at q i then namecmp_loop n (Suc i) p q
      else uint (name_at p i) - uint (name_at q i))"

definition namecmp :: "8 word list \<Rightarrow> 8 word list \<Rightarrow> int" where
  "namecmp p q = namecmp_loop DIRSIZ 0 p q"

definition padded :: "8 word list \<Rightarrow> 8 word list" where
  "padded name = (let k = takeWhile (\<lambda>c. c \<noteq> 0) (take DIRSIZ name) in k @ replicate (DIRSIZ - length k) 0)"

definition dirent :: "8 word list \<Rightarrow> 32 word \<Rightarrow> 8 word list" where
  "dirent name inum = put16 0 (ucast inum) (replicate 2 0) @ padded name"

abbreviation de_inum :: "8 word list \<Rightarrow> 16 word" where "de_inum de \<equiv> get16 0 de"
abbreviation de_name :: "8 word list \<Rightarrow> 8 word list" where "de_name de \<equiv> drop 2 de"

text \<open>The directory is locked, so its size, read once, does not change under the loops.\<close>

function dirlookup_loop :: "nat \<Rightarrow> 8 word list \<Rightarrow> nat \<Rightarrow> nat \<Rightarrow> ((nat \<times> 32 word) option, 'a tstate_scheme) kern" where
  "dirlookup_loop dp name sz off =
     (if off < sz then
       kbind (readi dp local_sink (of_nat off) (of_nat sizeof_dirent)) (\<lambda>(r, de).
       if r \<noteq> int sizeof_dirent then panic ''dirlookup read''
       else if de_inum de = 0 then dirlookup_loop dp name sz (off + 16)
       else if namecmp name (de_name de) = 0 then
         kget (\<lambda>s. kbind (iget (i_dev (inode_at s dp)) (ucast (de_inum de))) (\<lambda>ip.
         kret (Some (ip, of_nat off))))
       else dirlookup_loop dp name sz (off + 16))
     else kret None)"
  by pat_completeness auto

termination dirlookup_loop
  by (relation "measure (\<lambda>(dp, name, sz, off). sz - off)") auto

declare dirlookup_loop.simps [simp del]

definition dirlookup :: "nat \<Rightarrow> 8 word list \<Rightarrow> ((nat \<times> 32 word) option, 'a tstate_scheme) kern" where
  "dirlookup dp name = kget (\<lambda>s.
     if i_type (inode_at s dp) \<noteq> T_DIR then panic ''dirlookup not DIR''
     else dirlookup_loop dp name (unat (i_size (inode_at s dp))) 0)"

function dirlink_free :: "nat \<Rightarrow> nat \<Rightarrow> nat \<Rightarrow> (nat, 'a tstate_scheme) kern" where
  "dirlink_free dp sz off =
     (if off < sz then
       kbind (readi dp local_sink (of_nat off) (of_nat sizeof_dirent)) (\<lambda>(r, de).
       if r \<noteq> int sizeof_dirent then panic ''dirlink read''
       else if de_inum de = 0 then kret off
       else dirlink_free dp sz (off + 16))
     else kret off)"
  by pat_completeness auto

termination dirlink_free
  by (relation "measure (\<lambda>(dp, sz, off). sz - off)") auto

declare dirlink_free.simps [simp del]

definition dirlink :: "nat \<Rightarrow> 8 word list \<Rightarrow> 32 word \<Rightarrow> (int, 'a tstate_scheme) kern" where
  "dirlink dp name inum =
     kbind (dirlookup dp name) (\<lambda>r. case r of
       Some (ip, _) \<Rightarrow> kseq (iput ip) (kret (-1))
     | None \<Rightarrow> kget (\<lambda>s.
         kbind (dirlink_free dp (unat (i_size (inode_at s dp))) 0) (\<lambda>off.
         kbind (writei dp (local_source (dirent name inum)) (of_nat off) (of_nat sizeof_dirent)) (\<lambda>r.
         if r \<noteq> int sizeof_dirent then panic ''dirlink'' else kret 0))))"

section \<open>Paths\<close>

abbreviation slash :: "8 word" where "slash \<equiv> 0x2F"

definition skipelem :: "8 word list \<Rightarrow> 8 word list \<Rightarrow> (8 word list \<times> 8 word list) option" where
  "skipelem path name =
     (let s = dropWhile (\<lambda>c. c = slash) path in
      if s = [] then None
      else let elem = takeWhile (\<lambda>c. c \<noteq> slash) s; rest = dropWhile (\<lambda>c. c \<noteq> slash) s; len = length elem;
        name = (if len \<ge> DIRSIZ then splice 0 (take DIRSIZ elem) name else (splice 0 elem name)[len := 0]) in
        Some (dropWhile (\<lambda>c. c = slash) rest, name))"

lemma skipelem_shorter:
  assumes "skipelem path name = Some (path', name')"
  shows "length path' < length path"
proof -
  let ?s = "dropWhile (\<lambda>c. c = slash) path"
  have s: "?s \<noteq> []" and p': "path' = dropWhile (\<lambda>c. c = slash) (dropWhile (\<lambda>c. c \<noteq> slash) ?s)"
    using assms by (auto simp: skipelem_def Let_def split: if_splits)
  have "hd ?s \<noteq> slash" using hd_dropWhile [OF s] by simp
  then have "length (dropWhile (\<lambda>c. c \<noteq> slash) ?s) < length ?s"
    using s by (cases ?s) (auto simp: length_dropWhile_le less_Suc_eq_le)
  then show ?thesis unfolding p'
    by (meson le_less_trans length_dropWhile_le less_le_trans)
qed

function namex_loop :: "nat \<Rightarrow> 8 word list \<Rightarrow> bool \<Rightarrow> 8 word list \<Rightarrow> ((nat \<times> 8 word list) option, 'a tstate_scheme) kern" where
  "namex_loop ip path parent name = (case skipelem path name of
       None \<Rightarrow> if parent then kseq (iput ip) (kret None) else kret (Some (ip, name))
     | Some (path, name) \<Rightarrow>
         kseq (ilock (Some ip)) (
         kget (\<lambda>s. if i_type (inode_at s ip) \<noteq> T_DIR then kseq (iunlockput ip) (kret None)
         else if parent \<and> path = [] then kseq (iunlock (Some ip)) (kret (Some (ip, name)))
         else kbind (dirlookup ip name) (\<lambda>r. case r of
             None \<Rightarrow> kseq (iunlockput ip) (kret None)
           | Some (next, _) \<Rightarrow> kseq (iunlockput ip) (namex_loop next path parent name)))))"
  by pat_completeness auto

termination namex_loop
  by (relation "measure (\<lambda>(ip, path, parent, name). length path)") (auto dest: skipelem_shorter)

declare namex_loop.simps [simp del]

definition start_inode :: "8 word list \<Rightarrow> (nat, 'a tstate_scheme) kern" where
  "start_inode path =
     (if path \<noteq> [] \<and> hd path = slash then iget ROOTDEV ROOTINO
      else kbind myproc (\<lambda>p. kbind (kptr p) (\<lambda>i. kget (\<lambda>s. kbind (kopt (p_cwd (proc_at s i))) idup))))"

definition namex :: "8 word list \<Rightarrow> bool \<Rightarrow> ((nat \<times> 8 word list) option, 'a tstate_scheme) kern" where
  "namex path parent = kbind (start_inode path) (\<lambda>ip. namex_loop ip path parent (replicate DIRSIZ 0))"

definition namei :: "8 word list \<Rightarrow> (nat option, 'a tstate_scheme) kern" where
  "namei path = kbind (namex path False) (\<lambda>r. kret (map_option fst r))"

definition nameiparent :: "8 word list \<Rightarrow> ((nat \<times> 8 word list) option, 'a tstate_scheme) kern" where
  "nameiparent path = namex path True"

section \<open>Paths as lists of names\<close>

text \<open>The reference: cut the path at every slash and drop the empty pieces.\<close>

fun pieces :: "8 word list \<Rightarrow> 8 word list list" where
  "pieces [] = [[]]"
| "pieces (c # cs) = (if c = slash then [] # pieces cs else (c # hd (pieces cs)) # tl (pieces cs))"

definition split_path :: "8 word list \<Rightarrow> 8 word list list" where
  "split_path path = filter (\<lambda>e. e \<noteq> []) (pieces path)"

lemma pieces_elem: "slash \<notin> set e \<Longrightarrow> pieces (e @ slash # r) = e # pieces r \<and> pieces e = [e]"
  by (induction e) auto

lemma split_path_slash: "split_path (slash # r) = split_path r"
  by (simp add: split_path_def)

lemma split_path_slashes: "split_path (dropWhile (\<lambda>c. c = slash) path) = split_path path"
  by (induction path) (auto simp: split_path_slash)

lemma split_path_elem:
  assumes "s \<noteq> []" and "hd s \<noteq> slash"
  shows "split_path s = takeWhile (\<lambda>c. c \<noteq> slash) s # split_path (dropWhile (\<lambda>c. c \<noteq> slash) s)"
proof -
  let ?e = "takeWhile (\<lambda>c. c \<noteq> slash) s" and ?r = "dropWhile (\<lambda>c. c \<noteq> slash) s"
  have e: "slash \<notin> set ?e" by (auto dest: set_takeWhileD)
  have ne: "?e \<noteq> []" using assms by (cases s) auto
  show ?thesis
  proof (cases ?r)
    case Nil
    then have "s = ?e" by (metis append_Nil2 takeWhile_dropWhile_id)
    then have "pieces s = [?e]" using pieces_elem [OF e] by metis
    then have "split_path s = [?e]" using ne by (simp add: split_path_def)
    moreover have "split_path ?r = []" unfolding Nil by (simp add: split_path_def)
    ultimately show ?thesis by simp
  next
    case (Cons c r)
    then have "c = slash" using hd_dropWhile [of "\<lambda>c. c \<noteq> slash" s] by simp
    then have "s = ?e @ slash # r" using Cons by (metis takeWhile_dropWhile_id)
    then have "pieces s = ?e # pieces r" using pieces_elem [OF e] by metis
    then show ?thesis using ne Cons \<open>c = slash\<close> by (simp add: split_path_def)
  qed
qed

lemma padded_splice:
  assumes "0 \<notin> set e" and "length name = DIRSIZ"
  shows "padded (if length e \<ge> DIRSIZ then splice 0 (take DIRSIZ e) name else (splice 0 e name)[length e := 0]) = padded e"
    and "length (if length e \<ge> DIRSIZ then splice 0 (take DIRSIZ e) name else (splice 0 e name)[length e := 0]) = DIRSIZ"
proof -
  have nz: "takeWhile (\<lambda>c. c \<noteq> 0) (take n e) = take n e" for n
    using assms(1) by (auto simp: takeWhile_eq_all_conv dest: in_set_takeD)
  show "padded (if length e \<ge> DIRSIZ then splice 0 (take DIRSIZ e) name else (splice 0 e name)[length e := 0]) = padded e"
  proof (cases "length e \<ge> DIRSIZ")
    case True
    then show ?thesis using assms by (simp add: padded_def splice_def Let_def)
  next
    case False
    then have e: "e = take DIRSIZ e" by simp
    have "(splice 0 e name)[length e := 0] = e @ 0 # drop (Suc (length e)) name"
      using False assms(2) by (simp add: splice_def list_update_append Cons_nth_drop_Suc [symmetric])
    moreover have "take DIRSIZ (e @ 0 # drop (Suc (length e)) name) = e @ 0 # drop (Suc (length e)) name"
      using False assms(2) by (intro take_all) simp
    moreover have "takeWhile (\<lambda>c. c \<noteq> 0) (e @ 0 # drop (Suc (length e)) name) = e"
      using assms(1) by (subst takeWhile_append2) auto
    moreover have "takeWhile (\<lambda>c. c \<noteq> 0) (take DIRSIZ e) = e" using nz [of DIRSIZ] False by simp
    ultimately show ?thesis using False by (simp only: padded_def Let_def if_False)
  qed
  show "length (if length e \<ge> DIRSIZ then splice 0 (take DIRSIZ e) name else (splice 0 e name)[length e := 0]) = DIRSIZ"
    using assms(2) by simp
qed

lemma skipelem_None: "skipelem path name = None \<longleftrightarrow> split_path path = []"
proof (cases "dropWhile (\<lambda>c. c = slash) path = []")
  case True
  then have "split_path path = split_path []" using split_path_slashes by metis
  then show ?thesis using True by (simp add: skipelem_def split_path_def)
next
  case False
  then show ?thesis
    using split_path_elem [OF False] hd_dropWhile [OF False] by (simp add: skipelem_def Let_def split_path_slashes)
qed

lemma skipelem_Some:
  assumes "skipelem path name = Some (path', name')" and "0 \<notin> set path" and "length name = DIRSIZ"
  obtains e where "split_path path = e # split_path path'" and "padded name' = padded e" and "length name' = DIRSIZ"
    and "0 \<notin> set path'" and "path' = [] \<longleftrightarrow> split_path path' = []"
proof -
  let ?s = "dropWhile (\<lambda>c. c = slash) path"
  let ?e = "takeWhile (\<lambda>c. c \<noteq> slash) ?s" and ?r = "dropWhile (\<lambda>c. c \<noteq> slash) ?s"
  have s: "?s \<noteq> []" and p': "path' = dropWhile (\<lambda>c. c = slash) ?r"
    and n': "name' = (if length ?e \<ge> DIRSIZ then splice 0 (take DIRSIZ ?e) name else (splice 0 ?e name)[length ?e := 0])"
    using assms(1) by (auto simp: skipelem_def Let_def split: if_splits)
  have s0: "0 \<notin> set ?s" using assms(2) by (rule contrapos_nn) (rule set_dropWhileD)
  have z1: "0 \<notin> set ?e" using s0 by (rule contrapos_nn) (drule set_takeWhileD, erule conjunct1)
  have "0 \<notin> set ?r" using s0 by (rule contrapos_nn) (rule set_dropWhileD)
  then have z2: "0 \<notin> set path'" unfolding p' by (rule contrapos_nn) (rule set_dropWhileD)
  have "split_path path = ?e # split_path path'"
    using split_path_elem [OF s] hd_dropWhile [OF s] by (simp add: p' split_path_slashes)
  moreover have "path' = [] \<longleftrightarrow> split_path path' = []"
  proof
    assume "split_path path' = []"
    show "path' = []"
    proof (rule ccontr)
      assume ne: "path' \<noteq> []"
      then have "hd path' \<noteq> slash" using hd_dropWhile unfolding p' by blast
      then show False using split_path_elem [OF ne] \<open>split_path path' = []\<close> by simp
    qed
  qed (simp add: split_path_def)
  moreover have "padded name' = padded ?e" "length name' = DIRSIZ"
    unfolding n' by (rule padded_splice [OF z1 assms(3)])+
  ultimately show ?thesis using that [of ?e] z2 by simp
qed

subsection \<open>Names that compare equal\<close>

lemma name_at_padded: "i < DIRSIZ \<Longrightarrow> (\<forall>j<i. name_at p j \<noteq> 0) \<Longrightarrow> name_at (padded p) i = name_at p i"
proof -
  assume i: "i < DIRSIZ" and nz: "\<forall>j<i. name_at p j \<noteq> 0"
  let ?k = "takeWhile (\<lambda>c. c \<noteq> 0) (take DIRSIZ p)"
  have len: "length (padded p) = DIRSIZ"
    using length_takeWhile_le [of "\<lambda>c. c \<noteq> 0" "take DIRSIZ p"] by (simp add: padded_def Let_def)
  show "name_at (padded p) i = name_at p i"
  proof (cases "i < length ?k")
    case True
    then have "?k ! i = p ! i" using takeWhile_nth [OF True] i by simp
    moreover have "i < length p" using True length_takeWhile_le [of "\<lambda>c. c \<noteq> 0" "take DIRSIZ p"] by simp
    ultimately show ?thesis using True i len by (simp add: name_at_def padded_def Let_def nth_append)
  next
    case False
    have "name_at (padded p) i = 0" using False i len by (simp add: name_at_def padded_def Let_def nth_append)
    moreover have "name_at p i = 0"
    proof (cases "length ?k < length (take DIRSIZ p)")
      case True
      have zero: "p ! length ?k = 0" using nth_length_takeWhile [OF True] True by simp
      have "length ?k < length p" using True by simp
      then have "name_at p (length ?k) = 0" using zero by (simp add: name_at_def)
      then have "i = length ?k" using nz False by (metis linorder_neqE_nat)
      then show ?thesis using \<open>name_at p (length ?k) = 0\<close> by simp
    next
      case full: False
      then have "length (take DIRSIZ p) \<le> i" using False by linarith
      then show ?thesis using i by (simp add: name_at_def min_def split: if_splits)
    qed
    ultimately show ?thesis by simp
  qed
qed

lemma namecmp_loop_padded:
  "i + n = DIRSIZ \<Longrightarrow> (\<forall>j<i. name_at p j \<noteq> 0) \<Longrightarrow> namecmp_loop n i (padded p) q = namecmp_loop n i p q"
proof (induction n arbitrary: i)
  case (Suc n)
  then have at: "name_at (padded p) i = name_at p i" by (simp add: name_at_padded)
  have "namecmp_loop n (Suc i) (padded p) q = namecmp_loop n (Suc i) p q" if "name_at p i \<noteq> 0"
    using Suc.IH [of "Suc i"] Suc.prems that by (simp add: less_Suc_eq)
  then show ?case by (simp add: at)
qed simp

lemma namecmp_cong: "padded p = padded p' \<Longrightarrow> namecmp p q = namecmp p' q"
  using namecmp_loop_padded [of 0 DIRSIZ p q] namecmp_loop_padded [of 0 DIRSIZ p' q] by (simp add: namecmp_def)

lemma dirlookup_cong:
  assumes "padded p = padded p'"
  shows "(dirlookup dp p :: (_, 'a tstate_scheme) kern) = dirlookup dp p'"
proof -
  have "(dirlookup_loop dp p sz off :: (_, 'a tstate_scheme) kern) = dirlookup_loop dp p' sz off" for sz off
  proof (induction "sz - off" arbitrary: off rule: less_induct)
    case less
    have nm: "namecmp p = namecmp p'" using namecmp_cong [OF assms] by (rule ext)
    show ?case
    proof (cases "off < sz")
      case True
      have rec: "(dirlookup_loop dp p sz (off + 16) :: (_, 'a tstate_scheme) kern) = dirlookup_loop dp p' sz (off + 16)"
        by (rule less) (use True in simp)
      show ?thesis
        unfolding dirlookup_loop.simps [of dp p sz off] dirlookup_loop.simps [of dp p' sz off] rec nm by (rule refl)
    next
      case False
      then show ?thesis
        unfolding dirlookup_loop.simps [of dp p sz off] dirlookup_loop.simps [of dp p' sz off] by simp
    qed
  qed
  then show ?thesis unfolding dirlookup_def by presburger
qed

text \<open>The walk along a list of names that \<^verbatim>\<open>namei\<close> and \<^verbatim>\<open>nameiparent\<close> promise.\<close>

primrec walk_names :: "bool \<Rightarrow> nat \<Rightarrow> 8 word list list \<Rightarrow> ((nat \<times> 8 word list) option, 'a tstate_scheme) kern" where
  "walk_names parent ip [] = (if parent then kseq (iput ip) (kret None) else kret (Some (ip, [])))"
| "walk_names parent ip (e # es) =
     kseq (ilock (Some ip)) (
     kget (\<lambda>s. if i_type (inode_at s ip) \<noteq> T_DIR then kseq (iunlockput ip) (kret None)
     else if parent \<and> es = [] then kseq (iunlock (Some ip)) (kret (Some (ip, padded e)))
     else kbind (dirlookup ip e) (\<lambda>r. case r of
         None \<Rightarrow> kseq (iunlockput ip) (kret None)
       | Some (next, _) \<Rightarrow> kseq (iunlockput ip) (walk_names parent next es))))"

definition tidy :: "bool \<Rightarrow> (nat \<times> 8 word list) option \<Rightarrow> (nat \<times> 8 word list) option" where
  "tidy parent = map_option (\<lambda>(ip, name). (ip, if parent then padded name else []))"

lemma tidy_simps: "tidy parent None = None" "tidy parent (Some (ip, name)) = Some (ip, if parent then padded name else [])"
  by (simp_all add: tidy_def)

lemma kbind_dist:
  "kbind (kseq a b) f = kseq a (kbind b f)" "kbind (kget g) f = kget (\<lambda>s. kbind (g s) f)" "kbind (kret x) f = f x"
  by (auto simp: fun_eq_iff kseq_def kbind_def kget_def kret_def split: outcome.splits)

lemma kret_Ret: "kret x = Ret x"
  by (intro ext) simp

lemma namex_loop_walks:
  assumes "0 \<notin> set path" and "length name = DIRSIZ"
  shows "kbind (namex_loop ip path parent name :: (_, 'a tstate_scheme) kern) (\<lambda>r. kret (tidy parent r)) =
    walk_names parent ip (split_path path)"
  using assms
proof (induction "length path" arbitrary: ip path name rule: less_induct)
  case less
  show ?case
  proof (cases "skipelem path name")
    case None
    then have "split_path path = []" by (simp add: skipelem_None)
    then show ?thesis using None by (simp add: namex_loop.simps [of ip path] kbind_dist kret_Ret tidy_def)
  next
    case (Some r)
    obtain path' name' where r: "skipelem path name = Some (path', name')" using Some by (cases r) simp
    obtain e where e: "split_path path = e # split_path path'" "padded name' = padded e" "length name' = DIRSIZ"
        "0 \<notin> set path'" "path' = [] \<longleftrightarrow> split_path path' = []"
      using skipelem_Some [OF r less.prems] by metis
    have IH: "kbind (namex_loop next path' parent name' :: (_, 'a tstate_scheme) kern) (\<lambda>r. kret (tidy parent r)) =
        walk_names parent next (split_path path')" for "next"
      by (rule less.hyps [OF skipelem_shorter [OF r] e(4,3)])
    have found: "kbind (case x of None \<Rightarrow> kseq (iunlockput ip) (kret None)
          | Some (next, _) \<Rightarrow> kseq (iunlockput ip) (namex_loop next path' parent name')) (\<lambda>r. kret (tidy parent r)) =
        ((case x of None \<Rightarrow> kseq (iunlockput ip) (kret None)
          | Some (next, _) \<Rightarrow> kseq (iunlockput ip) (walk_names parent next (split_path path'))) :: (_, 'a tstate_scheme) kern)"
      for x :: "(nat \<times> 32 word) option"
      by (cases x) (simp_all only: kbind_dist option.case case_prod_beta IH tidy_simps)
    have look: "(dirlookup ip name' :: (_, 'a tstate_scheme) kern) = dirlookup ip e" by (rule dirlookup_cong [OF e(2)])
    show ?thesis
      unfolding namex_loop.simps [of ip path] r e(1) option.case prod.case walk_names.simps kbind_dist look e(5) [symmetric]
      by (simp only: kbind_dist kbind_assoc found if_distrib [where f = "\<lambda>m. kbind m _"] tidy_simps e(2) if_True cong: if_cong)
  qed
qed

text \<open>C10: \<^verbatim>\<open>namei\<close> and \<^verbatim>\<open>nameiparent\<close>, which work on the characters of a path with \<^verbatim>\<open>skipelem\<close> and a name buffer that is
  used again and again, are the walk along the list of names that the slashes of the path separate: repeated,
  leading and trailing slashes do not matter, a name counts up to its first \<^verbatim>\<open>DIRSIZ\<close> characters, and
  \<^verbatim>\<open>nameiparent\<close> stops one name early with the last name in the buffer.\<close>

theorem namei_walks_the_names:
  assumes "0 \<notin> set path"
  shows "(namei path :: (_, 'a tstate_scheme) kern) =
      kbind (start_inode path) (\<lambda>ip. kbind (walk_names False ip (split_path path)) (\<lambda>r. kret (map_option fst r))) \<and>
    kbind (nameiparent path :: (_, 'a tstate_scheme) kern) (\<lambda>r. kret (map_option (map_prod id padded) r)) =
      kbind (start_inode path) (\<lambda>ip. walk_names True ip (split_path path))"
proof
  have loop: "kbind (namex_loop ip path parent (replicate DIRSIZ 0) :: (_, 'a tstate_scheme) kern) (\<lambda>r. kret (tidy parent r)) =
      walk_names parent ip (split_path path)" for ip parent
    by (rule namex_loop_walks [OF assms]) simp
  have fst: "map_option fst (tidy False r) = map_option fst r" for r by (cases r) (auto simp: tidy_def)
  have "kbind (walk_names False ip (split_path path)) (\<lambda>r. kret (map_option fst r)) =
      (kbind (namex_loop ip path False (replicate DIRSIZ 0)) (\<lambda>r. kret (map_option fst r)) :: (_, 'a tstate_scheme) kern)" for ip
    by (simp add: loop [symmetric] kbind_assoc kbind_dist kret_Ret fst)
  then show "(namei path :: (_, 'a tstate_scheme) kern) =
      kbind (start_inode path) (\<lambda>ip. kbind (walk_names False ip (split_path path)) (\<lambda>r. kret (map_option fst r)))"
    by (simp add: namei_def namex_def kbind_assoc)
  have "tidy True = map_option (map_prod id padded)" by (auto simp: tidy_def fun_eq_iff map_prod_def)
  then show "kbind (nameiparent path :: (_, 'a tstate_scheme) kern) (\<lambda>r. kret (map_option (map_prod id padded) r)) =
      kbind (start_inode path) (\<lambda>ip. walk_names True ip (split_path path))"
    by (simp add: nameiparent_def namex_def kbind_assoc loop [symmetric])
qed

theorem namei_walks_the_names_witness:
  "(namei [slash, 97, slash, slash, 98, slash] :: (_, unit tstate_scheme) kern) =
     kbind (iget ROOTDEV ROOTINO) (\<lambda>ip. kbind (walk_names False ip [[97], [98]]) (\<lambda>r. kret (map_option fst r)))"
proof -
  let ?path = "[slash, 97, slash, slash, 98, slash]"
  have "split_path ?path = [[97], [98]]" and "start_inode ?path = (iget ROOTDEV ROOTINO :: (_, unit tstate_scheme) kern)"
    by (simp_all add: split_path_def start_inode_def)
  moreover have "0 \<notin> set ?path" by simp
  ultimately show ?thesis using conjunct1 [OF namei_walks_the_names [of ?path]] by metis
qed

end
