(* ===== verification/File.thy ===== *)
theory File
  imports Fs
begin

text \<open>
  Open files and pipes: \<^verbatim>\<open>file.c\<close> and \<^verbatim>\<open>pipe.c\<close>. The table of open files is a list of records, a pipe is the record
  that its page holds, found by the address of the page.
\<close>

definition NFILE :: nat where "NFILE = 100"
definition PIPESIZE :: nat where "PIPESIZE = 512"

datatype fdtype = FD_NONE | FD_PIPE | FD_INODE

record file_t =
  f_type :: fdtype
  f_ref :: int
  f_readable :: int
  f_writable :: int
  f_pipe :: addr
  f_ip :: "nat option"
  f_off :: "32 word"

record pipe =
  pi_data :: "8 word list"
  pi_nread :: "32 word"
  pi_nwrite :: "32 word"
  pi_readopen :: int
  pi_writeopen :: int

record fstate = tstate +
  ft_file :: "file_t list"
  pipe_at :: "addr \<Rightarrow> pipe"

abbreviation file_at :: "'a fstate_scheme \<Rightarrow> nat \<Rightarrow> file_t" where
  "file_at s f \<equiv> ft_file s ! f"

definition up_file :: "nat \<Rightarrow> (file_t \<Rightarrow> file_t) \<Rightarrow> 'a fstate_scheme \<Rightarrow> 'a fstate_scheme" where
  "up_file f g s = s\<lparr>ft_file := (ft_file s)[f := g (file_at s f)]\<rparr>"

definition up_pipe :: "addr \<Rightarrow> (pipe \<Rightarrow> pipe) \<Rightarrow> 'a fstate_scheme \<Rightarrow> 'a fstate_scheme" where
  "up_pipe p g s = s\<lparr>pipe_at := (pipe_at s)(p := g (pipe_at s p))\<rparr>"

section \<open>Pipes\<close>

definition pipeclose :: "addr \<Rightarrow> int \<Rightarrow> (unit, 'a fstate_scheme) kern" where
  "pipeclose p writable =
     kseq (acquire (LPipe p)) (
     kseq (if writable \<noteq> 0 then
         kseq (kmod (up_pipe p (\<lambda>q. q\<lparr>pi_writeopen := 0\<rparr>)))
         (wakeup (Some (ChPipeRead p)))
       else
         kseq (kmod (up_pipe p (\<lambda>q. q\<lparr>pi_readopen := 0\<rparr>)))
         (wakeup (Some (ChPipeWrite p)))) (
     kget (\<lambda>s. if pi_readopen (pipe_at s p) = 0 \<and> pi_writeopen (pipe_at s p) = 0
       then kseq (release (LPipe p)) (kfree p)
       else release (LPipe p))))"

definition pipe_full :: "pipe \<Rightarrow> bool" where
  "pipe_full q \<longleftrightarrow> pi_nwrite q = pi_nread q + of_nat PIPESIZE"

definition pipe_put :: "8 word \<Rightarrow> pipe \<Rightarrow> pipe" where
  "pipe_put x q = q\<lparr>pi_data := (pi_data q)[unat (pi_nwrite q) mod PIPESIZE := x], pi_nwrite := pi_nwrite q + 1\<rparr>"

definition pipe_take :: "pipe \<Rightarrow> 8 word \<times> pipe" where
  "pipe_take q = (pi_data q ! (unat (pi_nread q) mod PIPESIZE), q\<lparr>pi_nread := pi_nread q + 1\<rparr>)"

text \<open>Waiting for room; \<open>False\<close> when the reader has gone or the writer was killed.\<close>

definition pipewrite_wait :: "addr \<Rightarrow> (bool, 'a fstate_scheme) kern" where
  "pipewrite_wait p = kforever (kget (\<lambda>s.
     if \<not> pipe_full (pipe_at s p) then kret (Some True)
     else if pi_readopen (pipe_at s p) = 0 then kret (Some False)
     else kbind killed (\<lambda>k. if k then kret (Some False) else
       kseq (wakeup (Some (ChPipeRead p))) (
       kseq (sleep (Some (ChPipeWrite p)) (Some (LPipe p)))
       (kret None)))))"

primrec pipewrite_loop :: "addr \<Rightarrow> 'a fstate_scheme source \<Rightarrow> nat list \<Rightarrow> (bool, 'a fstate_scheme) kern" where
  "pipewrite_loop p get [] = kret True"
| "pipewrite_loop p get (i # is) =
     kbind (pipewrite_wait p) (\<lambda>room. if \<not> room then kret False else
     kbind (get i 1) (\<lambda>xs.
     kseq (kmod (up_pipe p (pipe_put (xs ! 0))))
     (pipewrite_loop p get is)))"

definition pipewrite :: "addr \<Rightarrow> 'a fstate_scheme source \<Rightarrow> int \<Rightarrow> (int, 'a fstate_scheme) kern" where
  "pipewrite p get n =
     kseq (acquire (LPipe p)) (
     kbind (pipewrite_loop p get [0..<nat n]) (\<lambda>ok.
     if \<not> ok then kseq (release (LPipe p)) (kret (-1)) else
     kseq (wakeup (Some (ChPipeRead p))) (
     kseq (release (LPipe p))
     (kret n))))"

definition piperead_wait :: "addr \<Rightarrow> (bool, 'a fstate_scheme) kern" where
  "piperead_wait p = kforever (kget (\<lambda>s. let q = pipe_at s p in
     if \<not> (pi_nread q = pi_nwrite q \<and> pi_writeopen q \<noteq> 0) then kret (Some True)
     else kbind killed (\<lambda>k. if k then kret (Some False) else
       kseq (sleep (Some (ChPipeRead p)) (Some (LPipe p)))
       (kret None))))"

text \<open>The result is the number of bytes copied; the argument counts those still to come.\<close>

primrec piperead_loop :: "addr \<Rightarrow> 'a fstate_scheme sink \<Rightarrow> nat \<Rightarrow> nat \<Rightarrow> (nat, 'a fstate_scheme) kern" where
  "piperead_loop p put i 0 = kret i"
| "piperead_loop p put i (Suc n) = kget (\<lambda>s. let q = pipe_at s p in
     if pi_nread q = pi_nwrite q then kret i else
     kseq (kmod (up_pipe p (\<lambda>q. snd (pipe_take q)))) (
     kseq (put i [fst (pipe_take q)])
     (piperead_loop p put (Suc i) n)))"

definition piperead :: "addr \<Rightarrow> 'a fstate_scheme sink \<Rightarrow> int \<Rightarrow> (int, 'a fstate_scheme) kern" where
  "piperead p put n =
     kseq (acquire (LPipe p)) (
     kbind (piperead_wait p) (\<lambda>ok.
     if \<not> ok then kseq (release (LPipe p)) (kret (-1)) else
     kbind (piperead_loop p put 0 (nat n)) (\<lambda>i.
     kseq (wakeup (Some (ChPipeWrite p))) (
     kseq (release (LPipe p))
     (kret (int i))))))"

section \<open>Files\<close>

definition fileinit :: "(unit, 'a fstate_scheme) kern" where
  "fileinit = initlock LFtable ''ftable''"

definition filealloc :: "(nat option, 'a fstate_scheme) kern" where
  "filealloc =
     kseq (acquire LFtable) (
     kget (\<lambda>s. case List.find (\<lambda>f. f_ref (file_at s f) = 0) [0..<NFILE] of
       Some f \<Rightarrow>
         kseq (kmod (up_file f (\<lambda>k. k\<lparr>f_ref := 1\<rparr>))) (
         kseq (release LFtable)
         (kret (Some f)))
     | None \<Rightarrow> kseq (release LFtable) (kret None)))"

definition filedup :: "nat \<Rightarrow> (nat, 'a fstate_scheme) kern" where
  "filedup f =
     kseq (acquire LFtable) (
     kget (\<lambda>s. if f_ref (file_at s f) < 1 then panic ''filedup'' else
     kseq (kmod (up_file f (\<lambda>k. k\<lparr>f_ref := f_ref k + 1\<rparr>))) (
     kseq (release LFtable)
     (kret f))))"

definition fileclose :: "nat \<Rightarrow> (unit, 'a fstate_scheme) kern" where
  "fileclose f =
     kseq (acquire LFtable) (
     kget (\<lambda>s. if f_ref (file_at s f) < 1 then panic ''fileclose'' else
     kseq (kmod (up_file f (\<lambda>k. k\<lparr>f_ref := f_ref k - 1\<rparr>))) (
     kget (\<lambda>s. let ff = file_at s f in
     if f_ref ff > 0 then release LFtable else
     kseq (kmod (up_file f (\<lambda>k. k\<lparr>f_ref := 0, f_type := FD_NONE\<rparr>))) (
     kseq (release LFtable) (
     case f_type ff of
       FD_PIPE \<Rightarrow> pipeclose (f_pipe ff) (f_writable ff)
     | FD_INODE \<Rightarrow>
         kseq begin_op (
         kseq (kbind (kopt (f_ip ff)) iput)
         end_op)
     | FD_NONE \<Rightarrow> kret ()))))))"

definition bytes16 :: "16 word \<Rightarrow> 8 word list" where
  "bytes16 w = put16 0 w (replicate 2 0)"

definition bytes32 :: "32 word \<Rightarrow> 8 word list" where
  "bytes32 w = put32 0 w (replicate 4 0)"

text \<open>\<^verbatim>\<open>stati\<close> writing through its pointer, with the offsets of \<^verbatim>\<open>struct stat\<close>.\<close>

definition put_stat :: "addr \<Rightarrow> stat \<Rightarrow> (unit, 'a vmstate_scheme) kern" where
  "put_stat st k =
     kseq (vstore (st + 4) (bytes32 (st_dev k))) (
     kseq (vstore (st + 8) (bytes32 (st_ino k))) (
     kseq (vstore st (bytes16 (st_type k))) (
     kseq (vstore (st + 12) (bytes16 (st_nlink k)))
     (vstore (st + 16) (bytes32 (st_size k))))))"

definition filestat :: "nat \<Rightarrow> addr \<Rightarrow> (int, 'a fstate_scheme) kern" where
  "filestat f st = kget (\<lambda>s.
     if f_type (file_at s f) = FD_INODE then
       kseq (ilock (f_ip (file_at s f))) (
       kbind (kopt (f_ip (file_at s f))) (\<lambda>ip.
       kseq (kget (\<lambda>s. put_stat st (stati ip s))) (
       kseq (iunlock (Some ip))
       (kret 0))))
     else kret (-1))"

definition fileread :: "nat \<Rightarrow> 'a fstate_scheme sink \<Rightarrow> int \<Rightarrow> (int, 'a fstate_scheme) kern" where
  "fileread f put n = kget (\<lambda>s. let k = file_at s f in
     if f_readable k = 0 then kret (-1) else
     (case f_type k of
       FD_PIPE \<Rightarrow> piperead (f_pipe k) put n
     | FD_INODE \<Rightarrow>
         kseq (ilock (f_ip k)) (
         kbind (kopt (f_ip k)) (\<lambda>ip.
         kget (\<lambda>s. kbind (readi ip put (f_off (file_at s f)) (word_of_int n)) (\<lambda>(r, xs).
         kseq (kwhen (r > 0) (kmod (up_file f (\<lambda>k. k\<lparr>f_off := f_off k + word_of_int r\<rparr>)))) (
         kseq (iunlock (Some ip))
         (kret r))))))
     | FD_NONE \<Rightarrow> panic ''fileread''))"

definition write_max :: nat where
  "write_max = nat (((MAXOPBLOCKS - 1 - 1 - 2) div 2) * 512)"

text \<open>The loop of \<^verbatim>\<open>filewrite\<close>; the result is the value of \<^verbatim>\<open>i\<close> after it.\<close>

function filewrite_loop :: "nat \<Rightarrow> 'a fstate_scheme source \<Rightarrow> nat \<Rightarrow> nat \<Rightarrow> (nat, 'a fstate_scheme) kern" where
  "filewrite_loop f get n i =
     (if i < n then
       (let n1 = min (n - i) write_max in
       kseq begin_op (
       kget (\<lambda>s. let p = f_ip (file_at s f) in
       kseq (ilock p) (
       kbind (kopt p) (\<lambda>ip.
       kget (\<lambda>s. kbind (writei ip (\<lambda>j. get (i + j)) (f_off (file_at s f)) (of_nat n1)) (\<lambda>r.
       kseq (kwhen (r > 0) (kmod (up_file f (\<lambda>k. k\<lparr>f_off := f_off k + word_of_int r\<rparr>)))) (
       kseq (iunlock p) (
       kseq end_op (
       if r < 0 then kret i
       else if r \<noteq> int n1 then panic ''short filewrite''
       else filewrite_loop f get n (i + n1)))))))))))
     else kret i)"
  by pat_completeness auto

lemma write_max_value: "write_max = 1536"
  by (simp add: write_max_def MAXOPBLOCKS_def)

termination filewrite_loop
  by (relation "measure (\<lambda>(f, get, n, i). n - i)") (auto simp: write_max_value)

declare filewrite_loop.simps [simp del]

definition filewrite :: "nat \<Rightarrow> 'a fstate_scheme source \<Rightarrow> int \<Rightarrow> (int, 'a fstate_scheme) kern" where
  "filewrite f get n = kget (\<lambda>s. let k = file_at s f in
     if f_writable k = 0 then kret (-1) else
     (case f_type k of
       FD_PIPE \<Rightarrow> pipewrite (f_pipe k) get n
     | FD_INODE \<Rightarrow>
         kbind (filewrite_loop f get (nat n) 0) (\<lambda>i.
         kret (if int i = n then n else -1))
     | FD_NONE \<Rightarrow> panic ''filewrite''))"

section \<open>Creating a pipe\<close>

definition pipe_end :: "addr \<Rightarrow> int \<Rightarrow> int \<Rightarrow> file_t \<Rightarrow> file_t" where
  "pipe_end p r w k = k\<lparr>f_type := FD_PIPE, f_readable := r, f_writable := w, f_pipe := p\<rparr>"

definition pipealloc :: "((nat \<times> nat) option, 'a fstate_scheme) kern" where
  "pipealloc =
     kbind filealloc (\<lambda>f0. case f0 of None \<Rightarrow> kret None | Some f0 \<Rightarrow>
     kbind filealloc (\<lambda>f1. case f1 of None \<Rightarrow> kseq (fileclose f0) (kret None) | Some f1 \<Rightarrow>
     kbind kalloc (\<lambda>p.
     if p = 0 then kseq (fileclose f0) (kseq (fileclose f1) (kret None)) else
     kseq (kmod (up_pipe p (\<lambda>q. q\<lparr>pi_readopen := 1, pi_writeopen := 1, pi_nwrite := 0, pi_nread := 0\<rparr>))) (
     kseq (initlock (LPipe p) ''pipe'') (
     kseq (kmod (up_file f0 (pipe_end p 1 0))) (
     kseq (kmod (up_file f1 (pipe_end p 0 1)))
     (kret (Some (f0, f1)))))))))"

section \<open>A pipe is a bounded queue\<close>

text \<open>What a reader and a writer rely on, and what follows for sequences of operations.\<close>

locale fifo =
  fixes inv :: "'q \<Rightarrow> bool" and content :: "'q \<Rightarrow> 'x list" and cap :: nat
    and put_one :: "'x \<Rightarrow> 'q \<Rightarrow> 'q" and take_one :: "'q \<Rightarrow> 'x \<times> 'q"
  assumes put_law: "inv q \<Longrightarrow> length (content q) < cap \<Longrightarrow> inv (put_one x q) \<and> content (put_one x q) = content q @ [x]"
    and take_law: "inv q \<Longrightarrow> content q = x # xs \<Longrightarrow> fst (take_one q) = x \<and> inv (snd (take_one q)) \<and> content (snd (take_one q)) = xs"
begin

lemma put_all:
  "inv q \<Longrightarrow> length (content q) + length ys \<le> cap \<Longrightarrow> inv (fold put_one ys q) \<and> content (fold put_one ys q) = content q @ ys"
proof (induction ys arbitrary: q)
  case (Cons y ys)
  then show ?case using put_law [of q y] by simp
qed simp

lemma take_all:
  "inv q \<Longrightarrow> k \<le> length (content q) \<Longrightarrow>
    inv (((\<lambda>q. snd (take_one q)) ^^ k) q) \<and> content (((\<lambda>q. snd (take_one q)) ^^ k) q) = drop k (content q)"
proof (induction k)
  case (Suc k)
  let ?q = "((\<lambda>q. snd (take_one q)) ^^ k) q"
  have q: "inv ?q" "content ?q = drop k (content q)" using Suc by simp_all
  then have "content ?q \<noteq> []" using Suc.prems(2) by simp
  then obtain x xs where x: "content ?q = x # xs" by (meson neq_Nil_conv)
  then show ?case using take_law [OF q(1) x] q(2) by (simp add: drop_Suc drop_tl)
qed simp

end

definition pipe_len :: "pipe \<Rightarrow> nat" where
  "pipe_len q = unat (pi_nwrite q - pi_nread q)"

definition pipe_queue :: "pipe \<Rightarrow> 8 word list" where
  "pipe_queue q = map (\<lambda>i. pi_data q ! ((unat (pi_nread q) + i) mod PIPESIZE)) [0..<pipe_len q]"

definition pipe_ok :: "pipe \<Rightarrow> bool" where
  "pipe_ok q \<longleftrightarrow> length (pi_data q) = PIPESIZE \<and> pipe_len q \<le> PIPESIZE"

lemma length_pipe_queue [simp]: "length (pipe_queue q) = pipe_len q"
  by (simp add: pipe_queue_def)

text \<open>The counters wrap at \<^verbatim>\<open>2^32\<close>, a multiple of the size, so the positions in the buffer do not see it.\<close>

lemma pipe_pos: "unat (r + of_nat n :: 32 word) mod PIPESIZE = (unat r + n) mod PIPESIZE"
proof -
  have "unat (r + of_nat n :: 32 word) = (unat r + n) mod 2 ^ 32"
    by (simp add: unat_word_ariths unat_of_nat mod_simps)
  then show ?thesis by (simp add: PIPESIZE_def mod_mod_cancel)
qed

lemma pipe_nwrite: "pi_nwrite q = pi_nread q + of_nat (pipe_len q)"
  by (simp add: pipe_len_def)

lemma pipe_len_simps: "pi_nread q = pi_nwrite q \<longleftrightarrow> pipe_queue q = []" "pipe_len q < PIPESIZE \<Longrightarrow> \<not> pipe_full q"
proof -
  have "pi_nread q = pi_nwrite q \<longleftrightarrow> pipe_len q = 0" by (auto simp: pipe_len_def unat_eq_0)
  then show "pi_nread q = pi_nwrite q \<longleftrightarrow> pipe_queue q = []" by (simp add: pipe_queue_def)
  show "\<not> pipe_full q" if "pipe_len q < PIPESIZE"
  proof
    assume "pipe_full q"
    then have "pipe_len q = PIPESIZE" by (simp add: pipe_full_def pipe_len_def PIPESIZE_def)
    then show False using that by simp
  qed
qed

lemma mod_apart: "i < n \<Longrightarrow> n - i < m \<Longrightarrow> (r + i) mod m \<noteq> (r + n) mod (m :: nat)"
proof
  assume i: "i < n" "n - i < m" and eq: "(r + i) mod m = (r + n) mod m"
  then have "m dvd (r + n) - (r + i)" by (metis add_le_mono1 le_add_diff_inverse less_imp_le mod_eq_dvd_iff_nat nat_add_left_cancel_le)
  then show False using i by (simp add: nat_dvd_not_less)
qed

lemma pipe_put_law:
  assumes "pipe_ok q" and "length (pipe_queue q) < PIPESIZE"
  shows "pipe_ok (pipe_put x q) \<and> pipe_queue (pipe_put x q) = pipe_queue q @ [x]"
proof -
  let ?n = "pipe_len q" and ?r = "unat (pi_nread q)"
  have n: "?n < PIPESIZE" and d: "length (pi_data q) = PIPESIZE" using assms by (simp_all add: pipe_ok_def)
  have w: "unat (pi_nwrite q) mod PIPESIZE = (?r + ?n) mod PIPESIZE" using pipe_nwrite [of q] pipe_pos by metis
  have "pi_nwrite q + 1 - pi_nread q = of_nat (Suc ?n)" using pipe_nwrite [of q] by simp
  moreover have "pipe_len (pipe_put x q) = unat (pi_nwrite q + 1 - pi_nread q)" by (simp add: pipe_len_def pipe_put_def)
  moreover have "unat (of_nat (Suc ?n) :: 32 word) = Suc ?n" using n by (simp add: unat_of_nat PIPESIZE_def del: of_nat_Suc)
  ultimately have len: "pipe_len (pipe_put x q) = Suc ?n" by metis
  have "pi_data (pipe_put x q) ! ((?r + i) mod PIPESIZE) = pi_data q ! ((?r + i) mod PIPESIZE)" if "i < ?n" for i
  proof -
    have "(?r + ?n) mod PIPESIZE \<noteq> (?r + i) mod PIPESIZE" using mod_apart [of i ?n PIPESIZE ?r] that n by fastforce
    then show ?thesis by (simp add: pipe_put_def w)
  qed
  moreover have "pi_data (pipe_put x q) ! ((?r + ?n) mod PIPESIZE) = x"
    using d n by (simp add: pipe_put_def w)
  ultimately have "pipe_queue (pipe_put x q) = pipe_queue q @ [x]"
    unfolding pipe_queue_def len by (simp add: pipe_put_def)
  then show ?thesis using len n d by (simp add: pipe_ok_def) (simp add: pipe_put_def)
qed

lemma pipe_take_law:
  assumes "pipe_ok q" and "pipe_queue q = x # xs"
  shows "fst (pipe_take q) = x \<and> pipe_ok (snd (pipe_take q)) \<and> pipe_queue (snd (pipe_take q)) = xs"
proof -
  let ?n = "pipe_len q" and ?r = "unat (pi_nread q)"
  obtain m where m: "?n = Suc m" using arg_cong [OF assms(2), of length] by simp
  have "pi_nwrite q - pi_nread q \<noteq> 0" using m by (auto simp: pipe_len_def)
  then have "pipe_len (snd (pipe_take q)) = m"
    using m unat_minus_one [of "pi_nwrite q - pi_nread q"] by (simp add: pipe_len_def pipe_take_def diff_diff_eq [symmetric])
  moreover have "unat (pi_nread q + 1) mod PIPESIZE = (?r + 1) mod PIPESIZE" using pipe_pos [of "pi_nread q" 1] by simp
  then have "(unat (pi_nread q + 1) + i) mod PIPESIZE = (?r + Suc i) mod PIPESIZE" for i
    by (metis add_Suc_right mod_add_left_eq plus_1_eq_Suc add.commute add.left_commute)
  ultimately have "pipe_queue (snd (pipe_take q)) = map (\<lambda>i. pi_data q ! ((?r + Suc i) mod PIPESIZE)) [0..<m]"
    by (simp add: pipe_queue_def pipe_take_def)
  moreover have "pipe_queue q = pi_data q ! (?r mod PIPESIZE) # map (\<lambda>i. pi_data q ! ((?r + Suc i) mod PIPESIZE)) [0..<m]"
    unfolding pipe_queue_def m by (simp add: upt_conv_Cons map_Suc_upt [symmetric] del: upt_Suc)
  ultimately show ?thesis using assms \<open>pipe_len (snd (pipe_take q)) = m\<close> m by (auto simp: pipe_ok_def pipe_take_def)
qed

interpretation pq: fifo pipe_ok pipe_queue PIPESIZE pipe_put pipe_take
  by unfold_locales (use pipe_put_law pipe_take_law in auto)

subsection \<open>Writing and reading\<close>

lemma section_pipe:
  "acquired l (s\<lparr>pipe_at := x\<rparr>) = (acquired l s)\<lparr>pipe_at := x\<rparr>" "pipe_at (acquired l s) = pipe_at s"
  "acquired l (fstate.more_update g s) = fstate.more_update g (acquired l s)"
  by (simp_all add: acquired_def released_def up_lock_def pushed_def popped_def up_cpu_def ncli_def mine_def self_def)

lemma section_up_pipe [simp]:
  "acquired l (up_pipe p f s) = up_pipe p f (acquired l s)" "pipe_at (up_pipe p f s) = (pipe_at s)(p := f (pipe_at s p))"
  by (simp_all add: up_pipe_def section_pipe)

lemma up_pipe_twice: "up_pipe p g (up_pipe p f s) = up_pipe p (\<lambda>q. g (f q)) s" "up_pipe p (\<lambda>q. q) s = s"
  by (simp_all add: up_pipe_def)

lemma quiescent_pipe [simp]:
  "quiescent i (up_pipe p f s) = quiescent i s" "quiescent i (fstate.more_update g s) = quiescent i s"
  by (simp_all add: up_pipe_def cong: quiescent_cong)

lemma calm_pipe:
  assumes "calm s s'"
  shows "pipe_at s' = pipe_at s" "fstate.more s' = fstate.more s"
  using calm_fields(9) [OF assms] by (cases s; cases s'; simp)+

text \<open>The end of an operation under the lock of a pipe.\<close>

lemma wake_and_release:
  assumes "quiescent i s" and "l \<noteq> LPtable"
  obtains s' where "kseq (wakeup ch) (kseq (release l) (kret r)) (acquired l s) rs = Ret r s' rs" and "calm s s'"
proof -
  let ?w = "wakened ch (acquired l s)"
  have s: "cpu_ok s" "self s \<noteq> None" "0 \<le> ncli s" "\<And>l. lk_locked (m_locks s l) = 0"
    using assms by (auto simp: quiescent_def cpu_ok_def)
  have free: "cpu_ok (acquired l s)" "lk_locked (m_locks (acquired l s) LPtable) = 0" using s assms(2) by simp_all
  have same: "same_locks (acquired l s) ?w" by (rule wakened_keeps(1) [OF free])
  have "release l ?w rs = Ret () (released l ?w) rs"
    using same s same_locks_ok [OF same] by (intro release_run) (auto simp: same_locks_def)
  moreover have "calm s (released l ?w)" using s calm_wakened [OF free] by (intro calm_bracket) simp_all
  ultimately show ?thesis using that wakeup_run [OF free] by simp
qed

lemma pipewrite_loop_run:
  assumes "\<And>i. i \<in> set is \<Longrightarrow> i < length xs" and "pipe_ok (pipe_at s p)" and "pipe_len (pipe_at s p) + length is \<le> PIPESIZE"
  shows "pipewrite_loop p (local_source xs) is s rs = Ret True (up_pipe p (fold pipe_put (map (nth xs) is)) s) rs"
  using assms
proof (induction "is" arbitrary: s)
  case Nil
  then show ?case by (simp add: up_pipe_twice)
next
  case (Cons i "is")
  have room: "pipe_len (pipe_at s p) < PIPESIZE" using Cons.prems(3) by simp
  have "slice i 1 xs ! 0 = xs ! i" using Cons.prems(1) [of i] nth_slice [of 0 1 i xs] by simp
  then have step: "pipewrite_loop p (local_source xs) (i # is) s rs =
      pipewrite_loop p (local_source xs) is (up_pipe p (pipe_put (xs ! i)) s) rs"
    using pipe_len_simps(2) [OF room] by (simp add: pipewrite_wait_def kforever_def local_source_def)
  have put: "pipe_ok (pipe_put (xs ! i) (pipe_at s p))" "pipe_len (pipe_put (xs ! i) (pipe_at s p)) = Suc (pipe_len (pipe_at s p))"
    using pq.put_law [OF Cons.prems(2), of "xs ! i"] room arg_cong [of _ _ length] by (fastforce simp: length_pipe_queue [symmetric] simp del: length_pipe_queue)+
  show ?case
    unfolding step using Cons.IH [of "up_pipe p (pipe_put (xs ! i)) s"] Cons.prems put by (simp add: up_pipe_twice)
qed

text \<open>A buffer in a part of the state of its own: the bytes it is given go to the position they are for.\<close>

definition filled :: "nat \<Rightarrow> 8 word list \<Rightarrow> (nat \<Rightarrow> 8 word) \<Rightarrow> nat \<Rightarrow> 8 word" where
  "filled i ys m j = (if i \<le> j \<and> j < i + length ys then ys ! (j - i) else m j)"

definition collect :: "(nat \<Rightarrow> 8 word) fstate_scheme sink" where
  "collect i ys = kmod (fstate.more_update (filled i ys))"

lemma filled_Nil: "filled i [] = (\<lambda>m. m)"
  by (auto simp: filled_def fun_eq_iff)

lemma filled_Cons: "filled (Suc i) ys (filled i [x] m) = filled i (x # ys) m"
  by (auto simp: filled_def fun_eq_iff nth_Cons' le_less_Suc_eq)

lemma piperead_loop_run:
  assumes "pipe_ok (pipe_at s p)"
  shows "piperead_loop p collect i n s rs = Ret (i + min n (pipe_len (pipe_at s p)))
    (fstate.more_update (filled i (take n (pipe_queue (pipe_at s p))))
      (up_pipe p ((\<lambda>q. snd (pipe_take q)) ^^ min n (pipe_len (pipe_at s p))) s)) rs"
  using assms
proof (induction n arbitrary: i s)
  case 0
  then show ?case by (simp add: up_pipe_def filled_Nil)
next
  case (Suc n)
  show ?case
  proof (cases "pipe_queue (pipe_at s p)")
    case Nil
    then have "pipe_len (pipe_at s p) = 0" using length_pipe_queue by (metis list.size(3))
    then show ?thesis using Nil pipe_len_simps(1) [of "pipe_at s p"] by (simp add: up_pipe_def filled_Nil)
  next
    case (Cons x xs)
    then have ne: "pi_nread (pipe_at s p) \<noteq> pi_nwrite (pipe_at s p)" using pipe_len_simps(1) by auto
    note t = pq.take_law [OF Suc.prems Cons]
    have len: "pipe_len (pipe_at s p) = Suc (length xs)" "pipe_len (snd (pipe_take (pipe_at s p))) = length xs"
      using Cons t by (metis length_Cons length_pipe_queue)+
    let ?s = "fstate.more_update (filled i [x]) (up_pipe p (\<lambda>q. snd (pipe_take q)) s)"
    have at: "pipe_at ?s p = snd (pipe_take (pipe_at s p))" by simp
    have step: "piperead_loop p collect i (Suc n) s rs = piperead_loop p collect (Suc i) n ?s rs"
      using ne t by (simp add: collect_def Let_def)
    show ?thesis
      unfolding step using Suc.IH [of ?s "Suc i"] t len Cons
      by (simp add: at funpow_Suc_right up_pipe_def comp_def filled_Cons del: funpow.simps(2))
  qed
qed

lemma pipewrite_run:
  assumes "quiescent i s" and "pipe_ok (pipe_at s p)" and "pipe_len (pipe_at s p) + length xs \<le> PIPESIZE"
  obtains s' where "pipewrite p (local_source xs) (int (length xs)) s rs = Ret (int (length xs)) s' rs"
    and "calm (up_pipe p (fold pipe_put xs) s) s'"
proof -
  let ?u = "up_pipe p (fold pipe_put xs) s"
  have s: "cpu_ok s" "lk_locked (m_locks s (LPipe p)) = 0" using assms(1) by (auto simp: quiescent_def)
  have "quiescent i ?u" using assms(1) by simp
  then obtain s' where s': "kseq (wakeup (Some (ChPipeRead p))) (kseq (release (LPipe p)) (kret (int (length xs))))
      (acquired (LPipe p) ?u) rs = Ret (int (length xs)) s' rs" "calm ?u s'"
    by (rule wake_and_release [where l = "LPipe p" and ch = "Some (ChPipeRead p)" and r = "int (length xs)" and rs = rs]) simp
  have "pipewrite_loop p (local_source xs) [0..<length xs] (acquired (LPipe p) s) rs = Ret True (acquired (LPipe p) ?u) rs"
    using pipewrite_loop_run [of "[0..<length xs]" xs "acquired (LPipe p) s" p rs] assms(2,3) by (simp add: section_pipe map_nth)
  then have "pipewrite p (local_source xs) (int (length xs)) s rs = Ret (int (length xs)) s' rs"
    using s s'(1) by (simp add: pipewrite_def acquire_run)
  then show ?thesis using that s'(2) by blast
qed

lemma piperead_run:
  assumes "quiescent i s" and "pipe_ok (pipe_at s p)" and "pipe_queue (pipe_at s p) \<noteq> []"
  obtains s' where "piperead p collect (int n) s rs = Ret (int (min n (pipe_len (pipe_at s p)))) s' rs"
    and "calm (fstate.more_update (filled 0 (take n (pipe_queue (pipe_at s p))))
      (up_pipe p ((\<lambda>q. snd (pipe_take q)) ^^ min n (pipe_len (pipe_at s p))) s)) s'"
proof -
  let ?k = "min n (pipe_len (pipe_at s p))"
  let ?u = "fstate.more_update (filled 0 (take n (pipe_queue (pipe_at s p)))) (up_pipe p ((\<lambda>q. snd (pipe_take q)) ^^ ?k) s)"
  have s: "cpu_ok s" "lk_locked (m_locks s (LPipe p)) = 0" using assms(1) by (auto simp: quiescent_def)
  have "quiescent i ?u" using assms(1) by simp
  then obtain s' where s': "kseq (wakeup (Some (ChPipeWrite p))) (kseq (release (LPipe p)) (kret (int ?k)))
      (acquired (LPipe p) ?u) rs = Ret (int ?k) s' rs" "calm ?u s'"
    by (rule wake_and_release [where l = "LPipe p" and ch = "Some (ChPipeWrite p)" and r = "int ?k" and rs = rs]) simp
  have ne: "pi_nread (pipe_at s p) \<noteq> pi_nwrite (pipe_at s p)" using assms(3) pipe_len_simps(1) by auto
  have "piperead_wait p (acquired (LPipe p) s) rs = Ret True (acquired (LPipe p) s) rs"
    using ne by (simp add: piperead_wait_def kforever_def section_pipe Let_def)
  moreover have "piperead_loop p collect 0 n (acquired (LPipe p) s) rs = Ret ?k (acquired (LPipe p) ?u) rs"
    using piperead_loop_run [of "acquired (LPipe p) s" p 0 n rs] assms(2) by (simp add: section_pipe)
  ultimately have "piperead p collect (int n) s rs = Ret (int ?k) s' rs"
    using s s'(1) by (simp add: piperead_def acquire_run)
  then show ?thesis using that s'(2) by blast
qed

text \<open>C11: A pipe delivers bytes in the order in which they were written, whatever value its wrapping counters have: a write
  that fits returns its count at once, and a read that follows puts the oldest bytes, those already in the pipe first, at
  the start of its buffer and touches no other byte of it, returns their number, and leaves the others in the pipe.\<close>

theorem pipe_is_fifo:
  assumes "quiescent i s" and "pipe_ok (pipe_at s p)" and "length (pipe_queue (pipe_at s p)) + length xs \<le> PIPESIZE"
    and "pipe_queue (pipe_at s p) @ xs \<noteq> []"
  shows "\<exists>s1 s2. pipewrite p (local_source xs) (int (length xs)) s rs = Ret (int (length xs)) s1 rs \<and>
    piperead p collect (int n) s1 rs = Ret (int (min n (length (pipe_queue (pipe_at s p) @ xs)))) s2 rs \<and>
    fstate.more s2 = filled 0 (take n (pipe_queue (pipe_at s p) @ xs)) (fstate.more s) \<and>
    pipe_queue (pipe_at s2 p) = drop n (pipe_queue (pipe_at s p) @ xs) \<and> pipe_ok (pipe_at s2 p) \<and> quiescent i s2"
proof -
  let ?q = "pipe_at s p"
  have room: "pipe_len ?q + length xs \<le> PIPESIZE" using assms(3) by simp
  obtain s1 where s1: "pipewrite p (local_source xs) (int (length xs)) s rs = Ret (int (length xs)) s1 rs"
      "calm (up_pipe p (fold pipe_put xs) s) s1"
    using pipewrite_run [OF assms(1,2) room] by metis
  have q1: "pipe_at s1 p = fold pipe_put xs ?q" "fstate.more s1 = fstate.more s"
    using calm_pipe [OF s1(2)] by (simp_all add: up_pipe_def)
  have put: "pipe_ok (pipe_at s1 p)" "pipe_queue (pipe_at s1 p) = pipe_queue ?q @ xs"
    using pq.put_all [OF assms(2), of xs] assms(3) q1(1) by simp_all
  have quiet: "quiescent i s1" using calm_quiescent [OF s1(2)] assms(1) by simp
  have len: "pipe_len (pipe_at s1 p) = length (pipe_queue ?q @ xs)" using put(2) length_pipe_queue by metis
  obtain s2 where s2: "piperead p collect (int n) s1 rs = Ret (int (min n (pipe_len (pipe_at s1 p)))) s2 rs"
      "calm (fstate.more_update (filled 0 (take n (pipe_queue (pipe_at s1 p))))
        (up_pipe p ((\<lambda>q. snd (pipe_take q)) ^^ min n (pipe_len (pipe_at s1 p))) s1)) s2"
    using piperead_run [OF quiet put(1), of n rs] put(2) assms(4) by metis
  have q2: "pipe_at s2 p = ((\<lambda>q. snd (pipe_take q)) ^^ min n (pipe_len (pipe_at s1 p))) (pipe_at s1 p)"
      "fstate.more s2 = filled 0 (take n (pipe_queue ?q @ xs)) (fstate.more s)"
    using calm_pipe [OF s2(2)] q1(2) put(2) by (simp_all add: up_pipe_def)
  have "pipe_ok (pipe_at s2 p) \<and> pipe_queue (pipe_at s2 p) = drop n (pipe_queue ?q @ xs)"
    using pq.take_all [OF put(1), of "min n (pipe_len (pipe_at s1 p))"] put(2) len by (simp add: q2(1) min_def)
  moreover have "quiescent i s2" using calm_quiescent [OF s2(2)] quiet by simp
  ultimately show ?thesis using s1(1) s2(1) q2(2) len by auto
qed

text \<open>Three bytes in the pipe, across the point where the counters wrap.\<close>

definition sample_pipe :: pipe where
  "sample_pipe = \<lparr>pi_data = (replicate PIPESIZE 0)[510 := 10, 511 := 11, 0 := 12], pi_nread = 0xFFFFFFFE, pi_nwrite = 1,
     pi_readopen = 1, pi_writeopen = 1\<rparr>"

definition small_fs :: "(nat \<Rightarrow> 8 word) fstate_scheme" where
  "small_fs = tstate.extend (istate.extend small_is
       \<lparr>in_buf = replicate INPUT_BUF 0, in_r = 0, in_w = 0, in_e = 0, devsw = replicate 10 False\<rparr>)
     \<lparr>ft_file = [], pipe_at = (\<lambda>_. sample_pipe), \<dots> = (\<lambda>_. 0)\<rparr>"

lemma small_fs_fields:
  "m_cpus small_fs = m_cpus small_ls" "m_lapicid small_fs = m_lapicid small_ls" "m_if small_fs = m_if small_ls"
  "m_locks small_fs = m_locks small_ls" "pt_proc small_fs = pt_proc small_ls" "pipe_at small_fs p = sample_pipe" "fstate.more small_fs = (\<lambda>_. 0)"
  by (simp_all add: small_fs_def small_is_def tstate.defs istate.defs lstate.defs)

lemma small_fs_quiet: "quiescent 0 small_fs"
  using small_bs_ok(2) quiescent_cong [of small_fs small_bs 0] by (simp add: io_ok_def small_ls_fields small_fs_fields)

lemma sample_pipe_ok: "pipe_ok sample_pipe" "pipe_queue sample_pipe = [10, 11, 12]"
  by (simp_all add: pipe_ok_def pipe_len_def sample_pipe_def PIPESIZE_def pipe_queue_def upt_rec)

theorem pipe_is_fifo_witness:
  "\<exists>s1 s2. pipewrite 0x80500000 (local_source [7, 8]) 2 small_fs [] = Ret 2 s1 [] \<and>
     piperead 0x80500000 collect 4 s1 [] = Ret 4 s2 [] \<and>
     map (fstate.more s2) [0..<6] = [10, 11, 12, 7, 0, 0] \<and>
     pipe_queue (pipe_at s2 0x80500000) = [8]"
  using pipe_is_fifo [OF small_fs_quiet, of "0x80500000" "[7, 8]" "[]" 4] sample_pipe_ok
  by (auto simp: small_fs_fields PIPESIZE_def filled_def upt_rec)

end
