(* ===== verification/Life.thy ===== *)
theory Life
  imports File Scheduler
begin

text \<open>
  The life of a process, the part of \<^verbatim>\<open>proc.c\<close> that rests on files: \<^verbatim>\<open>userinit\<close>, \<^verbatim>\<open>nicefork\<close>, \<^verbatim>\<open>exit\<close>, \<^verbatim>\<open>wait\<close> and
  \<^verbatim>\<open>forkret\<close>, then the system calls of \<^verbatim>\<open>sysproc.c\<close> and the argument fetching of \<^verbatim>\<open>syscall.c\<close>.
\<close>

definition NOFILE :: nat where "NOFILE = 16"

definition NICEFORK_DBG_LINES :: int where "NICEFORK_DBG_LINES = 0"

definition tf_ds :: "32 word" where "tf_ds = 44"
definition tf_es :: "32 word" where "tf_es = 40"
definition tf_trapno :: "32 word" where "tf_trapno = 48"
definition tf_err :: "32 word" where "tf_err = 52"
definition tf_eip :: "32 word" where "tf_eip = 56"
definition tf_cs :: "32 word" where "tf_cs = 60"
definition tf_eflags :: "32 word" where "tf_eflags = 64"
definition tf_esp :: "32 word" where "tf_esp = 68"
definition tf_ss :: "32 word" where "tf_ss = 72"
definition SEG_UCODE :: "32 word" where "SEG_UCODE = 3"
definition SEG_UDATA :: "32 word" where "SEG_UDATA = 4"
definition DPL_USER :: "32 word" where "DPL_USER = 3"
definition FL_IF :: "32 word" where "FL_IF = 0x200"

section \<open>Creation\<close>

text \<open>
  \<open>start\<close> and \<open>sz\<close> are the linker's symbols for the program \<^verbatim>\<open>initcode\<close>. The selectors are half words with zeroed
  padding, so a whole word is stored.
\<close>

definition userinit :: "addr \<Rightarrow> 32 word \<Rightarrow> (unit, 'a fstate_scheme) kern" where
  "userinit start sz =
     kbind allocproc (\<lambda>p.
     kseq (kmod (\<lambda>s. s\<lparr>pt_initproc := p\<rparr>)) (
     kbind (kptr p) (\<lambda>i.
     kbind setupkvm (\<lambda>pgdir.
     kseq (kmod (up_proc i (\<lambda>p. p\<lparr>p_pgdir := pgdir\<rparr>))) (
     if pgdir = 0 then panic ''userinit: out of memory?'' else
     kseq (inituvm pgdir start sz) (
     kseq (kmod (up_proc i (\<lambda>p. p\<lparr>p_sz := PGSIZE\<rparr>))) (
     kget (\<lambda>s. let tf = p_tf (proc_at s i); ds = push_bit 3 SEG_UDATA OR DPL_USER in
     kseq (kmemset tf 0 sizeof_trapframe) (
     kseq (kstore (tf + tf_cs) (push_bit 3 SEG_UCODE OR DPL_USER)) (
     kseq (kstore (tf + tf_ds) ds) (
     kseq (kstore (tf + tf_es) ds) (
     kseq (kstore (tf + tf_ss) ds) (
     kseq (kstore (tf + tf_eflags) FL_IF) (
     kseq (kstore (tf + tf_esp) PGSIZE) (
     kseq (kstore (tf + tf_eip) 0) (
     kseq (kmod (up_proc i (\<lambda>p. p\<lparr>p_name := ''initcode''\<rparr>))) (
     kbind (namei [slash]) (\<lambda>cwd.
     kseq (kmod (up_proc i (\<lambda>p. p\<lparr>p_cwd := cwd\<rparr>))) (
     kseq (acquire LPtable) (
     kseq (kmod (up_proc i (\<lambda>p. p\<lparr>p_state := RUNNABLE\<rparr>)))
     (release LPtable)))))))))))))))))))))"

definition copy_files :: "nat \<Rightarrow> nat \<Rightarrow> (unit, 'a fstate_scheme) kern" where
  "copy_files me np = kfor [0..<NOFILE] (\<lambda>i. kget (\<lambda>s. case p_ofile (proc_at s me) ! i of
       None \<Rightarrow> kret ()
     | Some f \<Rightarrow> kbind (filedup f) (\<lambda>g. kmod (up_proc np (\<lambda>p. p\<lparr>p_ofile := (p_ofile p)[i := Some g]\<rparr>)))))"

text \<open>\<^verbatim>\<open>copyuvm\<close> failed: give back what \<^verbatim>\<open>allocproc\<close> took.\<close>

definition drop_embryo :: "nat \<Rightarrow> (int, 'a fstate_scheme) kern" where
  "drop_embryo np =
     kseq (kget (\<lambda>s. kfree (p_kstack (proc_at s np)))) (
     kseq (kmod (up_proc np (\<lambda>p. p\<lparr>p_kstack := 0, p_state := UNUSED\<rparr>)))
     (kret (-1)))"

definition nicefork :: "int \<Rightarrow> (int, 'a fstate_scheme) kern" where
  "nicefork nice =
     (if nice < BFS_NICE_FIRST_LEVEL \<or> nice > BFS_NICE_LAST_LEVEL then kret (-1) else
     kbind myproc (\<lambda>c. kbind (kptr c) (\<lambda>me.
     kbind allocproc (\<lambda>n. case n of None \<Rightarrow> kret (-1) | Some np \<Rightarrow>
     kget (\<lambda>s. kbind (copyuvm (p_pgdir (proc_at s me)) (p_sz (proc_at s me))) (\<lambda>pgdir.
     kseq (kmod (up_proc np (\<lambda>p. p\<lparr>p_pgdir := pgdir\<rparr>))) (
     if pgdir = 0 then drop_embryo np else
     kseq (kmod (\<lambda>s. up_proc np (\<lambda>p. p\<lparr>p_sz := p_sz (proc_at s me), p_parent := Some me\<rparr>) s)) (
     kseq (kget (\<lambda>s. kmemmove (p_tf (proc_at s np)) (p_tf (proc_at s me)) sizeof_trapframe)) (
     kseq (kget (\<lambda>s. kstore (p_tf (proc_at s np) + tf_eax) 0)) (
     kseq (copy_files me np) (
     kget (\<lambda>s. kbind (kopt (p_cwd (proc_at s me))) (\<lambda>cwd. kbind (idup cwd) (\<lambda>cwd.
     kseq (kmod (up_proc np (\<lambda>p. p\<lparr>p_cwd := Some cwd\<rparr>))) (
     kseq (kmod (\<lambda>s. up_proc np (\<lambda>p. p\<lparr>p_name := p_name (proc_at s me)\<rparr>) s)) (
     kseq (kmod (\<lambda>s. up_proc np (\<lambda>p. p\<lparr>p_niceness := nice, p_vdeadline := deadline (pt_ticks s) nice\<rparr>) s)) (
     kseq (kget (\<lambda>s. dbgprintf NICEFORK_DBG_LINES (''PID %d; niceness: %d, prioratio: %d, vdl: %d'' @ [CHR 0x0A])
       (map (\<lambda>k. AWord (word_of_int k)) [p_pid (proc_at s np), nice, nice + 21, p_vdeadline (proc_at s np)]))) (
     kget (\<lambda>s. let pid = p_pid (proc_at s np) in
     kseq (acquire LPtable) (
     kseq (kmod (up_proc np (\<lambda>p. p\<lparr>p_state := RUNNABLE\<rparr>))) (
     kseq (release LPtable)
     (kret pid))))))))))))))))))))))"

definition fork :: "(int, 'a fstate_scheme) kern" where
  "fork = nicefork 0"

section \<open>End\<close>

definition close_files :: "nat \<Rightarrow> (unit, 'a fstate_scheme) kern" where
  "close_files me = kfor [0..<NOFILE] (\<lambda>fd. kget (\<lambda>s. case p_ofile (proc_at s me) ! fd of
       None \<Rightarrow> kret ()
     | Some f \<Rightarrow>
         kseq (fileclose f)
         (kmod (up_proc me (\<lambda>p. p\<lparr>p_ofile := (p_ofile p)[fd := None]\<rparr>)))))"

text \<open>One round of the loop that passes the children to \<^verbatim>\<open>init\<close>, and the end of \<^verbatim>\<open>exit\<close> under the lock.\<close>

definition adopt :: "nat \<Rightarrow> nat \<Rightarrow> (unit, 'a pstate_scheme) kern" where
  "adopt me i = kget (\<lambda>s. kwhen (p_parent (proc_at s i) = Some me) (
     kseq (kmod (\<lambda>s. up_proc i (\<lambda>p. p\<lparr>p_parent := pt_initproc s\<rparr>) s))
     (kget (\<lambda>s. kwhen (p_state (proc_at s i) = ZOMBIE) (wakeup1 (map_option ChProc (pt_initproc s)))))))"

definition leave :: "nat \<Rightarrow> (unit, 'a pstate_scheme) kern" where
  "leave me =
     kseq (acquire LPtable) (
     kseq (kget (\<lambda>s. wakeup1 (map_option ChProc (p_parent (proc_at s me))))) (
     kseq (kfor [0..<NPROC] (adopt me)) (
     kseq (kmod (up_proc me (\<lambda>p. p\<lparr>p_state := ZOMBIE\<rparr>))) (
     kseq sched
     (panic ''zombie exit'')))))"

definition exit :: "(unit, 'a fstate_scheme) kern" where
  "exit =
     kbind myproc (\<lambda>c. kget (\<lambda>s.
     if c = pt_initproc s then panic ''init exiting'' else
     kbind (kptr c) (\<lambda>me.
     kseq (close_files me) (
     kseq begin_op (
     kseq (kget (\<lambda>s. kbind (kopt (p_cwd (proc_at s me))) iput)) (
     kseq end_op (
     kseq (kmod (up_proc me (\<lambda>p. p\<lparr>p_cwd := None\<rparr>)))
     (leave me))))))))"

definition reap :: "nat \<Rightarrow> (int, 'a pstate_scheme) kern" where
  "reap i = kget (\<lambda>s. let pid = p_pid (proc_at s i) in
     kseq (kfree (p_kstack (proc_at s i))) (
     kseq (kmod (up_proc i (\<lambda>p. p\<lparr>p_kstack := 0\<rparr>))) (
     kseq (freevm (p_pgdir (proc_at s i))) (
     kseq (kmod (up_proc i (\<lambda>p. p\<lparr>p_pid := 0, p_parent := None, p_name := '''', p_killed := 0, p_state := UNUSED\<rparr>))) (
     kseq (release LPtable)
     (kret pid))))))"

text \<open>A round of \<^verbatim>\<open>wait\<close>: the first child that is a zombie ends the scan.\<close>

definition wait_round :: "nat \<Rightarrow> (int option, 'a pstate_scheme) kern" where
  "wait_round me = kget (\<lambda>s.
     let child = (\<lambda>i. p_parent (proc_at s i) = Some me) in
     case List.find (\<lambda>i. child i \<and> p_state (proc_at s i) = ZOMBIE) [0..<NPROC] of
       Some i \<Rightarrow> kbind (reap i) (\<lambda>pid. kret (Some pid))
     | None \<Rightarrow>
         if \<not> list_ex child [0..<NPROC] \<or> p_killed (proc_at s me) \<noteq> 0
         then kseq (release LPtable) (kret (Some (-1)))
         else kseq (sleep (Some (ChProc me)) (Some LPtable)) (kret None))"

definition wait :: "(int, 'a pstate_scheme) kern" where
  "wait =
     kbind myproc (\<lambda>c. kbind (kptr c) (\<lambda>me.
     kseq (acquire LPtable)
     (kforever (wait_round me))))"

definition forkret :: "(unit, 'a fstate_scheme) kern" where
  "forkret =
     kseq (release LPtable) (
     kget (\<lambda>s. kwhen (pt_first s \<noteq> 0) (
       kseq (kmod (\<lambda>s. s\<lparr>pt_first := 0\<rparr>)) (
       kseq (iinit (uint ROOTDEV))
       (initlog (uint ROOTDEV))))))"

section \<open>Arguments of system calls\<close>

definition cur_proc :: "(nat, 'a pstate_scheme) kern" where
  "cur_proc = kbind myproc kptr"

definition vload32 :: "addr \<Rightarrow> (32 word, 'a vmstate_scheme) kern" where
  "vload32 va = kbind (vload va 4) (\<lambda>xs. kret (get32 0 xs))"

definition fetchint :: "32 word \<Rightarrow> (32 word option, 'a pstate_scheme) kern" where
  "fetchint a =
     kbind cur_proc (\<lambda>i. kget (\<lambda>s.
     if a \<ge> p_sz (proc_at s i) \<or> a + 4 > p_sz (proc_at s i) then kret None
     else kbind (vload32 a) (\<lambda>w. kret (Some w))))"

text \<open>The characters of the string that starts at an address, \<open>None\<close> when it has no end below \<^verbatim>\<open>ep\<close>.\<close>

primrec fetch_chars :: "nat \<Rightarrow> addr \<Rightarrow> (8 word list option, 'a vmstate_scheme) kern" where
  "fetch_chars 0 s = kret None"
| "fetch_chars (Suc n) s =
     kbind (vload8 s) (\<lambda>c. if c = 0 then kret (Some [])
       else kbind (fetch_chars n (s + 1)) (\<lambda>r. kret (map_option ((#) c) r)))"

definition fetchstr :: "32 word \<Rightarrow> (8 word list option, 'a pstate_scheme) kern" where
  "fetchstr a =
     kbind cur_proc (\<lambda>i. kget (\<lambda>s.
     if a \<ge> p_sz (proc_at s i) then kret None
     else fetch_chars (unat (p_sz (proc_at s i) - a)) a))"

definition argint :: "nat \<Rightarrow> (32 word option, 'a pstate_scheme) kern" where
  "argint n =
     kbind cur_proc (\<lambda>i. kget (\<lambda>s. kbind (kload (p_tf (proc_at s i) + tf_esp)) (\<lambda>esp.
     fetchint (esp + 4 + 4 * of_nat n))))"

definition argptr :: "nat \<Rightarrow> int \<Rightarrow> (addr option, 'a pstate_scheme) kern" where
  "argptr n sz =
     kbind cur_proc (\<lambda>i. kbind (argint n) (\<lambda>r. case r of None \<Rightarrow> kret None | Some a \<Rightarrow> kget (\<lambda>s.
     if sz < 0 \<or> a \<ge> p_sz (proc_at s i) \<or> a + word_of_int sz > p_sz (proc_at s i) then kret None
     else kret (Some a))))"

definition argstr :: "nat \<Rightarrow> (8 word list option, 'a pstate_scheme) kern" where
  "argstr n = kbind (argint n) (\<lambda>r. case r of None \<Rightarrow> kret None | Some a \<Rightarrow> fetchstr a)"

text \<open>A system call whose arguments are bad answers \<open>-1\<close>.\<close>

definition need :: "('b option, 's) kern \<Rightarrow> ('b \<Rightarrow> (int, 's) kern) \<Rightarrow> (int, 's) kern" where
  "need m f = kbind m (\<lambda>r. case r of None \<Rightarrow> kret (-1) | Some x \<Rightarrow> f x)"

section \<open>System calls on processes\<close>

definition sys_fork :: "(int, 'a fstate_scheme) kern" where
  "sys_fork = fork"

definition sys_exit :: "(int, 'a fstate_scheme) kern" where
  "sys_exit = kseq exit (kret 0)"

definition sys_wait :: "(int, 'a pstate_scheme) kern" where
  "sys_wait = wait"

definition sys_kill :: "(int, 'a pstate_scheme) kern" where
  "sys_kill = need (argint 0) (\<lambda>pid. kill (sint pid))"

definition sys_getpid :: "(int, 'a pstate_scheme) kern" where
  "sys_getpid = kbind cur_proc (\<lambda>i. kget (\<lambda>s. kret (p_pid (proc_at s i))))"

definition sys_sbrk :: "(int, 'a pstate_scheme) kern" where
  "sys_sbrk = need (argint 0) (\<lambda>n.
     kbind cur_proc (\<lambda>i. kget (\<lambda>s. let addr = sint (p_sz (proc_at s i)) in
     kbind (growproc (sint n)) (\<lambda>r. kret (if r < 0 then -1 else addr)))))"

definition sys_sleep :: "(int, 'a pstate_scheme) kern" where
  "sys_sleep = need (argint 0) (\<lambda>n.
     kseq (acquire LTicks) (
     kget (\<lambda>s. let ticks0 = pt_ticks s in
     kbind (kforever (kget (\<lambda>s.
       if \<not> pt_ticks s - ticks0 < n then kret (Some 0)
       else kbind killed (\<lambda>k. if k then kret (Some (-1)) else
         kseq (sleep (Some ChTicks) (Some LTicks)) (kret None))))) (\<lambda>r.
     kseq (release LTicks)
     (kret r)))))"

definition sys_uptime :: "(int, 'a pstate_scheme) kern" where
  "sys_uptime =
     kseq (acquire LTicks) (
     kget (\<lambda>s. let xticks = pt_ticks s in
     kseq (release LTicks)
     (kret (sint xticks))))"

definition sys_yield :: "(int, 'a pstate_scheme) kern" where
  "sys_yield = kseq yield (kret 0)"

definition sys_schedlog :: "(int, 'a pstate_scheme) kern" where
  "sys_schedlog = need (argint 0) (\<lambda>n. kseq (schedlog (sint n)) (kret 0))"

definition sys_nicefork :: "(int, 'a fstate_scheme) kern" where
  "sys_nicefork = need (argint 0) (\<lambda>nice. nicefork (sint nice))"

section \<open>Leaving the table to others\<close>

lemma kfor_pure: "(\<And>i s rs. body i s rs = Ret () (f i s) rs) \<Longrightarrow> kfor is body s rs = Ret () (fold f is s) rs"
  by (induction "is" arbitrary: s) simp_all

definition woke :: "channel option \<Rightarrow> 'a pstate_scheme \<Rightarrow> 'a pstate_scheme" where
  "woke ch s = s\<lparr>pt_proc := map (woken ch) (pt_proc s)\<rparr>"

definition adopted :: "nat \<Rightarrow> nat \<Rightarrow> 'a pstate_scheme \<Rightarrow> 'a pstate_scheme" where
  "adopted me i s =
     (if p_parent (proc_at s i) = Some me
      then let t = up_proc i (\<lambda>p. p\<lparr>p_parent := pt_initproc s\<rparr>) s in
        if p_state (proc_at t i) = ZOMBIE then woke (map_option ChProc (pt_initproc s)) t else t
      else s)"

lemma adopt_run: "adopt me i s rs = Ret () (adopted me i s) rs"
  by (simp add: adopt_def adopted_def wakeup1_def woke_def Let_def)

text \<open>What may happen to a slot: it gets another parent, and it may be woken up.\<close>

definition passed :: "nat option \<Rightarrow> proc \<Rightarrow> proc \<Rightarrow> bool" where
  "passed parent p p' \<longleftrightarrow> maybe_woken (p\<lparr>p_parent := parent\<rparr>) p'"

definition nobody_on :: "channel option \<Rightarrow> 'a pstate_scheme \<Rightarrow> bool" where
  "nobody_on ch s \<longleftrightarrow> (\<forall>p\<in>set (pt_proc s). p_state p = SLEEPING \<longrightarrow> p_chan p \<noteq> ch)"

lemma nobody_on_woke: "nobody_on ch (woke ch s)" "nobody_on ch s \<Longrightarrow> nobody_on ch (woke ch' s)"
proof -
  have "p_state (woken ch' p) = SLEEPING \<Longrightarrow> p_state p = SLEEPING \<and> p_chan p \<noteq> ch' \<and> p_chan (woken ch' p) = p_chan p" for ch' p
    by (simp add: woken_def split: if_splits)
  then have w: "p_state p = SLEEPING \<and> p_chan p \<noteq> ch' \<and> p_chan (woken ch' p) = p_chan p" if "p_state (woken ch' p) = SLEEPING" for ch' p
    using that by blast
  show "nobody_on ch (woke ch s)" unfolding nobody_on_def woke_def using w [of ch] by simp
  show "nobody_on ch (woke ch' s)" if "nobody_on ch s" using that unfolding nobody_on_def woke_def using w [of ch'] by simp
qed

lemma nobody_on_up_proc:
  assumes "nobody_on ch s" and "\<And>p. p_state (f p) = SLEEPING \<Longrightarrow> p_state p = SLEEPING \<and> p_chan (f p) = p_chan p"
  shows "nobody_on ch (up_proc i f s)"
proof (cases "i < length (pt_proc s)")
  case True
  show ?thesis
    unfolding nobody_on_def
  proof
    fix p assume "p \<in> set (pt_proc (up_proc i f s))"
    then have "p \<in> insert (f (proc_at s i)) (set (pt_proc s))"
      using set_update_subset_insert [of "pt_proc s" i "f (proc_at s i)"] by (simp only: up_proc_table) (rule subsetD)
    then consider "p = f (proc_at s i)" | "p \<in> set (pt_proc s)" by (simp only: insert_iff) (elim disjE)
    then show "p_state p = SLEEPING \<longrightarrow> p_chan p \<noteq> ch"
    proof cases
      case 1
      have "p_state (proc_at s i) = SLEEPING \<longrightarrow> p_chan (proc_at s i) \<noteq> ch" using assms(1) True by (simp add: nobody_on_def)
      then show ?thesis using assms(2) [of "proc_at s i"] 1 by simp
    next
      case 2
      then show ?thesis using assms(1) by (simp add: nobody_on_def)
    qed
  qed
next
  case False
  then show ?thesis using assms(1) by (simp add: nobody_on_def list_update_beyond)
qed

definition only_table :: "'a pstate_scheme \<Rightarrow> 'a pstate_scheme \<Rightarrow> bool" where
  "only_table s t \<longleftrightarrow> (\<exists>x. t = s\<lparr>pt_proc := x\<rparr>)"

lemma only_tableD:
  assumes "only_table s t"
  shows "pt_initproc t = pt_initproc s" "cpu_ok t = cpu_ok s" "holds l t = holds l s" "ncli t = ncli s" "cur t = cur s"
    "pt_nextpid t = pt_nextpid s" "only_table t u \<Longrightarrow> only_table s u"
  using assms by (auto simp: only_table_def)

lemma only_table_ops: "only_table s s" "only_table s (woke ch s)" "only_table s (up_proc i f s)"
proof -
  show "only_table s s" unfolding only_table_def by (rule exI [of _ "pt_proc s"]) simp
  show "only_table s (woke ch s)" "only_table s (up_proc i f s)" unfolding only_table_def woke_def up_proc_def by blast+
qed

lemma adopted_keeps:
  shows "nobody_on ch s \<Longrightarrow> nobody_on ch (adopted me i s)" and "only_table s (adopted me i s)"
proof -
  show "nobody_on ch (adopted me i s)" if "nobody_on ch s"
    using that by (auto simp: adopted_def Let_def intro!: nobody_on_woke(2) nobody_on_up_proc)
  show "only_table s (adopted me i s)"
    by (auto simp: adopted_def Let_def intro: only_table_ops only_tableD(7) [OF only_table_ops(3) only_table_ops(2)])
qed

lemma adopted_zombie:
  assumes "k < length (pt_proc t)" and "p_parent (proc_at t k) = Some me" and "p_state (proc_at t k) = ZOMBIE"
  shows "nobody_on (map_option ChProc (pt_initproc t)) (adopted me k t)"
  using assms nobody_on_woke(1) by (simp add: adopted_def Let_def)

lemma pt_inv_woke: "pt_inv t \<Longrightarrow> pt_inv (woke ch t)"
  unfolding woke_def using slot_step_woken by (intro pt_inv_map) (auto simp: woken_def)

lemma pt_inv_adopted:
  assumes "pt_inv s" and "i < NPROC"
  shows "pt_inv (adopted me i s)"
proof -
  have "pt_inv (up_proc i (\<lambda>p. p\<lparr>p_parent := pt_initproc s\<rparr>) s)"
    using assms pt_inv_proc [OF assms] by (intro pt_inv_up_proc) (auto simp: slot_step_def proc_ok_def)
  then show ?thesis using assms(1) by (auto simp: adopted_def Let_def intro!: pt_inv_woke)
qed

lemma passed_trans: "passed a p q \<Longrightarrow> passed b q r \<Longrightarrow> passed b p r"
  by (auto simp: passed_def maybe_woken_def)

lemma passedD:
  assumes "passed a p q"
  shows "p_parent q = a" "p_pid q = p_pid p" "p_chan q = p_chan p" "p_state q = p_state p \<or> p_state p = SLEEPING \<and> p_state q = RUNNABLE"
  using assms by (auto simp: passed_def maybe_woken_def)

lemma passed_woken: "passed a p q \<Longrightarrow> passed a p (woken ch q)"
  unfolding passed_def using maybe_woken_trans maybe_woken_woken by blast

lemma adopted_slot:
  assumes "j < length (pt_proc s)"
  shows "passed (if i = j \<and> p_parent (proc_at s j) = Some me then pt_initproc s else p_parent (proc_at s j))
    (proc_at s j) (proc_at (adopted me i s) j)"
proof -
  let ?u = "up_proc i (\<lambda>p. p\<lparr>p_parent := pt_initproc s\<rparr>) s"
  have u: "passed (if i = j then pt_initproc s else p_parent (proc_at s j)) (proc_at s j) (proc_at ?u j)"
    using assms by (simp add: passed_def nth_list_update)
  have w: "passed (if i = j then pt_initproc s else p_parent (proc_at s j)) (proc_at s j) (proc_at (woke ch ?u) j)" for ch
    using passed_woken [OF u] assms by (simp add: woke_def)
  show ?thesis
  proof (cases "p_parent (proc_at s i) = Some me")
    case True
    then have eq: "(if i = j \<and> p_parent (proc_at s j) = Some me then pt_initproc s else p_parent (proc_at s j)) =
        (if i = j then pt_initproc s else p_parent (proc_at s j))" by auto
    have "adopted me i s = ?u \<or> adopted me i s = woke (map_option ChProc (pt_initproc s)) ?u"
      using True by (simp add: adopted_def Let_def)
    then show ?thesis unfolding eq by (elim disjE) (simp_all only: u w)
  next
    case False
    then show ?thesis by (auto simp: adopted_def passed_def)
  qed
qed

lemma adopted_all:
  fixes me :: nat and s :: "'a pstate_scheme"
  assumes "pt_inv s" and "k \<le> NPROC"
  defines "t \<equiv> fold (adopted me) [0..<k] s"
  shows "only_table s t \<and> pt_inv t \<and> (\<forall>ch. nobody_on ch s \<longrightarrow> nobody_on ch t) \<and>
    (\<forall>j<NPROC. passed (if j < k \<and> p_parent (proc_at s j) = Some me then pt_initproc s else p_parent (proc_at s j))
      (proc_at s j) (proc_at t j)) \<and>
    ((\<exists>z<k. p_parent (proc_at s z) = Some me \<and> p_state (proc_at s z) = ZOMBIE) \<longrightarrow>
      nobody_on (map_option ChProc (pt_initproc s)) t)"
  using assms(2) unfolding t_def
proof (induction k)
  case 0
  then show ?case using assms(1) only_table_ops(1) by (simp add: passed_def)
next
  case (Suc k)
  let ?t = "fold (adopted me) [0..<k] s" and ?u = "fold (adopted me) [0..<Suc k] s"
  let ?par = "\<lambda>k j. if j < k \<and> p_parent (proc_at s j) = Some me then pt_initproc s else p_parent (proc_at s j)"
  have u: "?u = adopted me k ?t" by simp
  have IH: "only_table s ?t" "pt_inv ?t" "\<And>ch. nobody_on ch s \<Longrightarrow> nobody_on ch ?t"
      "\<And>j. j < NPROC \<Longrightarrow> passed (?par k j) (proc_at s j) (proc_at ?t j)"
      "(\<exists>z<k. p_parent (proc_at s z) = Some me \<and> p_state (proc_at s z) = ZOMBIE) \<Longrightarrow> nobody_on (map_option ChProc (pt_initproc s)) ?t"
    using Suc.IH [OF Suc_leD [OF Suc.prems]] by blast+
  have ini: "pt_initproc ?t = pt_initproc s" by (rule only_tableD(1) [OF IH(1)])
  have len: "length (pt_proc ?t) = NPROC" by (rule pt_inv_length [OF IH(2)])
  have k: "p_parent (proc_at ?t k) = p_parent (proc_at s k)" "p_state (proc_at s k) = ZOMBIE \<Longrightarrow> p_state (proc_at ?t k) = ZOMBIE"
    using passedD [OF IH(4) [of k]] Suc.prems by auto
  have slots: "passed (?par (Suc k) j) (proc_at s j) (proc_at ?u j)" if "j < NPROC" for j
  proof -
    have step: "passed (if k = j \<and> p_parent (proc_at ?t j) = Some me then pt_initproc ?t else p_parent (proc_at ?t j))
        (proc_at ?t j) (proc_at ?u j)"
      unfolding u using that len by (intro adopted_slot) simp
    have eq: "(if k = j \<and> p_parent (proc_at ?t j) = Some me then pt_initproc ?t else p_parent (proc_at ?t j)) = ?par (Suc k) j"
      using passedD(1) [OF IH(4) [OF that]] k(1) ini by (auto simp: less_Suc_eq)
    show ?thesis using passed_trans [OF IH(4) [OF that] step] unfolding eq .
  qed
  have zombie: "nobody_on (map_option ChProc (pt_initproc s)) ?u"
    if "\<exists>z<Suc k. p_parent (proc_at s z) = Some me \<and> p_state (proc_at s z) = ZOMBIE"
  proof (cases "\<exists>z<k. p_parent (proc_at s z) = Some me \<and> p_state (proc_at s z) = ZOMBIE")
    case True
    then show ?thesis using adopted_keeps(1) [OF IH(5)] unfolding u by blast
  next
    case False
    then have "p_parent (proc_at s k) = Some me \<and> p_state (proc_at s k) = ZOMBIE" using that less_Suc_eq by metis
    then show ?thesis unfolding u using adopted_zombie [of k ?t me] k ini len Suc.prems by simp
  qed
  have "only_table s ?u" unfolding u using only_tableD(7) [OF IH(1)] adopted_keeps(2) by blast
  moreover have "pt_inv ?u" unfolding u using pt_inv_adopted [OF IH(2)] Suc.prems by simp
  moreover have "nobody_on ch ?u" if "nobody_on ch s" for ch unfolding u by (rule adopted_keeps(1) [OF IH(3) [OF that]])
  ultimately show ?case using slots zombie by blast
qed

text \<open>What \<^verbatim>\<open>exit\<close> does under the table lock before it gives up the CPU.\<close>

lemma leave_head:
  assumes "in_proc me s" and "lk_locked (m_locks s LPtable) = 0"
  shows "leave me s rs = kseq sched (panic ''zombie exit'') (up_proc me (\<lambda>p. p\<lparr>p_state := ZOMBIE\<rparr>)
    (fold (adopted me) [0..<NPROC] (woke (map_option ChProc (p_parent (proc_at s me))) (acquired LPtable s)))) rs"
proof -
  note p = in_procD [OF assms(1)]
  let ?a = "acquired LPtable s" and ?ch = "map_option ChProc (p_parent (proc_at s me))"
  let ?w = "woke ?ch ?a"
  let ?t = "fold (adopted me) [0..<NPROC] ?w"
  have loop: "kfor [0..<NPROC] (adopt me) ?w rs = Ret () ?t rs" for rs by (rule kfor_pure) (rule adopt_run)
  have wk: "kget (\<lambda>s. wakeup1 (map_option ChProc (p_parent (proc_at s me)))) ?a rs = Ret () ?w rs" for rs
    by (simp add: wakeup1_def woke_def)
  note acq = kseq_simps(1) [where m = "acquire LPtable" and s = s, OF acquire_run [OF p(1) assms(2)]]
  note wk' = kseq_simps(1) [where m = "kget (\<lambda>s. wakeup1 (map_option ChProc (p_parent (proc_at s me))))" and s = ?a, OF wk]
  note loop' = kseq_simps(1) [where m = "kfor [0..<NPROC] (adopt me)" and s = ?w, OF loop]
  show ?thesis
    unfolding leave_def
    by (simp only: acq wk' loop')
      (simp del: fold_simps upt.simps)
qed

text \<open>C12: The end of \<^verbatim>\<open>exit\<close>: the process gives up the CPU as a zombie with the table lock as its only lock; every child it had
  belongs to \<^verbatim>\<open>init\<close> and no other parent changes; nobody sleeps on in \<^verbatim>\<open>wait\<close> who should look for the zombies, neither its
  parent nor, when it leaves zombie children, \<^verbatim>\<open>init\<close>; the process table stays well formed. Should the process ever
  be resumed, the kernel panics.\<close>

theorem exit_leaves_a_zombie:
  assumes "in_proc me s" and "ncli s = 0" and "lk_locked (m_locks s LPtable) = 0"
  shows "\<exists>t. leave me s [] = Block t \<and> holds LPtable t \<and> ncli t = 1 \<and> pt_inv t \<and> p_state (proc_at t me) = ZOMBIE \<and>
    (\<forall>j<NPROC. p_pid (proc_at t j) = p_pid (proc_at s j) \<and>
      p_parent (proc_at t j) = (if p_parent (proc_at s j) = Some me then pt_initproc s else p_parent (proc_at s j))) \<and>
    nobody_on (map_option ChProc (p_parent (proc_at s me))) t \<and>
    ((\<exists>z<NPROC. p_parent (proc_at s z) = Some me \<and> p_state (proc_at s z) = ZOMBIE) \<longrightarrow>
      nobody_on (map_option ChProc (pt_initproc s)) t) \<and>
    (\<forall>r rs. self r \<noteq> None \<and> \<not> m_if r \<longrightarrow> leave me s (r # rs) = Panic ''zombie exit'' (switched t r))"
proof -
  note p = in_procD [OF assms(1)]
  let ?a = "acquired LPtable s" and ?ch = "map_option ChProc (p_parent (proc_at s me))"
  let ?w = "woke ?ch ?a"
  let ?t = "fold (adopted me) [0..<NPROC] ?w"
  let ?z = "up_proc me (\<lambda>p. p\<lparr>p_state := ZOMBIE\<rparr>) ?t"
  have nw: "nobody_on ?ch ?w" by (rule nobody_on_woke(1))
  have w: "pt_inv ?w" "pt_initproc ?w = pt_initproc s" "pt_proc ?w = map (woken ?ch) (pt_proc s)"
      "cpu_ok ?w" "holds LPtable ?w" "ncli ?w = 1" "cur ?w = Some me"
    using p assms(2) pt_inv_woke [of ?a ?ch] by (simp_all add: woke_def)
  have A: "only_table ?w ?t" "pt_inv ?t" "nobody_on ?ch ?t"
      "\<And>j. j < NPROC \<Longrightarrow> passed (if j < NPROC \<and> p_parent (proc_at ?w j) = Some me then pt_initproc s else p_parent (proc_at ?w j)) (proc_at ?w j) (proc_at ?t j)"
      "(\<exists>z<NPROC. p_parent (proc_at ?w z) = Some me \<and> p_state (proc_at ?w z) = ZOMBIE) \<Longrightarrow> nobody_on (map_option ChProc (pt_initproc s)) ?t"
    using adopted_all [OF w(1) order_refl, of me, unfolded w(2)] nw by blast+
  have pw: "p_parent (proc_at ?w j) = p_parent (proc_at s j)" "p_pid (proc_at ?w j) = p_pid (proc_at s j)"
      "p_state (proc_at s j) = ZOMBIE \<Longrightarrow> p_state (proc_at ?w j) = ZOMBIE" "p_state (proc_at s j) = RUNNING \<Longrightarrow> p_state (proc_at ?w j) = RUNNING"
    if "j < NPROC" for j
    using that p(7) by (simp_all add: w(3) woken_def)
  note F = only_tableD [OF A(1)]
  have len: "length (pt_proc ?t) = NPROC" by (rule pt_inv_length [OF A(2)])
  have run: "p_state (proc_at ?t me) = RUNNING"
    using passedD(4) [OF A(4) [OF p(3)]] pw(4) [OF p(3) p(8)] by auto
  have sw: "may_switch me ?z" using F w p(3) len by (simp add: may_switch_def)
  note head = leave_head [OF assms(1,3)]
  have end_: "leave me s [] = Block ?z" "\<And>r rs. self r \<noteq> None \<and> \<not> m_if r \<Longrightarrow> leave me s (r # rs) = Panic ''zombie exit'' (switched ?z r)"
    using head sched_blocks [OF sw] sched_run [OF sw] by simp_all
  have inv: "pt_inv ?z"
    using A(2) p(3) run pt_inv_proc [OF A(2) p(3)] by (intro pt_inv_up_proc) (auto simp: slot_step_def proc_ok_def)
  have nob: "nobody_on ch ?z" if "nobody_on ch ?t" for ch using that by (intro nobody_on_up_proc) auto
  have slots: "p_pid (proc_at ?z j) = p_pid (proc_at s j) \<and>
      p_parent (proc_at ?z j) = (if p_parent (proc_at s j) = Some me then pt_initproc s else p_parent (proc_at s j))"
    if "j < NPROC" for j
  proof -
    have "p_pid (proc_at ?z j) = p_pid (proc_at ?t j)" "p_parent (proc_at ?z j) = p_parent (proc_at ?t j)"
      using that len p(3) by (simp_all add: nth_list_update)
    then show ?thesis using passedD(1,2) [OF A(4) [OF that]] pw(1,2) [OF that] that by presburger
  qed
  have "nobody_on (map_option ChProc (pt_initproc s)) ?z"
    if "\<exists>z<NPROC. p_parent (proc_at s z) = Some me \<and> p_state (proc_at s z) = ZOMBIE"
    using nob [OF A(5)] that pw(1,3) by metis
  moreover have "holds LPtable ?z" "ncli ?z = 1" "p_state (proc_at ?z me) = ZOMBIE" using F w p(3) len by simp_all
  ultimately show ?thesis using end_ inv nob [OF A(3)] slots by (intro exI [of _ ?z] conjI) blast+
qed

text \<open>The first process exits while the second one is \<^verbatim>\<open>init\<close>.\<close>

definition small_child :: sstate where
  "small_child = small_ss\<lparr>pt_initproc := Some 1\<rparr>"

lemma small_child_ok: "in_proc 0 small_child" "ncli small_child = 0" "lk_locked (m_locks small_child LPtable) = 0"
proof -
  have m: "m_cpus small_child = m_cpus small_ss" "m_lapicid small_child = m_lapicid small_ss" "m_if small_child = m_if small_ss"
      "m_locks small_child = m_locks small_ss"
    by (simp_all add: small_child_def)
  have "pt_inv small_child = pt_inv small_ss" "pt_proc small_child = pt_proc small_ss" by (simp_all add: small_child_def pt_inv_def)
  then show "in_proc 0 small_child" "ncli small_child = 0" "lk_locked (m_locks small_child LPtable) = 0"
    using machine_cong [OF m] small_ss_ok by (simp_all add: in_proc_def m)
qed

theorem exit_leaves_a_zombie_witness:
  "\<exists>t. leave 0 small_child [] = Block t \<and> holds LPtable t \<and> p_state (proc_at t 0) = ZOMBIE \<and> pt_inv t"
  using exit_leaves_a_zombie [OF small_child_ok] by blast

end
