(* ===== verification/Sysfile.thy ===== *)
theory Sysfile
  imports Life
begin

unbundle bit_operations_syntax

text \<open>
  The system calls on files, \<^verbatim>\<open>sysfile.c\<close>, with \<^verbatim>\<open>exec\<close> and \<^verbatim>\<open>loaduvm\<close>, the dispatcher of \<^verbatim>\<open>syscall.c\<close> and the
  trap handler of \<^verbatim>\<open>trap.c\<close>. A path argument is the list of characters that \<^verbatim>\<open>fetchstr\<close> found: no memory is shared,
  so the string cannot change while the kernel uses it.
\<close>

section \<open>Descriptors\<close>

definition argfd :: "nat \<Rightarrow> ((nat \<times> nat) option, 'a fstate_scheme) kern" where
  "argfd n = kbind (argint n) (\<lambda>r. case r of None \<Rightarrow> kret None | Some w \<Rightarrow>
     let fd = sint w in
     if fd < 0 \<or> fd \<ge> int NOFILE then kret None else
     kbind cur_proc (\<lambda>i. kget (\<lambda>s. kret (map_option (\<lambda>f. (nat fd, f)) (p_ofile (proc_at s i) ! nat fd)))))"

definition set_ofile :: "nat \<Rightarrow> nat \<Rightarrow> nat option \<Rightarrow> (unit, 'a pstate_scheme) kern" where
  "set_ofile i fd f = kmod (up_proc i (\<lambda>p. p\<lparr>p_ofile := (p_ofile p)[fd := f]\<rparr>))"

definition fdalloc :: "nat \<Rightarrow> (int, 'a pstate_scheme) kern" where
  "fdalloc f = kbind cur_proc (\<lambda>i. kget (\<lambda>s.
     case List.find (\<lambda>fd. p_ofile (proc_at s i) ! fd = None) [0..<NOFILE] of
       Some fd \<Rightarrow> kseq (set_ofile i fd (Some f)) (kret (int fd))
     | None \<Rightarrow> kret (-1)))"

definition sys_dup :: "(int, 'a fstate_scheme) kern" where
  "sys_dup = need (argfd 0) (\<lambda>(_, f). kbind (fdalloc f) (\<lambda>fd.
     if fd < 0 then kret (-1) else kseq (filedup f) (kret fd)))"

definition sys_read :: "(int, 'a fstate_scheme) kern" where
  "sys_read = need (argfd 0) (\<lambda>(_, f). need (argint 2) (\<lambda>n. need (argptr 1 (sint n)) (\<lambda>p.
     fileread f (user_sink p) (sint n))))"

definition sys_write :: "(int, 'a fstate_scheme) kern" where
  "sys_write = need (argfd 0) (\<lambda>(_, f). need (argint 2) (\<lambda>n. need (argptr 1 (sint n)) (\<lambda>p.
     filewrite f (user_source p) (sint n))))"

definition sys_close :: "(int, 'a fstate_scheme) kern" where
  "sys_close = need (argfd 0) (\<lambda>(fd, f).
     kseq (kbind cur_proc (\<lambda>i. set_ofile i fd None)) (
     kseq (fileclose f)
     (kret 0)))"

definition sizeof_stat :: int where "sizeof_stat = 20"

definition sys_fstat :: "(int, 'a fstate_scheme) kern" where
  "sys_fstat = need (argfd 0) (\<lambda>(_, f). need (argptr 1 sizeof_stat) (\<lambda>st. filestat f st))"

section \<open>Links\<close>

definition add_link :: "nat \<Rightarrow> 16 word \<Rightarrow> (unit, 'a istate_scheme) kern" where
  "add_link ip d =
     kseq (kmod (up_inode ip (\<lambda>k. k\<lparr>i_nlink := i_nlink k + d\<rparr>)))
     (iupdate ip)"

definition link_bad :: "nat \<Rightarrow> (int, 'a istate_scheme) kern" where
  "link_bad ip =
     kseq (ilock (Some ip)) (
     kseq (add_link ip (-1)) (
     kseq (iunlockput ip) (
     kseq end_op
     (kret (-1)))))"

definition sys_link :: "(int, 'a fstate_scheme) kern" where
  "sys_link = need (argstr 0) (\<lambda>old. need (argstr 1) (\<lambda>new.
     kseq begin_op (
     kbind (namei old) (\<lambda>r. case r of None \<Rightarrow> kseq end_op (kret (-1)) | Some ip \<Rightarrow>
     kseq (ilock (Some ip)) (
     kget (\<lambda>s. if i_type (inode_at s ip) = T_DIR then kseq (iunlockput ip) (kseq end_op (kret (-1))) else
     kseq (add_link ip 1) (
     kseq (iunlock (Some ip)) (
     kbind (nameiparent new) (\<lambda>r. case r of None \<Rightarrow> link_bad ip | Some (dp, name) \<Rightarrow>
     kseq (ilock (Some dp)) (
     kbind (kget (\<lambda>s. if i_dev (inode_at s dp) \<noteq> i_dev (inode_at s ip) then kret (-1)
       else dirlink dp name (i_inum (inode_at s ip)))) (\<lambda>r.
     if r < 0 then kseq (iunlockput dp) (link_bad ip) else
     kseq (iunlockput dp) (
     kseq (iput ip) (
     kseq end_op
     (kret 0))))))))))))))"

function isdirempty_loop :: "nat \<Rightarrow> nat \<Rightarrow> nat \<Rightarrow> (bool, 'a tstate_scheme) kern" where
  "isdirempty_loop dp sz off =
     (if off < sz then
       kbind (readi dp local_sink (of_nat off) (of_nat sizeof_dirent)) (\<lambda>(r, de).
       if r \<noteq> int sizeof_dirent then panic ''isdirempty: readi''
       else if de_inum de \<noteq> 0 then kret False
       else isdirempty_loop dp sz (off + 16))
     else kret True)"
  by pat_completeness auto

termination isdirempty_loop
  by (relation "measure (\<lambda>(dp, sz, off). sz - off)") auto

declare isdirempty_loop.simps [simp del]

definition isdirempty :: "nat \<Rightarrow> (bool, 'a tstate_scheme) kern" where
  "isdirempty dp = kget (\<lambda>s. isdirempty_loop dp (unat (i_size (inode_at s dp))) (2 * sizeof_dirent))"

abbreviation dot :: "8 word list" where "dot \<equiv> [0x2E]"
abbreviation dotdot :: "8 word list" where "dotdot \<equiv> [0x2E, 0x2E]"

definition unlink_bad :: "nat \<Rightarrow> (int, 'a istate_scheme) kern" where
  "unlink_bad dp = kseq (iunlockput dp) (kseq end_op (kret (-1)))"

text \<open>\<^verbatim>\<open>sys_unlink\<close> once the entry at \<open>off\<close> of \<open>dp\<close> is known to name \<open>ip\<close>.\<close>

definition unlink_entry :: "nat \<Rightarrow> nat \<Rightarrow> 32 word \<Rightarrow> (int, 'a tstate_scheme) kern" where
  "unlink_entry dp ip off =
     kseq (ilock (Some ip)) (
     kget (\<lambda>s. if sint (i_nlink (inode_at s ip)) < 1 then panic ''unlink: nlink < 1'' else
     kbind (if i_type (inode_at s ip) = T_DIR then isdirempty ip else kret True) (\<lambda>ok.
     if \<not> ok then kseq (iunlockput ip) (unlink_bad dp) else
     kbind (writei dp (local_source (replicate sizeof_dirent 0)) off (of_nat sizeof_dirent)) (\<lambda>r.
     if r \<noteq> int sizeof_dirent then panic ''unlink: writei'' else
     kseq (kget (\<lambda>s. kwhen (i_type (inode_at s ip) = T_DIR) (add_link dp (-1)))) (
     kseq (iunlockput dp) (
     kseq (add_link ip (-1)) (
     kseq (iunlockput ip) (
     kseq end_op
     (kret 0)))))))))"

definition sys_unlink :: "(int, 'a fstate_scheme) kern" where
  "sys_unlink = need (argstr 0) (\<lambda>path.
     kseq begin_op (
     kbind (nameiparent path) (\<lambda>r. case r of None \<Rightarrow> kseq end_op (kret (-1)) | Some (dp, name) \<Rightarrow>
     kseq (ilock (Some dp)) (
     if namecmp name dot = 0 \<or> namecmp name dotdot = 0 then unlink_bad dp else
     kbind (dirlookup dp name) (\<lambda>r. case r of None \<Rightarrow> unlink_bad dp | Some (ip, off) \<Rightarrow>
     unlink_entry dp ip off)))))"

section \<open>Creating and opening\<close>

definition create_new :: "nat \<Rightarrow> 8 word list \<Rightarrow> 16 word \<Rightarrow> 16 word \<Rightarrow> 16 word \<Rightarrow> (nat option, 'a tstate_scheme) kern" where
  "create_new dp name type major minor = kget (\<lambda>s.
     kbind (ialloc (i_dev (inode_at s dp)) type) (\<lambda>ip.
     kseq (ilock (Some ip)) (
     kseq (kmod (up_inode ip (\<lambda>k. k\<lparr>i_major := major, i_minor := minor, i_nlink := 1\<rparr>))) (
     kseq (iupdate ip) (
     kseq (kwhen (type = T_DIR) (
       kseq (add_link dp 1) (
       kget (\<lambda>s. kbind (dirlink ip dot (i_inum (inode_at s ip))) (\<lambda>r.
       if r < 0 then panic ''create dots'' else
       kget (\<lambda>s. kbind (dirlink ip dotdot (i_inum (inode_at s dp))) (\<lambda>r.
       kwhen (r < 0) (panic ''create dots'')))))))) (
     kget (\<lambda>s. kbind (dirlink dp name (i_inum (inode_at s ip))) (\<lambda>r.
     if r < 0 then panic ''create: dirlink'' else
     kseq (iunlockput dp)
     (kret (Some ip))))))))))"

definition create :: "8 word list \<Rightarrow> 16 word \<Rightarrow> 16 word \<Rightarrow> 16 word \<Rightarrow> (nat option, 'a tstate_scheme) kern" where
  "create path type major minor =
     kbind (nameiparent path) (\<lambda>r. case r of None \<Rightarrow> kret None | Some (dp, name) \<Rightarrow>
     kseq (ilock (Some dp)) (
     kbind (dirlookup dp name) (\<lambda>r. case r of
       Some (ip, _) \<Rightarrow>
         kseq (iunlockput dp) (
         kseq (ilock (Some ip)) (
         kget (\<lambda>s. if type = T_FILE \<and> i_type (inode_at s ip) = T_FILE then kret (Some ip)
         else kseq (iunlockput ip) (kret None))))
     | None \<Rightarrow> create_new dp name type major minor)))"

definition O_RDONLY :: "32 word" where "O_RDONLY = 0"
definition O_WRONLY :: "32 word" where "O_WRONLY = 1"
definition O_RDWR :: "32 word" where "O_RDWR = 2"
definition O_CREATE :: "32 word" where "O_CREATE = 0x200"

definition truth :: "bool \<Rightarrow> int" where "truth b = (if b then 1 else 0)"

text \<open>The inode to open, locked; \<open>None\<close> when there is none.\<close>

definition open_inode :: "8 word list \<Rightarrow> 32 word \<Rightarrow> (nat option, 'a tstate_scheme) kern" where
  "open_inode path omode =
     (if omode AND O_CREATE \<noteq> 0 then create path T_FILE 0 0
      else kbind (namei path) (\<lambda>r. case r of None \<Rightarrow> kret None | Some ip \<Rightarrow>
        kseq (ilock (Some ip)) (
        kget (\<lambda>s. if i_type (inode_at s ip) = T_DIR \<and> omode \<noteq> O_RDONLY
          then kseq (iunlockput ip) (kret None) else kret (Some ip)))))"

definition sys_open :: "(int, 'a fstate_scheme) kern" where
  "sys_open = need (argstr 0) (\<lambda>path. need (argint 1) (\<lambda>omode.
     kseq begin_op (
     kbind (open_inode path omode) (\<lambda>r. case r of None \<Rightarrow> kseq end_op (kret (-1)) | Some ip \<Rightarrow>
     kbind filealloc (\<lambda>r. case r of
       None \<Rightarrow> kseq (iunlockput ip) (kseq end_op (kret (-1)))
     | Some f \<Rightarrow>
         kbind (fdalloc f) (\<lambda>fd.
         if fd < 0 then kseq (fileclose f) (kseq (iunlockput ip) (kseq end_op (kret (-1)))) else
         kseq (iunlock (Some ip)) (
         kseq end_op (
         kseq (kmod (up_file f (\<lambda>k. k\<lparr>f_type := FD_INODE, f_ip := Some ip, f_off := 0,
           f_readable := truth (omode AND O_WRONLY = 0),
           f_writable := truth (omode AND O_WRONLY \<noteq> 0 \<or> omode AND O_RDWR \<noteq> 0)\<rparr>)))
         (kret fd)))))))))"

definition op_fails :: "(int, 'a lstate_scheme) kern" where
  "op_fails = kseq end_op (kret (-1))"

definition sys_mkdir :: "(int, 'a fstate_scheme) kern" where
  "sys_mkdir =
     kseq begin_op (
     kbind (argstr 0) (\<lambda>r. case r of None \<Rightarrow> op_fails | Some path \<Rightarrow>
     kbind (create path T_DIR 0 0) (\<lambda>r. case r of None \<Rightarrow> op_fails | Some ip \<Rightarrow>
     kseq (iunlockput ip) (
     kseq end_op
     (kret 0)))))"

definition sys_mknod :: "(int, 'a fstate_scheme) kern" where
  "sys_mknod =
     kseq begin_op (
     kbind (argstr 0) (\<lambda>r. case r of None \<Rightarrow> op_fails | Some path \<Rightarrow>
     kbind (argint 1) (\<lambda>r. case r of None \<Rightarrow> op_fails | Some major \<Rightarrow>
     kbind (argint 2) (\<lambda>r. case r of None \<Rightarrow> op_fails | Some minor \<Rightarrow>
     kbind (create path T_DEV (ucast major) (ucast minor)) (\<lambda>r. case r of None \<Rightarrow> op_fails | Some ip \<Rightarrow>
     kseq (iunlockput ip) (
     kseq end_op
     (kret 0)))))))"

definition sys_chdir :: "(int, 'a fstate_scheme) kern" where
  "sys_chdir =
     kbind cur_proc (\<lambda>i.
     kseq begin_op (
     kbind (argstr 0) (\<lambda>r. case r of None \<Rightarrow> op_fails | Some path \<Rightarrow>
     kbind (namei path) (\<lambda>r. case r of None \<Rightarrow> op_fails | Some ip \<Rightarrow>
     kseq (ilock (Some ip)) (
     kget (\<lambda>s. if i_type (inode_at s ip) \<noteq> T_DIR then kseq (iunlockput ip) op_fails else
     kseq (iunlock (Some ip)) (
     kseq (kget (\<lambda>s. kbind (kopt (p_cwd (proc_at s i))) iput)) (
     kseq end_op (
     kseq (kmod (up_proc i (\<lambda>p. p\<lparr>p_cwd := Some ip\<rparr>)))
     (kret 0))))))))))"

definition sys_pipe :: "(int, 'a fstate_scheme) kern" where
  "sys_pipe = need (argptr 0 8) (\<lambda>fd. need pipealloc (\<lambda>(rf, wf).
     kbind (fdalloc rf) (\<lambda>fd0.
     kbind (if fd0 < 0 then kret (-1) else fdalloc wf) (\<lambda>fd1.
     if fd0 < 0 \<or> fd1 < 0 then
       kseq (kwhen (fd0 \<ge> 0) (kbind cur_proc (\<lambda>i. set_ofile i (nat fd0) None))) (
       kseq (fileclose rf) (
       kseq (fileclose wf)
       (kret (-1))))
     else
       kseq (vstore fd (bytes32 (word_of_int fd0))) (
       kseq (vstore (fd + 4) (bytes32 (word_of_int fd1)))
       (kret 0))))))"

section \<open>Running a program\<close>

definition kern_sink :: "addr \<Rightarrow> 'a machine_scheme sink" where
  "kern_sink a i xs = kmod (\<lambda>s. s\<lparr>m_mem := fold (\<lambda>k m. m(a + of_nat (i + k) := xs ! k)) [0..<length xs] (m_mem s)\<rparr>)"

function loaduvm_loop :: "addr \<Rightarrow> addr \<Rightarrow> nat \<Rightarrow> 32 word \<Rightarrow> nat \<Rightarrow> nat \<Rightarrow> (int, 'a tstate_scheme) kern" where
  "loaduvm_loop pgdir addr ip offset sz i =
     (if i < sz then
       kbind (walkpgdir pgdir (addr + of_nat i) 0) (\<lambda>pte.
       if pte = 0 then panic ''loaduvm: address should exist'' else
       kbind (kload pte) (\<lambda>e.
       kbind (P2V (PTE_ADDR e)) (\<lambda>va.
       let n = (if sz - i < 4096 then sz - i else 4096) in
       kbind (readi ip (kern_sink va) (offset + of_nat i) (of_nat n)) (\<lambda>(r, xs).
       if r \<noteq> int n then kret (-1) else loaduvm_loop pgdir addr ip offset sz (i + 4096)))))
     else kret 0)"
  by pat_completeness auto

termination loaduvm_loop
  by (relation "measure (\<lambda>(pgdir, addr, ip, offset, sz, i). sz - i)") auto

declare loaduvm_loop.simps [simp del]

definition loaduvm :: "addr \<Rightarrow> addr \<Rightarrow> nat \<Rightarrow> 32 word \<Rightarrow> 32 word \<Rightarrow> (int, 'a tstate_scheme) kern" where
  "loaduvm pgdir addr ip offset sz =
     (if addr mod PGSIZE \<noteq> 0 then panic ''loaduvm: addr must be page aligned''
      else loaduvm_loop pgdir addr ip offset (unat sz) 0)"

definition MAXARG :: nat where "MAXARG = 32"
definition ELF_MAGIC :: "32 word" where "ELF_MAGIC = 0x464C457F"
definition ELF_PROG_LOAD :: "32 word" where "ELF_PROG_LOAD = 1"
definition sizeof_elfhdr :: nat where "sizeof_elfhdr = 52"
definition sizeof_proghdr :: nat where "sizeof_proghdr = 32"

abbreviation elf_entry :: "8 word list \<Rightarrow> 32 word" where "elf_entry e \<equiv> get32 24 e"
abbreviation elf_phoff :: "8 word list \<Rightarrow> 32 word" where "elf_phoff e \<equiv> get32 28 e"
abbreviation elf_phnum :: "8 word list \<Rightarrow> 16 word" where "elf_phnum e \<equiv> get16 44 e"
abbreviation ph_type :: "8 word list \<Rightarrow> 32 word" where "ph_type h \<equiv> get32 0 h"
abbreviation ph_off :: "8 word list \<Rightarrow> 32 word" where "ph_off h \<equiv> get32 4 h"
abbreviation ph_vaddr :: "8 word list \<Rightarrow> 32 word" where "ph_vaddr h \<equiv> get32 8 h"
abbreviation ph_filesz :: "8 word list \<Rightarrow> 32 word" where "ph_filesz h \<equiv> get32 16 h"
abbreviation ph_memsz :: "8 word list \<Rightarrow> 32 word" where "ph_memsz h \<equiv> get32 20 h"

text \<open>\<open>None\<close> stands for \<^verbatim>\<open>goto bad\<close>.\<close>

primrec exec_load :: "nat \<Rightarrow> addr \<Rightarrow> nat \<Rightarrow> 32 word \<Rightarrow> 32 word \<Rightarrow> (32 word option, 'a tstate_scheme) kern" where
  "exec_load ip pgdir 0 off sz = kret (Some sz)"
| "exec_load ip pgdir (Suc n) off sz =
     kbind (readi ip local_sink off (of_nat sizeof_proghdr)) (\<lambda>(r, ph).
     if r \<noteq> int sizeof_proghdr then kret None
     else if ph_type ph \<noteq> ELF_PROG_LOAD then exec_load ip pgdir n (off + of_nat sizeof_proghdr) sz
     else if ph_memsz ph < ph_filesz ph then kret None
     else if ph_vaddr ph + ph_memsz ph < ph_vaddr ph then kret None
     else kbind (allocuvm pgdir sz (ph_vaddr ph + ph_memsz ph)) (\<lambda>sz.
       if sz = 0 then kret None
       else if ph_vaddr ph mod PGSIZE \<noteq> 0 then kret None
       else kbind (loaduvm pgdir (ph_vaddr ph) ip (ph_off ph) (ph_filesz ph)) (\<lambda>r.
         if r < 0 then kret None else exec_load ip pgdir n (off + of_nat sizeof_proghdr) sz)))"

text \<open>\<^verbatim>\<open>copyout\<close> from a buffer that is given as its bytes.\<close>

function copyout_bytes :: "addr \<Rightarrow> addr \<Rightarrow> 8 word list \<Rightarrow> (int, 'a vmstate_scheme) kern" where
  "copyout_bytes pgdir va xs =
     (if xs \<noteq> [] then
       (let va0 = PGROUNDDOWN va; n = min (length xs) (unat (PGSIZE - (va - va0))) in
        kbind (uva2ka pgdir va0) (\<lambda>pa0. if pa0 = 0 then kret (-1) else
        kseq (kern_sink (pa0 + (va - va0)) 0 (take n xs))
        (copyout_bytes pgdir (va0 + PGSIZE) (drop n xs))))
      else kret 0)"
  by pat_completeness auto

termination copyout_bytes
proof (relation "measure (\<lambda>(pgdir, va, xs). length xs)", simp)
  fix pgdir va :: addr and xs :: "8 word list" and va0 n
  assume xs: "xs \<noteq> []" and va0: "va0 = PGROUNDDOWN va" and n: "n = min (length xs) (unat (PGSIZE - (va - va0)))"
  have "0 < unat (PGSIZE - (va - va0))" unfolding va0 page_rest by simp
  then show "((pgdir, va0 + PGSIZE, drop n xs), pgdir, va, xs) \<in> measure (\<lambda>(pgdir, va, xs). length xs)"
    using xs n by simp
qed

declare copyout_bytes.simps [simp del]

text \<open>
  Pushing the arguments: the stack pointer and the words of \<^verbatim>\<open>ustack\<close> from the fourth on, or \<open>None\<close>. The bound on
  \<^verbatim>\<open>argc\<close> is tested before each push.
\<close>

primrec push_args :: "addr \<Rightarrow> nat \<Rightarrow> 32 word \<Rightarrow> 8 word list list \<Rightarrow> ((32 word \<times> 32 word list) option, 'a vmstate_scheme) kern" where
  "push_args pgdir argc sp [] = kret (Some (sp, []))"
| "push_args pgdir argc sp (x # argv) =
     (if argc \<ge> MAXARG then kret None else
      let sp = (sp - of_nat (length x + 1)) AND NOT 3 in
      kbind (copyout_bytes pgdir sp (x @ [0])) (\<lambda>r. if r < 0 then kret None else
      kbind (push_args pgdir (Suc argc) sp argv) (\<lambda>r.
      kret (map_option (\<lambda>(sp', ws). (sp', sp # ws)) r))))"

definition exec_bad :: "addr \<Rightarrow> nat option \<Rightarrow> (int, 'a tstate_scheme) kern" where
  "exec_bad pgdir p =
     kseq (kwhen (pgdir \<noteq> 0) (freevm pgdir)) (
     kseq (case p of None \<Rightarrow> kret () | Some ip \<Rightarrow> kseq (iunlockput ip) end_op)
     (kret (-1)))"

definition base_name :: "8 word list \<Rightarrow> string" where
  "base_name path = map (\<lambda>b. char_of (unat b)) (take 15 (rev (takeWhile (\<lambda>c. c \<noteq> slash) (rev path))))"

definition exec_commit :: "nat \<Rightarrow> addr \<Rightarrow> 32 word \<Rightarrow> 32 word \<Rightarrow> 32 word \<Rightarrow> string \<Rightarrow> (int, 'a pstate_scheme) kern" where
  "exec_commit i pgdir sz entry sp nm =
     kseq (kmod (up_proc i (\<lambda>p. p\<lparr>p_name := nm\<rparr>))) (
     kget (\<lambda>s. let oldpgdir = p_pgdir (proc_at s i) in
     kseq (kmod (up_proc i (\<lambda>p. p\<lparr>p_pgdir := pgdir, p_sz := sz\<rparr>))) (
     kseq (kget (\<lambda>s. kstore (p_tf (proc_at s i) + tf_eip) entry)) (
     kseq (kget (\<lambda>s. kstore (p_tf (proc_at s i) + tf_esp) sp)) (
     kseq (switchuvm (Some i)) (
     kseq (freevm oldpgdir)
     (kret 0)))))))"

definition exec_stack :: "nat \<Rightarrow> addr \<Rightarrow> 32 word \<Rightarrow> 32 word \<Rightarrow> 8 word list \<Rightarrow> 8 word list list \<Rightarrow> (int, 'a tstate_scheme) kern" where
  "exec_stack i pgdir sz entry path argv =
     (let sz = PGROUNDUP sz in
     kbind (allocuvm pgdir sz (sz + 2 * PGSIZE)) (\<lambda>sz.
     if sz = 0 then exec_bad pgdir None else
     kseq (clearpteu pgdir (sz - 2 * PGSIZE)) (
     kbind (push_args pgdir 0 sz argv) (\<lambda>r. case r of None \<Rightarrow> exec_bad pgdir None | Some (sp, ws) \<Rightarrow>
     let argc = of_nat (length argv);
         ustack = [0xFFFFFFFF, argc, sp - (argc + 1) * 4] @ ws @ [0];
         sp = sp - (3 + argc + 1) * 4 in
     kbind (copyout_bytes pgdir sp (concat (map bytes32 ustack))) (\<lambda>r.
     if r < 0 then exec_bad pgdir None
     else exec_commit i pgdir sz entry sp (base_name path))))))"

definition exec :: "8 word list \<Rightarrow> 8 word list list \<Rightarrow> (int, 'a tstate_scheme) kern" where
  "exec path argv =
     kbind cur_proc (\<lambda>i.
     kseq begin_op (
     kbind (namei path) (\<lambda>r. case r of
       None \<Rightarrow> kseq end_op (kseq (cprintf (''exec: fail'' @ [CHR 0x0A]) []) (kret (-1)))
     | Some ip \<Rightarrow>
       kseq (ilock (Some ip)) (
       kbind (readi ip local_sink 0 (of_nat sizeof_elfhdr)) (\<lambda>(r, elf).
       if r \<noteq> int sizeof_elfhdr \<or> get32 0 elf \<noteq> ELF_MAGIC then exec_bad 0 (Some ip) else
       kbind setupkvm (\<lambda>pgdir. if pgdir = 0 then exec_bad 0 (Some ip) else
       kbind (exec_load ip pgdir (unat (elf_phnum elf)) (elf_phoff elf) 0) (\<lambda>r. case r of
         None \<Rightarrow> exec_bad pgdir (Some ip)
       | Some sz \<Rightarrow>
           kseq (iunlockput ip) (
           kseq end_op
           (exec_stack i pgdir sz (elf_entry elf) path argv)))))))))"

primrec fetch_argv :: "nat \<Rightarrow> addr \<Rightarrow> (8 word list list option, 'a pstate_scheme) kern" where
  "fetch_argv 0 uargv = kret None"
| "fetch_argv (Suc n) uargv =
     kbind (fetchint uargv) (\<lambda>r. case r of None \<Rightarrow> kret None | Some uarg \<Rightarrow>
     if uarg = 0 then kret (Some []) else
     kbind (fetchstr uarg) (\<lambda>r. case r of None \<Rightarrow> kret None | Some x \<Rightarrow>
     kbind (fetch_argv n (uargv + 4)) (\<lambda>r. kret (map_option ((#) x) r))))"

definition sys_exec :: "(int, 'a fstate_scheme) kern" where
  "sys_exec = need (argstr 0) (\<lambda>path. need (argint 1) (\<lambda>uargv.
     need (fetch_argv MAXARG uargv) (\<lambda>argv. exec path argv)))"

section \<open>Dispatch\<close>

text \<open>\<^verbatim>\<open>sys_shutdown\<close> writes to an I/O port that ends an emulator and has no effect on the kernel's state.\<close>

definition sys_shutdown :: "(int, 's) kern" where
  "sys_shutdown = kret 0"

definition syscalls :: "(int, 'a fstate_scheme) kern list" where
  "syscalls = [sys_fork, sys_exit, sys_wait, sys_pipe, sys_read, sys_kill, sys_exec, sys_fstat, sys_chdir, sys_dup,
     sys_getpid, sys_sbrk, sys_sleep, sys_uptime, sys_open, sys_write, sys_mknod, sys_unlink, sys_link, sys_mkdir,
     sys_close, sys_yield, sys_shutdown, sys_nicefork, sys_schedlog]"

definition syscall :: "(unit, 'a fstate_scheme) kern" where
  "syscall = kbind cur_proc (\<lambda>i. kget (\<lambda>s.
     kbind (kload (p_tf (proc_at s i) + tf_eax)) (\<lambda>num.
     let table = syscalls in
     kbind (if 0 < sint num \<and> sint num \<le> int (length table) then table ! (nat (sint num) - 1)
       else kseq (cprintf (''%d %s: unknown sys call %d'' @ [CHR 0x0A])
           [AWord (word_of_int (p_pid (proc_at s i))), AStr (Some (p_name (proc_at s i))), AWord num])
         (kret (-1))) (\<lambda>r.
     kget (\<lambda>s. kstore (p_tf (proc_at s i) + tf_eax) (word_of_int r))))))"

end
