(* ===== verification/Trap.thy ===== *)
theory Trap
  imports Sysfile
begin

unbundle bit_operations_syntax

text \<open>
  Interrupts: the keyboard driver \<^verbatim>\<open>kbd.c\<close> with the tables of \<^verbatim>\<open>kbd.h\<close>, the input side of \<^verbatim>\<open>uart.c\<close> and \<^verbatim>\<open>trap\<close>.
  What the devices deliver is an argument: the bytes that wait in the keyboard controller and in the serial port,
  and the register \<^verbatim>\<open>cr2\<close>. Acknowledging an interrupt at the local APIC has no effect on the kernel's state.
\<close>

record kbdstate = fstate +
  kb_shift :: "32 word"

section \<open>Keyboard\<close>

definition SHIFT :: "32 word" where "SHIFT = 1"
definition CTL :: "32 word" where "CTL = 2"
definition ALT :: "32 word" where "ALT = 4"
definition CAPSLOCK :: "32 word" where "CAPSLOCK = 8"
definition NUMLOCK :: "32 word" where "NUMLOCK = 16"
definition SCROLLLOCK :: "32 word" where "SCROLLLOCK = 32"
definition E0ESC :: "32 word" where "E0ESC = 64"

definition entry :: "'b list \<Rightarrow> (nat \<times> 'b) list \<Rightarrow> 'b \<Rightarrow> nat \<Rightarrow> 'b" where
  "entry rows marked no data = (if data < length rows then rows ! data
     else case map_of marked data of None \<Rightarrow> no | Some x \<Rightarrow> x)"

definition shiftcode :: "nat \<Rightarrow> 32 word" where
  "shiftcode = entry [] [(0x1D, CTL), (0x2A, SHIFT), (0x36, SHIFT), (0x38, ALT), (0x9D, CTL), (0xB8, ALT)] 0"

definition togglecode :: "nat \<Rightarrow> 32 word" where
  "togglecode = entry [] [(0x3A, CAPSLOCK), (0x45, NUMLOCK), (0x46, SCROLLLOCK)] 0"

definition special_keys :: "(nat \<times> int) list" where
  "special_keys = [(0xC8, 0xE2), (0xD0, 0xE3), (0xC9, 0xE6), (0xD1, 0xE7), (0xCB, 0xE4), (0xCD, 0xE5),
     (0x97, 0xE0), (0xCF, 0xE1), (0xD2, 0xE8), (0xD3, 0xE9)]"

definition normalmap :: "nat \<Rightarrow> int" where
  "normalmap = entry
    [0, 27, 49, 50, 51, 52, 53, 54,
     55, 56, 57, 48, 45, 61, 8, 9,
     113, 119, 101, 114, 116, 121, 117, 105,
     111, 112, 91, 93, 10, 0, 97, 115,
     100, 102, 103, 104, 106, 107, 108, 59,
     39, 96, 0, 92, 122, 120, 99, 118,
     98, 110, 109, 44, 46, 47, 0, 42,
     0, 32, 0, 0, 0, 0, 0, 0,
     0, 0, 0, 0, 0, 0, 0, 55,
     56, 57, 45, 52, 53, 54, 43, 49,
     50, 51, 48, 46, 0, 0, 0, 0]
    ([(0x9C, 10), (0xB5, 47)] @ special_keys) 0"

definition shiftmap :: "nat \<Rightarrow> int" where
  "shiftmap = entry
    [0, 27, 33, 64, 35, 36, 37, 94,
     38, 42, 40, 41, 95, 43, 8, 9,
     81, 87, 69, 82, 84, 89, 85, 73,
     79, 80, 123, 125, 10, 0, 65, 83,
     68, 70, 71, 72, 74, 75, 76, 58,
     34, 126, 0, 124, 90, 88, 67, 86,
     66, 78, 77, 60, 62, 63, 0, 42,
     0, 32, 0, 0, 0, 0, 0, 0,
     0, 0, 0, 0, 0, 0, 0, 55,
     56, 57, 45, 52, 53, 54, 43, 49,
     50, 51, 48, 46, 0, 0, 0, 0]
    ([(0x9C, 10), (0xB5, 47)] @ special_keys) 0"

text \<open>\<^verbatim>\<open>C('/')\<close> is negative and becomes 239 in an unsigned character.\<close>

definition ctlmap :: "nat \<Rightarrow> int" where
  "ctlmap = entry
    [0, 0, 0, 0, 0, 0, 0, 0,
     0, 0, 0, 0, 0, 0, 0, 0,
     17, 23, 5, 18, 20, 25, 21, 9,
     15, 16, 0, 0, 13, 0, 1, 19,
     4, 6, 7, 8, 10, 11, 12, 0,
     0, 0, 0, 28, 26, 24, 3, 22,
     2, 14, 13, 0, 0, 239, 0, 0]
    ([(0x9C, 13), (0xB5, 239)] @ special_keys) 0"

definition charcode :: "32 word \<Rightarrow> nat \<Rightarrow> int" where
  "charcode k = (if k = 0 then normalmap else if k = 1 then shiftmap else ctlmap)"

text \<open>\<^verbatim>\<open>kbdgetc\<close> with the data byte that waits: the character and the new value of \<^verbatim>\<open>shift\<close>.\<close>

definition swap_case :: "int \<Rightarrow> int" where
  "swap_case c = (if 97 \<le> c \<and> c \<le> 122 then c - 32 else if 65 \<le> c \<and> c \<le> 90 then c + 32 else c)"

definition kbd_press :: "32 word \<Rightarrow> 32 word \<Rightarrow> int \<times> 32 word" where
  "kbd_press shift data =
     (let shift = (shift OR shiftcode (unat data)) XOR togglecode (unat data);
          c = charcode (shift AND (CTL OR SHIFT)) (unat data) in
      (if shift AND CAPSLOCK \<noteq> 0 then swap_case c else c, shift))"

definition kbdgetc :: "32 word \<Rightarrow> 8 word \<Rightarrow> int \<times> 32 word" where
  "kbdgetc shift byte = (let data = ucast byte :: 32 word in
     if data = 0xE0 then (0, shift OR E0ESC)
     else if data AND 0x80 \<noteq> 0 then
       (let data = (if shift AND E0ESC \<noteq> 0 then data else data AND 0x7F) in
        (0, shift AND NOT (shiftcode (unat data) OR E0ESC)))
     else if shift AND E0ESC \<noteq> 0 then kbd_press (shift AND NOT E0ESC) (data OR 0x80)
     else kbd_press shift data)"

primrec kbd_chars :: "32 word \<Rightarrow> 8 word list \<Rightarrow> int list \<times> 32 word" where
  "kbd_chars shift [] = ([], shift)"
| "kbd_chars shift (b # bs) = (let (c, shift) = kbdgetc shift b; (cs, shift) = kbd_chars shift bs in (c # cs, shift))"

definition kbdintr :: "8 word list \<Rightarrow> (unit, 'a kbdstate_scheme) kern" where
  "kbdintr bytes = kget (\<lambda>s. let (cs, shift) = kbd_chars (kb_shift s) bytes in
     kseq (kmod (\<lambda>s. s\<lparr>kb_shift := shift\<rparr>))
     (consoleintr cs))"

section \<open>Serial line\<close>

text \<open>\<open>status\<close> is what the line status register reads.\<close>

definition uartinit :: "8 word \<Rightarrow> (unit, 'a constate_scheme) kern" where
  "uartinit status =
     (if status = 0xFF then kret () else
      kseq (kmod (\<lambda>s. s\<lparr>uart_present := 1\<rparr>))
      (kfor (''xv6...'' @ [CHR 0x0A]) (\<lambda>c. uartputc (of_char c))))"

definition uartintr :: "8 word list \<Rightarrow> (unit, 'a tstate_scheme) kern" where
  "uartintr bytes = kget (\<lambda>s. consoleintr (if uart_present s = 0 then [] else map uint bytes))"

section \<open>Traps\<close>

definition T_SYSCALL :: "32 word" where "T_SYSCALL = 64"
definition T_IRQ0 :: "32 word" where "T_IRQ0 = 32"
definition IRQ_TIMER :: "32 word" where "IRQ_TIMER = 0"
definition IRQ_KBD :: "32 word" where "IRQ_KBD = 1"
definition IRQ_COM1 :: "32 word" where "IRQ_COM1 = 4"
definition IRQ_IDE :: "32 word" where "IRQ_IDE = 14"
definition IRQ_SPURIOUS :: "32 word" where "IRQ_SPURIOUS = 31"

definition timer_tick :: "(unit, 'a pstate_scheme) kern" where
  "timer_tick = kbind cpuid (\<lambda>c. kwhen (c = 0) (
     kseq (acquire LTicks) (
     kseq (kmod (\<lambda>s. s\<lparr>pt_ticks := pt_ticks s + 1\<rparr>)) (
     kseq (wakeup (Some ChTicks))
     (release LTicks)))))"

text \<open>The default case: a fault of the kernel, or of a process, which is then killed.\<close>

definition trap_fault :: "addr \<Rightarrow> 32 word \<Rightarrow> (unit, 'a pstate_scheme) kern" where
  "trap_fault tf cr2 =
     kbind (kload (tf + tf_trapno)) (\<lambda>trapno. kbind (kload (tf + tf_eip)) (\<lambda>eip.
     kbind (kload (tf + tf_cs)) (\<lambda>cs. kbind (kload (tf + tf_err)) (\<lambda>err.
     kbind myproc (\<lambda>p. kbind cpuid (\<lambda>c.
     if p = None \<or> cs AND 3 = 0 then
       kseq (cprintf (''unexpected trap %d from cpu %d eip %x (cr2=0x%x)'' @ [CHR 0x0A])
         [AWord trapno, AWord (of_nat c), AWord eip, AWord cr2])
       (panic ''trap'')
     else
       kbind (kptr p) (\<lambda>i.
       kseq (kget (\<lambda>s. cprintf (''pid %d %s: trap %d err %d on cpu %d eip 0x%x addr 0x%x--kill proc'' @ [CHR 0x0A])
         [AWord (word_of_int (p_pid (proc_at s i))), AStr (Some (p_name (proc_at s i))), AWord trapno, AWord err,
          AWord (of_nat c), AWord eip, AWord cr2]))
       (kmod (up_proc i (\<lambda>p. p\<lparr>p_killed := 1\<rparr>))))))))))"

definition trap_spurious :: "addr \<Rightarrow> (unit, 'a pstate_scheme) kern" where
  "trap_spurious tf =
     kbind cpuid (\<lambda>c. kbind (kload (tf + tf_cs)) (\<lambda>cs. kbind (kload (tf + tf_eip)) (\<lambda>eip.
     cprintf (''cpu%d: spurious interrupt at %x:%x'' @ [CHR 0x0A]) [AWord (of_nat c), AWord (cs AND 0xFFFF), AWord eip])))"

text \<open>A killed process that was in user mode ends here.\<close>

definition trap_exit :: "addr \<Rightarrow> (unit, 'a fstate_scheme) kern" where
  "trap_exit tf = kbind myproc (\<lambda>p. case p of None \<Rightarrow> kret () | Some _ \<Rightarrow>
     kbind (kptr p) (\<lambda>i. kbind (kload (tf + tf_cs)) (\<lambda>cs. kget (\<lambda>s.
     kwhen (p_killed (proc_at s i) \<noteq> 0 \<and> cs AND 3 = DPL_USER) exit))))"

text \<open>
  The clock charges the running process and takes the processor from it when its quantum is used up. The scheduler refills
  \<^verbatim>\<open>ticks_left\<close> whenever it is not positive, so that the decrement, written here without the width of \<^verbatim>\<open>int\<close>, starts from
  a positive value for every process that the scheduler has put on a CPU and cannot overflow.
\<close>

definition trap_quantum :: "32 word \<Rightarrow> (unit, 'a pstate_scheme) kern" where
  "trap_quantum trapno = kbind myproc (\<lambda>p. case p of None \<Rightarrow> kret () | Some _ \<Rightarrow>
     kbind (kptr p) (\<lambda>i. kget (\<lambda>s.
     kwhen (p_state (proc_at s i) = RUNNING \<and> trapno = T_IRQ0 + IRQ_TIMER) (
       kseq (kmod (up_proc i (\<lambda>p. p\<lparr>p_ticks_left := p_ticks_left p - 1\<rparr>)))
       (kget (\<lambda>s. kwhen (p_ticks_left (proc_at s i) = 0) yield))))))"

definition trap_syscall :: "addr \<Rightarrow> (unit, 'a fstate_scheme) kern" where
  "trap_syscall tf =
     kseq (kbind killed (\<lambda>k. kwhen k exit)) (
     kseq (kbind cur_proc (\<lambda>i. kmod (up_proc i (\<lambda>p. p\<lparr>p_tf := tf\<rparr>)))) (
     kseq syscall
     (kbind killed (\<lambda>k. kwhen k exit))))"

definition trap :: "addr \<Rightarrow> 8 word list \<Rightarrow> 8 word list \<Rightarrow> 32 word \<Rightarrow> (unit, 'a kbdstate_scheme) kern" where
  "trap tf kbd com cr2 = kbind (kload (tf + tf_trapno)) (\<lambda>trapno.
     if trapno = T_SYSCALL then trap_syscall tf else
     kseq (if trapno = T_IRQ0 + IRQ_TIMER then timer_tick
       else if trapno = T_IRQ0 + IRQ_IDE then ideintr
       else if trapno = T_IRQ0 + IRQ_IDE + 1 then kret ()
       else if trapno = T_IRQ0 + IRQ_KBD then kbdintr kbd
       else if trapno = T_IRQ0 + IRQ_COM1 then uartintr com
       else if trapno = T_IRQ0 + 7 \<or> trapno = T_IRQ0 + IRQ_SPURIOUS then trap_spurious tf
       else trap_fault tf cr2) (
     kseq (trap_exit tf) (
     kseq (trap_quantum trapno)
     (trap_exit tf))))"

section \<open>The quantum\<close>

definition charged :: "proc \<Rightarrow> proc" where
  "charged p = p\<lparr>p_ticks_left := p_ticks_left p - 1\<rparr>"

lemma charged_in_proc:
  assumes "in_proc i s"
  shows "in_proc i (up_proc i charged (popped (pushed s)))"
proof -
  note p = in_procD [OF assms]
  have same: "same_locks s (popped (pushed s))" by (rule pushed_popped_locks [OF p(1)])
  have "cpu_ok (popped (pushed s))" by (rule same_locks_ok [OF same p(1)])
  moreover have "pt_inv (up_proc i charged (popped (pushed s)))"
    using p by (intro pt_inv_up_proc) (auto simp: slot_step_def proc_ok_def charged_def)
  ultimately show ?thesis using p by (simp add: in_proc_def charged_def)
qed

lemma quantum_head:
  assumes "in_proc i s"
  shows "trap_quantum (T_IRQ0 + IRQ_TIMER) s rs =
    (if p_ticks_left (proc_at s i) = 1 then yield else kret ()) (up_proc i charged (popped (pushed s))) rs"
proof -
  let ?s = "popped (pushed s)" and ?u = "up_proc i charged (popped (pushed s))"
  note p = in_procD(1,2,4,8) [OF assms]
  have eq: "(\<lambda>p. p\<lparr>p_ticks_left := p_ticks_left p - 1\<rparr>) = charged" by (rule ext) (simp add: charged_def)
  have s: "i < length (pt_proc ?s)" "p_state (proc_at ?s i) = RUNNING" using p by simp_all
  have u: "p_ticks_left (proc_at ?u i) = 0 \<longleftrightarrow> p_ticks_left (proc_at s i) = 1" using p(3) by (simp add: charged_def)
  have my: "myproc s rs = Ret (Some i) ?s rs" using myproc_run [OF p(1)] p(2) by simp
  show ?thesis
    unfolding trap_quantum_def eq
    by (simp only: kbind_simps(1) [where m = myproc and s = s, OF my] option.case
        kbind_simps(1) [where m = "kptr (Some i)" and s = ?s, OF kptr_run [OF s(1)]] kprim_simps kwhen_def s(2) simp_thms if_True
        kseq_simps(1) [where m = "kmod (up_proc i charged)" and s = ?s and s' = ?u, OF kprim_simps(3)] u)
qed

text \<open>C13: A clock interrupt takes one tick from the quantum of the running process and lets it go on, until the last tick:
  then the process gives up the CPU, runnable, with a new virtual deadline, and the table well formed. Other
  interrupts leave the table alone.\<close>

theorem quantum_preempts:
  assumes "in_proc i s" and "ncli s = 0" and "lk_locked (m_locks s LPtable) = 0"
  shows "(p_ticks_left (proc_at s i) \<noteq> 1 \<longrightarrow> (\<exists>s'. trap_quantum (T_IRQ0 + IRQ_TIMER) s rs = Ret () s' rs \<and> in_proc i s' \<and>
      p_ticks_left (proc_at s' i) = p_ticks_left (proc_at s i) - 1)) \<and>
    (p_ticks_left (proc_at s i) = 1 \<longrightarrow> (\<exists>t. trap_quantum (T_IRQ0 + IRQ_TIMER) s [] = Block t \<and> holds LPtable t \<and> pt_inv t \<and>
      p_state (proc_at t i) = RUNNABLE \<and> p_vdeadline (proc_at t i) = deadline (pt_ticks s) (p_niceness (proc_at s i)))) \<and>
    (trapno \<noteq> T_IRQ0 + IRQ_TIMER \<longrightarrow> (\<exists>s'. trap_quantum trapno s rs = Ret () s' rs \<and> pt_proc s' = pt_proc s))"
proof (intro conjI impI)
  note p = in_procD [OF assms(1)]
  let ?u = "up_proc i charged (popped (pushed s))"
  have u: "in_proc i ?u" by (rule charged_in_proc [OF assms(1)])
  have tick: "p_ticks_left (proc_at ?u i) = p_ticks_left (proc_at s i) - 1" "p_niceness (proc_at ?u i) = p_niceness (proc_at s i)"
      "pt_ticks ?u = pt_ticks s"
    using p(4) by (simp_all add: charged_def)
  have locks: "ncli ?u = 0" "lk_locked (m_locks ?u LPtable) = 0"
    using pushed_popped_locks [OF p(1)] assms(2,3) by (simp_all add: same_locks_def)
  show "\<exists>s'. trap_quantum (T_IRQ0 + IRQ_TIMER) s rs = Ret () s' rs \<and> in_proc i s' \<and>
      p_ticks_left (proc_at s' i) = p_ticks_left (proc_at s i) - 1" if "p_ticks_left (proc_at s i) \<noteq> 1"
    using that u tick(1) by (simp add: quantum_head [OF assms(1)] del: up_proc_table)
  show "\<exists>t. trap_quantum (T_IRQ0 + IRQ_TIMER) s [] = Block t \<and> holds LPtable t \<and> pt_inv t \<and>
      p_state (proc_at t i) = RUNNABLE \<and> p_vdeadline (proc_at t i) = deadline (pt_ticks s) (p_niceness (proc_at s i))"
    if "p_ticks_left (proc_at s i) = 1"
  proof -
    have "p_state (proc_at (left_cpu i ?u) i) = RUNNABLE"
        "p_vdeadline (proc_at (left_cpu i ?u) i) = deadline (pt_ticks s) (p_niceness (proc_at s i))"
      using p(4) tick that by (simp_all add: left_cpu_def requeued_def charged_def)
    then show ?thesis
      using left_cpu_switch [OF u locks(1)] yield_run(1) [OF u locks] that
      by (auto simp: quantum_head [OF assms(1)] may_switch_def)
  qed
  show "\<exists>s'. trap_quantum trapno s rs = Ret () s' rs \<and> pt_proc s' = pt_proc s" if "trapno \<noteq> T_IRQ0 + IRQ_TIMER"
    using that p by (simp add: trap_quantum_def myproc_run kptr_run)
qed

definition small_last_tick :: sstate where
  "small_last_tick = up_proc 0 (\<lambda>p. p\<lparr>p_ticks_left := 1\<rparr>) small_child"

lemma small_last_tick_ok: "in_proc 0 small_last_tick" "ncli small_last_tick = 0" "lk_locked (m_locks small_last_tick LPtable) = 0"
proof -
  note p = in_procD [OF small_child_ok(1)]
  have "pt_inv small_last_tick"
    unfolding small_last_tick_def using p by (intro pt_inv_up_proc) (auto simp: slot_step_def proc_ok_def)
  then show "in_proc 0 small_last_tick" "ncli small_last_tick = 0" "lk_locked (m_locks small_last_tick LPtable) = 0"
    using p small_child_ok(2,3) by (simp_all add: small_last_tick_def in_proc_def)
qed

theorem quantum_preempts_witness:
  "\<exists>t. trap_quantum (T_IRQ0 + IRQ_TIMER) small_last_tick [] = Block t \<and> p_state (proc_at t 0) = RUNNABLE"
proof -
  have "p_ticks_left (proc_at small_last_tick 0) = 1"
    using in_procD(4) [OF small_child_ok(1)] by (simp add: small_last_tick_def)
  then show ?thesis using quantum_preempts [OF small_last_tick_ok, of "[]" 0] by blast
qed

end
