(* ===== verification/Spec2Isabelle.thy ===== *)
theory Spec2Isabelle
  imports Scheduler Trap
begin

text \<open>
  A verification library for an xv6 kernel with a scheduler in the style of BFS: runnable processes wait in a skip
  list sorted by virtual deadline, and each CPU runs the process with the earliest one. The sources are the C files under
  \<^verbatim>\<open>src/\<close>; a definition has the name of the function, type or constant it models.

  \<^bold>\<open>The program.\<close> Memory comes from a free list of pages (\<^verbatim>\<open>kalloc.c\<close>) and is mapped through two-level page tables
  (\<^verbatim>\<open>vm.c\<close>). Spin locks (\<^verbatim>\<open>spinlock.c\<close>) protect the shared tables and nest with the interrupt flag of the CPU.
  The process table and the skip list (\<^verbatim>\<open>proc.c\<close>, \<^verbatim>\<open>bfs.h\<close>) are shared by the scheduler loop of each CPU and by the
  system calls; processes wait with \<^verbatim>\<open>sleep\<close> and \<^verbatim>\<open>wakeup\<close>. Sleep locks (\<^verbatim>\<open>sleeplock.c\<close>) protect disk buffers and inodes.
  The file system has the usual layers: disk (\<^verbatim>\<open>ide.c\<close> or \<^verbatim>\<open>memide.c\<close>), buffer cache (\<^verbatim>\<open>bio.c\<close>), redo log (\<^verbatim>\<open>log.c\<close>), inodes,
  directories and paths (\<^verbatim>\<open>fs.c\<close>), open files and pipes (\<^verbatim>\<open>file.c\<close>, \<^verbatim>\<open>pipe.c\<close>), system calls (\<^verbatim>\<open>syscall.c\<close>,
  \<^verbatim>\<open>sysproc.c\<close>, \<^verbatim>\<open>sysfile.c\<close>, \<^verbatim>\<open>exec.c\<close>), and \<^verbatim>\<open>trap.c\<close> on top, with the console, keyboard and serial line.

  \<^bold>\<open>How code becomes definitions.\<close>
  \<^item> The skip list functions are HOL functions in the \<open>option\<close> type, where \<open>None\<close> is a link followed out of the array
    or a loop that does not end. Their loops have no bound in the code and are partial functions, so that returning is
    a theorem. The arguments of debug lines that are switched off are evaluated all the same; where one reads in front
    of the array, \<open>dbg_read\<close> stands for it.
  \<^item> Kernel code is a function of type \<open>('a, 's) kern\<close> from a state and a list of states to an outcome: a result with a new
    state, a panic with its message, \<open>Block\<close>, or undefined behaviour. The list holds the states that the thread finds when
    it is resumed: \<^verbatim>\<open>swtch\<close> and spinning on a lock are the waiting points, and what other CPUs do in between is arbitrary.
    A loop around a waiting point waits once per round, so one round more than there are states to come is enough.
  \<^item> The state is a chain of records, one per component, each extending the one below: \<open>machine\<close> (CPUs, locks, memory),
    \<open>kstate\<close> (free list), \<open>constate\<close> (console), \<open>vmstate\<close> (page directory), \<open>pstate\<close> (process table, skip list, ticks),
    \<open>sstate\<close> (sleep locks), \<open>bstate\<close> (buffers, disk), \<open>lstate\<close> (log), \<open>istate\<close> (inodes), \<open>tstate\<close> (console input),
    \<open>fstate\<close> (files, pipes), \<open>kbdstate\<close> (keyboard). An operation is polymorphic in what comes above it, so it provably
    leaves that alone.
  \<^item> Machine integers are words where the code relies on their width; pointers to table entries are indices, a null pointer is
    \<open>None\<close>. A caller's buffer is a sink or a source of bytes, since it may be user memory, kernel memory or a local variable.
  \<^item> Loops over ranges that the code bounds (blocks of the bitmap, bytes of a transfer, entries of a directory, elements of a
    path) are recursive functions with a termination proof; the superblock and the size of a locked directory are read once.

  \<^bold>\<open>Theories.\<close>
  \<^item> \<^verbatim>\<open>Prelude\<close>, \<^verbatim>\<open>Kernel\<close>, \<^verbatim>\<open>Bytes\<close>: arrays and links; the monad, its laws, rules for waiting; words in byte lists.
  \<^item> \<^verbatim>\<open>SkipList\<close>, \<^verbatim>\<open>SkipListCorrect\<close>, \<^verbatim>\<open>ReadyQueue\<close>: the run queue of \<^verbatim>\<open>proc.c\<close>. The level lists are sublists of one
    sorted list; \<^verbatim>\<open>slInsert\<close>, \<^verbatim>\<open>slDelete\<close> and \<^verbatim>\<open>slSearch\<close> return on every well-formed list and implement insertion,
    removal and search in it; a full list is refused; the random generator never gets stuck. The locale \<open>ready_queue\<close>
    is the contract for the scheduler.
  \<^item> \<^verbatim>\<open>Memory\<close>: \<^verbatim>\<open>string.c\<close> on byte memory; overlapping \<^verbatim>\<open>memmove\<close>, termination of \<^verbatim>\<open>safestrcpy\<close>.
  \<^item> \<^verbatim>\<open>Spinlock\<close>: \<^verbatim>\<open>spinlock.c\<close>; mutual exclusion for several CPUs as an inductive step relation, nesting, misuse panics.
  \<^item> \<^verbatim>\<open>Kalloc\<close>, \<^verbatim>\<open>Vm\<close>: a stack of pages, which in every history keeps the free pages apart from those held; \<^verbatim>\<open>mappages\<close>
    changes the hardware's translation of exactly its page.
  \<^item> \<^verbatim>\<open>Console\<close>, \<^verbatim>\<open>Tty\<close>: formatted output stays on the screen; the line editor and the console device.
  \<^item> \<^verbatim>\<open>Proc\<close>, \<^verbatim>\<open>Scheduler\<close>, \<^verbatim>\<open>Life\<close>: the process table and its invariant, \<^verbatim>\<open>sleep\<close> misses no wakeup, the scan of the
    scheduler leaves exactly the runnable processes in the list, a scheduling round runs a process with the earliest
    deadline, \<^verbatim>\<open>exit\<close> leaves a zombie whose parent looks for it and whose children have \<^verbatim>\<open>init\<close>; \<^verbatim>\<open>fork\<close>, \<^verbatim>\<open>wait\<close> and
    the system calls of \<^verbatim>\<open>sysproc.c\<close>.
  \<^item> \<^verbatim>\<open>Sleeplock\<close>, \<^verbatim>\<open>Bio\<close>, \<^verbatim>\<open>Log\<close>: exclusion; the cache returns what was written (locale \<open>block_cache\<close>, interpreted on
    \<^verbatim>\<open>bread\<close>, \<^verbatim>\<open>bwrite\<close> and \<^verbatim>\<open>brelse\<close>, on which the log rests); a commit is atomic under a crash after any of its writes.
  \<^item> \<^verbatim>\<open>Inode\<close>, \<^verbatim>\<open>Fs\<close>: \<^verbatim>\<open>fs.c\<close>; \<^verbatim>\<open>iget\<close> keeps one slot of the cache per inode, inodes survive the trip to their block,
    and path lookup is a walk along a list of names.
  \<^item> \<^verbatim>\<open>File\<close>: \<^verbatim>\<open>file.c\<close> and \<^verbatim>\<open>pipe.c\<close>; a pipe is a bounded queue (locale \<open>fifo\<close>), also when its counters wrap.
  \<^item> \<^verbatim>\<open>Sysfile\<close>, \<^verbatim>\<open>Trap\<close>: system calls on files, \<^verbatim>\<open>exec\<close>, the dispatcher; \<^verbatim>\<open>kbd.c\<close>, \<^verbatim>\<open>trap\<close>, and preemption when a
    quantum ends.

  \<^bold>\<open>What the theorems assume.\<close> Those about one thread start from a state in which the locks they take are free, or say
  that the thread waits; interference of other CPUs is in the states that waiting returns. Sample states at the end of
  a theory satisfy the assumptions.

  \<^bold>\<open>Not modelled.\<close> The assembly files and the boot loader, and \<^verbatim>\<open>main.c\<close>, which only orders initialisation; the
  interrupt controllers, the multiprocessor tables, segment and gate descriptors and the power-off port, which are
  register programming without effect on the kernel's data; \<^verbatim>\<open>ide.c\<close>, the driver of a real controller that the default
  kernel links, whose place \<^verbatim>\<open>memide.c\<close> takes in \<^verbatim>\<open>kernelmemfs\<close> and in the model: the theorem on crashes reads the
  disk image as what survives a crash, which \<^verbatim>\<open>ide.c\<close> relies on and a disk in memory does not provide; the delay loops
  of \<^verbatim>\<open>uart.c\<close>; the printing of \<^verbatim>\<open>panic\<close>. User programs and their library, \<^verbatim>\<open>usertests.c\<close>, and \<^verbatim>\<open>mkfs.c\<close> and the
  scripts of the build are outside the kernel. Hardware appears as arguments: the bytes that the keyboard and the
  serial line deliver, \<^verbatim>\<open>cr2\<close>, the address of \<^verbatim>\<open>initcode\<close>. Memory accesses are sequentially consistent.
\<close>

end
